(* ===== verification/Prelude.thy ===== *)
theory Prelude
  imports Main "HOL-Library.Word" "HOL-Library.Multiset" "HOL-Library.Monad_Syntax"
begin

unbundle bit_operations_syntax

text \<open>
  Shared vocabulary of the development: the machine types of the C++ sources, checked reads of
  a character buffer, counting loops written as \<open>fold\<close> over an interval of indices, the two
  standard bit operations (\<open>std::popcount\<close>, \<open>std::countr_zero\<close>) and inversions of a list.
  Every component theory imports this one.
\<close>

section \<open>Machine types and collections of facts\<close>

type_synonym u8 = "8 word"
type_synonym u16 = "16 word"
type_synonym u32 = "32 word"
type_synonym u64 = "64 word"
type_synonym i32 = "32 word" \<comment> \<open>read with \<open>sint\<close>\<close>

named_theorems buffer_simps \<open>checked reads of a buffer\<close>
named_theorems loop_simps \<open>unfolding of counting loops\<close>

section \<open>Checked reads\<close>

text \<open>
  A read through a pointer is a read at an index of the buffer that holds it; outside the buffer
  the C++ program has undefined behaviour, which is the value \<open>None\<close> here.
\<close>

definition rd :: "'a list \<Rightarrow> nat \<Rightarrow> 'a option" where
  "rd buf i = (if i < length buf then Some (buf ! i) else None)"

lemma rd_Some_iff [buffer_simps]: "rd buf i = Some c \<longleftrightarrow> i < length buf \<and> buf ! i = c"
  by (simp add: rd_def)

lemma rd_None_iff [buffer_simps]: "rd buf i = None \<longleftrightarrow> length buf \<le> i"
  by (auto simp: rd_def)

lemma rd_SomeD: "rd buf i = Some c \<Longrightarrow> i < length buf"
  by (simp add: rd_Some_iff)

lemma rd_in_range [simp]: "i < length buf \<Longrightarrow> rd buf i = Some (buf ! i)"
  by (simp add: rd_def)

lemma rd_append1: "i < length xs \<Longrightarrow> rd (xs @ ys) i = rd xs i"
  by (simp add: rd_def nth_append)

section \<open>Counting loops\<close>

lemma fold_upt_invar:
  assumes "a \<le> b" and "P a s"
    and step: "\<And>i s. a \<le> i \<Longrightarrow> i < b \<Longrightarrow> P i s \<Longrightarrow> P (Suc i) (f i s)"
  shows "P b (fold f [a..<b] s)"
  using assms(1,2) step
proof (induction "b - a" arbitrary: a s)
  case 0
  then show ?case by simp
next
  case (Suc n)
  then have ab: "a < b" by simp
  then have eq: "fold f [a..<b] s = fold f [Suc a..<b] (f a s)"
    by (simp add: upt_conv_Cons)
  have "P (Suc a) (f a s)" using Suc.prems ab by simp
  moreover have "n = b - Suc a" using Suc.hyps(2) by simp
  ultimately show ?case
    unfolding eq using Suc.hyps(1) [of "Suc a" "f a s"] Suc.prems(3) ab by simp
qed

lemma fold_upt_Suc [loop_simps]: "a \<le> b \<Longrightarrow> fold f [a..<Suc b] s = f b (fold f [a..<b] s)"
  by simp

lemma fold_upt_Cons [loop_simps]: "a < b \<Longrightarrow> fold f [a..<b] s = fold f [Suc a..<b] (f a s)"
  by (simp add: upt_conv_Cons)

text \<open>Induction over the positions of a buffer, from its end: a loop that only moves right.\<close>

lemma upto_induct [consumes 1, case_names step]:
  assumes "i \<le> (n::nat)"
    and step: "\<And>i. i \<le> n \<Longrightarrow> (\<And>j. i < j \<Longrightarrow> j \<le> n \<Longrightarrow> P j) \<Longrightarrow> P i"
  shows "P i"
  using assms(1)
proof (induction "n - i" arbitrary: i rule: less_induct)
  case less
  show ?case
  proof (rule step [OF less.prems])
    fix j assume "i < j" "j \<le> n"
    then show "P j" by (intro less.hyps) auto
  qed
qed

section \<open>Bits\<close>

text \<open>\<open>std::popcount\<close> and \<open>std::countr_zero\<close> of a 32-bit value.\<close>

definition popcount :: "u32 \<Rightarrow> nat" where
  "popcount w = length (filter (bit w) [0..<32])"

definition countr_zero :: "u32 \<Rightarrow> nat" where
  "countr_zero w = length (takeWhile (\<lambda>n. \<not> bit w n) [0..<32])"

definition bits :: "u32 \<Rightarrow> nat set" where
  "bits w = {n. bit w n}"

lemma in_bits [simp]: "n \<in> bits w \<longleftrightarrow> bit w n"
  by (simp add: bits_def)

lemma bits_bound: "bits w \<subseteq> {..<32}"
  using bit_imp_le_length by (fastforce simp: bits_def)

lemma bit_less_32: "bit (w::u32) n \<Longrightarrow> n < 32"
  using bit_imp_le_length [of w n] by simp

lemma finite_bits [simp]: "finite (bits w)"
  using bits_bound finite_subset by blast

lemma popcount_card: "popcount w = card (bits w)"
proof -
  have "bits w = set (filter (bit w) [0..<32])"
    using bit_less_32 by auto
  then show ?thesis by (simp add: popcount_def distinct_card [symmetric])
qed

lemma bits_inject: "bits v = bits w \<longleftrightarrow> v = w"
  by (auto simp: bits_def intro: bit_eqI)

lemma bits_0 [simp]: "bits 0 = {}"
  by (simp add: bits_def)

lemma bits_or [simp]: "bits (v OR w) = bits v \<union> bits w"
  by (auto simp: bits_def bit_or_iff)

lemma bits_and [simp]: "bits (v AND w) = bits v \<inter> bits w"
  by (auto simp: bits_def bit_and_iff)

lemma bits_xor [simp]: "bits (v XOR w) = (bits v - bits w) \<union> (bits w - bits v)"
  by (auto simp: bits_def bit_xor_iff)

lemma bits_push1 [simp]: "n < 32 \<Longrightarrow> bits (2 ^ n) = {n}"
  by (auto simp: bits_def bit_simps)

lemma popcount_eq_1: "popcount w = 1 \<longleftrightarrow> (\<exists>n<32. w = 2 ^ n)"
proof
  assume "popcount w = 1"
  then obtain n where n: "bits w = {n}"
    by (auto simp: popcount_card card_1_singleton_iff)
  then have "n < 32" using bits_bound [of w] by auto
  then have "w = 2 ^ n"
    using n bits_push1 [of n] by (simp only: bits_inject [symmetric])
  with \<open>n < 32\<close> show "\<exists>n<32. w = 2 ^ n" by blast
next
  assume "\<exists>n<32. w = 2 ^ n"
  then show "popcount w = 1" by (auto simp: popcount_card)
qed

lemma unat_power2: "n < 32 \<Longrightarrow> unat ((2::u32) ^ n) = 2 ^ n"
proof -
  assume "n < 32"
  then have "(2::nat) ^ n < 2 ^ 32" by (rule power_strict_increasing) simp
  then have "unat (of_nat (2 ^ n) :: u32) = 2 ^ n" by (simp only: unat_of_nat take_bit_nat_eq_self_iff) simp
  then show ?thesis by simp
qed

lemma unat_less_32: "unat (w::u32) < 4294967296"
proof -
  have "unat w < 2 ^ LENGTH(32)" by (rule unsigned_less)
  then show ?thesis by simp
qed

text \<open>Two 32-bit words are equal when their bits are: a finite test for mask and shift identities.\<close>

definition idx32 :: "nat list" where
  "idx32 = [0, 1, 2, 3, 4, 5, 6, 7, 8, 9, 10, 11, 12, 13, 14, 15, 16, 17, 18, 19, 20, 21, 22, 23, 24, 25, 26, 27, 28, 29, 30, 31]"

lemma set_idx32: "set idx32 = {..<32}"
  by (simp add: idx32_def lessThan_nat_numeral lessThan_Suc insert_commute)

lemma u32_eq_iff: "(v::u32) = w \<longleftrightarrow> list_all (\<lambda>n. bit v n = bit w n) idx32"
  by (auto intro!: bit_eqI simp: list_all_iff set_idx32 dest: bit_less_32)

lemma less_bits:
  assumes "(w::u32) < 2 ^ k" "k < 32"
  shows "list_all (\<lambda>n. k \<le> n \<longrightarrow> \<not> bit w n) idx32"
proof -
  have "take_bit k w = w"
    using less_mask_eq [OF assms(1)] by (simp add: take_bit_eq_mask)
  then have "\<not> bit w n" if "k \<le> n" for n
    using that by (metis bit_take_bit_iff leD)
  then show ?thesis by (simp add: list_all_iff)
qed

lemma u32_bound: "u \<le> m \<Longrightarrow> unat m < 2 ^ k \<Longrightarrow> k < 32 \<Longrightarrow> list_all (\<lambda>n. k \<le> n \<longrightarrow> \<not> bit u n) idx32"
  for u :: u32
  by (rule less_bits) (auto simp: word_le_nat_alt word_less_nat_alt unat_power2)

lemma bits_less:
  assumes "list_all (\<lambda>n. k \<le> n \<longrightarrow> \<not> bit w n) idx32" "k < 32"
  shows "(w::u32) < 2 ^ k"
proof -
  have "n < k" if "bit w n" for n
    using assms(1) that bit_less_32 [OF that] by (auto simp: list_all_iff set_idx32 intro: ccontr)
  then have "w AND mask k = w" by (auto simp: bit_eq_iff bit_simps)
  then show ?thesis using and_mask_less' [of k w] assms(2) by simp
qed

lemma take_nths: "n \<le> length s \<Longrightarrow> take n s = map ((!) s) [0..<n]"
  by (rule nth_equalityI) auto

lemma countr_zero_Min:
  assumes "w \<noteq> 0"
  shows "countr_zero w = Min (bits w)"
proof -
  let ?m = "Min (bits w)"
  have ne: "bits w \<noteq> {}" using assms bits_inject [of w 0] by simp
  then have m: "bit w ?m" using Min_in [of "bits w"] by simp
  then have lt: "?m < 32" by (rule bit_less_32)
  have split: "[0..<32] = [0..<?m] @ ?m # [Suc ?m..<32]"
    using lt upt_add_eq_append [of 0 ?m "32 - ?m"] by (simp add: upt_conv_Cons)
  have "\<forall>n \<in> set [0..<?m]. \<not> bit w n"
    using Min_le [of "bits w"] by (fastforce simp: not_le [symmetric])
  then have "takeWhile (\<lambda>n. \<not> bit w n) [0..<32] = [0..<?m]"
    unfolding split using m by (subst takeWhile_append2) auto
  then show ?thesis by (simp add: countr_zero_def)
qed

section \<open>Inversions\<close>

text \<open>
  The number of pairs of a list that are in descending order. Exchanging two elements of a
  list of distinct elements changes its parity.
\<close>

fun inversions :: "'a::linorder list \<Rightarrow> nat" where
  "inversions [] = 0"
| "inversions (x # xs) = length (filter (\<lambda>y. y < x) xs) + inversions xs"

definition cross :: "'a::linorder list \<Rightarrow> 'a list \<Rightarrow> nat" where
  "cross xs ys = (\<Sum>x\<leftarrow>xs. length (filter (\<lambda>y. y < x) ys))"

lemma cross_simps [simp]:
  "cross [] ys = 0"
  "cross (x # xs) ys = length (filter (\<lambda>y. y < x) ys) + cross xs ys"
  by (simp_all add: cross_def)

lemma cross_Nil2 [simp]: "cross xs [] = 0"
  by (induction xs) auto

lemma cross_append2: "cross xs (ys @ zs) = cross xs ys + cross xs zs"
  by (induction xs) auto

lemma cross_Cons2: "cross xs (y # ys) = length (filter (\<lambda>x. y < x) xs) + cross xs ys"
  by (induction xs) auto

lemma inversions_append: "inversions (xs @ ys) = inversions xs + inversions ys + cross xs ys"
  by (induction xs) auto

lemma cross_mset:
  assumes "mset xs = mset xs'" and "mset ys = mset ys'"
  shows "cross xs ys = cross xs' ys'"
proof -
  have c: "cross as bs = (\<Sum>x\<in>#mset as. size (filter_mset (\<lambda>y. y < x) (mset bs)))" for as bs :: "'a list"
    by (induction as) (simp_all flip: mset_filter)
  show ?thesis unfolding c assms ..
qed

lemma inversions_sorted: "sorted xs \<Longrightarrow> inversions xs = 0"
  by (induction xs) (auto simp: filter_empty_conv)

lemma split_around: "x \<notin> set (xs::'a::linorder list) \<Longrightarrow>
  length (filter (\<lambda>y. y < x) xs) + length (filter (\<lambda>y. x < y) xs) = length xs"
  by (induction xs) auto

lemma inversions_swap:
  assumes "distinct (A @ a # M @ b # C)"
  shows "odd (inversions (A @ a # M @ b # C) + inversions (A @ b # M @ a # C))"
proof -
  have a: "length (filter (\<lambda>y. y < a) M) + length (filter (\<lambda>y. a < y) M) = length M"
    and b: "length (filter (\<lambda>y. y < b) M) + length (filter (\<lambda>y. b < y) M) = length M"
    using assms by (auto intro!: split_around)
  have ab: "a < b \<or> b < a" using assms by auto
  define k where "k = 2 * (inversions A + inversions M + inversions C
    + cross A M + cross A C + cross M C + length (filter (\<lambda>x. a < x) A)
    + length (filter (\<lambda>x. b < x) A)
    + length (filter (\<lambda>y. y < a) C) + length (filter (\<lambda>y. y < b) C))"
  have "inversions (A @ a # M @ b # C) + inversions (A @ b # M @ a # C) =
     k + (length (filter (\<lambda>y. y < a) M) + length (filter (\<lambda>y. a < y) M))
       + (length (filter (\<lambda>y. y < b) M) + length (filter (\<lambda>y. b < y) M)) + 1"
    using ab by (auto simp: k_def inversions_append cross_append2 cross_Cons2)
  also have "\<dots> = k + 2 * length M + 1" by (simp add: a b)
  finally have eq: "inversions (A @ a # M @ b # C) + inversions (A @ b # M @ a # C)
    = k + 2 * length M + 1" .
  show ?thesis unfolding eq k_def by simp
qed

lemma inversions_rev:
  "distinct xs \<Longrightarrow> inversions xs + inversions (rev xs) = length xs * (length xs - 1) div 2"
proof (induction xs)
  case Nil
  then show ?case by simp
next
  case (Cons x xs)
  then have "length (filter (\<lambda>y. y < x) xs) + length (filter (\<lambda>y. x < y) xs) = length xs"
    by (auto intro!: split_around)
  moreover have "length (filter (\<lambda>y. x < y) (rev xs)) = length (filter (\<lambda>y. x < y) xs)"
    by (simp add: rev_filter [symmetric])
  moreover have "length (x # xs) * (length (x # xs) - 1) div 2 =
      length xs * (length xs - 1) div 2 + length xs"
  proof (cases "length xs")
    case (Suc n)
    have "Suc (Suc n) * Suc n = Suc n * n + 2 * Suc n" by (simp add: algebra_simps)
    then have "Suc (Suc n) * Suc n div 2 = Suc n * n div 2 + Suc n" by simp
    then show ?thesis using Suc by simp
  qed simp
  ultimately show ?case using Cons
    by (simp add: inversions_append cross_Cons2)
qed

lemma odd_triangle: "odd (G * (G - 1) div 2) \<longleftrightarrow> G mod 4 = 2 \<or> G mod 4 = (3::nat)"
proof (cases G)
  case (Suc k)
  have r: "k mod 4 = 0 \<or> k mod 4 = 1 \<or> k mod 4 = 2 \<or> k mod 4 = 3" by presburger
  have "Suc k * k mod 4 = (Suc k mod 4) * (k mod 4) mod 4" by (simp add: mod_mult_eq)
  also have "Suc k mod 4 = (k mod 4 + 1) mod 4" by (simp add: mod_Suc_eq)
  finally have "Suc k * k mod 4 = 2 \<longleftrightarrow> Suc k mod 4 = 2 \<or> Suc k mod 4 = 3"
    and "even (Suc k * k)"
    using r by (auto simp: mod_Suc)
  moreover have "odd (x div 2) \<longleftrightarrow> x mod 4 = 2" if "even x" for x :: nat
    using that by presburger
  ultimately show ?thesis using Suc by (simp only: diff_Suc_1)
qed simp

text \<open>Exchanging the elements at two indices.\<close>

lemma list_swap_decomp:
  assumes "i < j" and "j < length xs"
  shows "\<exists>A M C. xs = A @ xs ! i # M @ xs ! j # C \<and> length A = i
    \<and> xs[i := xs ! j, j := xs ! i] = A @ xs ! j # M @ xs ! i # C"
proof -
  define A M C where "A = take i xs" and "M = take (j - Suc i) (drop (Suc i) xs)"
    and "C = drop (Suc j) xs"
  have "drop i xs = xs ! i # drop (Suc i) xs"
    using assms by (simp add: Cons_nth_drop_Suc)
  moreover have "drop (Suc i) xs = M @ drop j xs"
  proof -
    have "drop (j - Suc i) (drop (Suc i) xs) = drop j xs" using assms by simp
    then show ?thesis unfolding M_def by (metis append_take_drop_id)
  qed
  moreover have "drop j xs = xs ! j # C"
    using assms by (simp add: C_def Cons_nth_drop_Suc)
  ultimately have xs: "xs = A @ xs ! i # M @ xs ! j # C"
    unfolding A_def by (metis append_take_drop_id)
  have lA: "length A = i" and lM: "length M = j - Suc i"
    using assms by (auto simp: A_def M_def)
  have "xs[i := xs ! j, j := xs ! i] = (A @ xs ! i # M @ xs ! j # C)[i := xs ! j, j := xs ! i]"
    using xs by simp
  also have "\<dots> = A @ xs ! j # (M @ xs ! j # C)[j - Suc i := xs ! i]"
  proof -
    have "j = Suc (i + (j - Suc i))" using assms by simp
    then obtain k where "j = Suc (i + k)" and "j - Suc i = k" by blast
    then show ?thesis by (simp add: list_update_append lA)
  qed
  also have "\<dots> = A @ xs ! j # M @ xs ! i # C"
    by (simp add: list_update_append lM)
  finally show ?thesis using xs lA by blast
qed

end
