(* ===== verification/BladeTag.thy ===== *)
theory BladeTag
  imports Prelude
begin

text \<open>
  Basis blades of the geometric algebra as bit masks (\<open>geomalg/include/geomalg/BladeTag.h\<close>):
  one bit per basis vector and the high bit for a noncanonical ordering of the factors. The
  operations of the class, in its order, and the correctness of the wedge product of basis
  vectors \<open>create\<close>: its exchange sort computes the parity of the permutation.
\<close>

section \<open>The class\<close>

datatype blade_tag = BladeTag (getTag: u32)

definition tag_bit_width :: nat where
  "tag_bit_width = 32"

definition tag_sign_mask :: u32 where
  "tag_sign_mask = push_bit (tag_bit_width - 1) 1"

definition getCanonicalTag :: "blade_tag \<Rightarrow> u32" where
  "getCanonicalTag B = (NOT tag_sign_mask) AND getTag B"

definition getCanonical :: "blade_tag \<Rightarrow> blade_tag" where
  "getCanonical B = BladeTag (getCanonicalTag B)"

definition getGrade :: "blade_tag \<Rightarrow> nat" where
  "getGrade B = popcount (getCanonicalTag B)"

text \<open>The assertion of the constructor: a 1-blade has no noncanonical ordering.\<close>

definition blade_ok :: "blade_tag \<Rightarrow> bool" where
  "blade_ok B \<longleftrightarrow> getGrade B \<noteq> 1 \<or> getTag B = getCanonicalTag B"

definition isCanonical :: "blade_tag \<Rightarrow> bool" where
  "isCanonical B \<longleftrightarrow> \<not> (tag_sign_mask AND getTag B \<noteq> 0)"

definition isZero :: "blade_tag \<Rightarrow> bool" where
  "isZero B \<longleftrightarrow> getTag B = tag_sign_mask"

definition oswap :: "blade_tag \<Rightarrow> blade_tag" where
  "oswap B = (if getGrade B > 1 then BladeTag (tag_sign_mask XOR getTag B) else B)"

definition shouldInvoNegate :: "blade_tag \<Rightarrow> bool" where
  "shouldInvoNegate B \<longleftrightarrow> getGrade B mod 2 \<noteq> 0"

definition shouldReverseNegate :: "blade_tag \<Rightarrow> bool" where
  "shouldReverseNegate B \<longleftrightarrow> getGrade B mod 4 = 2 \<or> getGrade B mod 4 = 3"

text \<open>
  \<open>factor\<close>: the leftmost basis vector of the blade and the rest. In a noncanonical ordering the
  first two vectors are exchanged, so the second lowest bit is taken and the rest is canonical.
\<close>

definition factor :: "blade_tag \<Rightarrow> blade_tag \<times> blade_tag" where
  "factor B =
     (if getGrade B < 2 then (BladeTag 0, B)
      else
        let CTag = getCanonicalTag B;
            TagA = push_bit (countr_zero CTag) 1;
            TagB = getTag B XOR TagA
        in if \<not> isCanonical B
           then let TagA' = push_bit (countr_zero TagB) 1
                in (BladeTag TagA', BladeTag (CTag XOR TagA'))
           else (BladeTag TagA, BladeTag TagB))"

section \<open>Bit level facts\<close>

lemma bits_sign_mask [simp]: "bits tag_sign_mask = {31}"
proof -
  have "tag_sign_mask = 2 ^ 31" by (simp add: tag_sign_mask_def tag_bit_width_def)
  then show ?thesis using bits_push1 [of 31] by simp
qed

lemma bit_sign_mask: "bit tag_sign_mask n \<longleftrightarrow> n = 31"
  using bits_sign_mask unfolding bits_def by blast

lemma bits_canonical [simp]: "bits (getCanonicalTag B) = bits (getTag B) - {31}"
  by (auto simp: bits_def getCanonicalTag_def bit_and_iff bit_not_iff_eq bit_sign_mask
      dest: bit_less_32)

lemma canonical_bits_bound: "bits (getCanonicalTag B) \<subseteq> {..<31}"
proof
  fix n assume n: "n \<in> bits (getCanonicalTag B)"
  then have "bit (getTag B) n" by simp
  then have "n < 32" by (rule bit_less_32)
  moreover have "n \<noteq> 31" using n unfolding bits_canonical by simp
  ultimately show "n \<in> {..<31}" by simp
qed

lemma grade_card: "getGrade B = card (bits (getTag B) - {31})"
  by (simp add: getGrade_def popcount_card)

lemma isCanonical_iff: "isCanonical B \<longleftrightarrow> 31 \<notin> bits (getTag B)"
proof -
  have "isCanonical B \<longleftrightarrow> bits (tag_sign_mask AND getTag B) = {}"
    using bits_inject [of "tag_sign_mask AND getTag B" 0] by (simp add: isCanonical_def)
  then show ?thesis by auto
qed

lemma canonical_tag_eq: "getTag B = getCanonicalTag B \<longleftrightarrow> isCanonical B"
proof -
  have "getTag B = getCanonicalTag B \<longleftrightarrow> bits (getTag B) = bits (getTag B) - {31}"
    using bits_inject [of "getTag B" "getCanonicalTag B"] by simp
  then show ?thesis unfolding isCanonical_iff by blast
qed

lemma blade_ok_iff: "blade_ok B \<longleftrightarrow> (getGrade B = 1 \<longrightarrow> isCanonical B)"
  by (auto simp: blade_ok_def canonical_tag_eq)

lemma isZero_bits: "isZero B \<longleftrightarrow> bits (getTag B) = {31}"
  using bits_inject [of "getTag B" tag_sign_mask] by (auto simp: isZero_def)

lemma grade_sign_swap: "getGrade (BladeTag (tag_sign_mask XOR t)) = getGrade (BladeTag t)"
proof -
  have "bits (tag_sign_mask XOR t) - {31} = bits t - {31}" by (simp only: bits_xor bits_sign_mask) blast
  then show ?thesis by (simp add: grade_card)
qed

lemma oswap_oswap: "oswap (oswap B) = B"
proof (cases B)
  case (BladeTag t)
  have "bits (tag_sign_mask XOR (tag_sign_mask XOR t)) = bits t"
    by (simp only: bits_xor bits_sign_mask) blast
  then have "tag_sign_mask XOR (tag_sign_mask XOR t) = t" by (simp only: bits_inject)
  then show ?thesis by (simp add: BladeTag oswap_def grade_sign_swap)
qed

section \<open>The order of blades\<close>

datatype strong_ordering = Less_ord | Equal_ord | Greater_ord

definition spaceship :: "blade_tag \<Rightarrow> blade_tag \<Rightarrow> strong_ordering" where
  "spaceship A B =
     (if getTag A = getTag B then Equal_ord
      else if getGrade A < getGrade B \<or> (getGrade A = getGrade B \<and> getTag A < getTag B)
      then Less_ord else Greater_ord)"

instantiation blade_tag :: linorder
begin

definition less_eq_blade_tag :: "blade_tag \<Rightarrow> blade_tag \<Rightarrow> bool" where
  "less_eq_blade_tag A B \<longleftrightarrow> spaceship A B \<noteq> Greater_ord"

definition less_blade_tag :: "blade_tag \<Rightarrow> blade_tag \<Rightarrow> bool" where
  "less_blade_tag A B \<longleftrightarrow> spaceship A B = Less_ord"

instance
proof
  fix A B C :: blade_tag
  show "A < B \<longleftrightarrow> A \<le> B \<and> \<not> B \<le> A" "A \<le> A" "A \<le> B \<or> B \<le> A"
    by (auto simp: less_eq_blade_tag_def less_blade_tag_def spaceship_def split: if_splits)
  show "A \<le> B \<Longrightarrow> B \<le> C \<Longrightarrow> A \<le> C"
    by (cases A; cases B; cases C)
      (auto simp: less_eq_blade_tag_def spaceship_def split: if_splits)
  show "A \<le> B \<Longrightarrow> B \<le> A \<Longrightarrow> A = B"
    by (cases A; cases B) (auto simp: less_eq_blade_tag_def spaceship_def split: if_splits)
qed

end

lemma blade_less_iff:
  "A < B \<longleftrightarrow> getGrade A < getGrade B \<or> (getGrade A = getGrade B \<and> getTag A < getTag B)"
  by (cases A; cases B) (auto simp: less_blade_tag_def spaceship_def)


section \<open>The wedge product of basis vectors\<close>

definition createZero :: blade_tag where
  "createZero = BladeTag tag_sign_mask"

text \<open>
  The exchange sort of \<open>create\<close>: for every pair \<open>I < J\<close> of indices the elements are exchanged
  when they are out of order, and each exchange flips the sign bit.
\<close>

definition create_step :: "nat \<Rightarrow> nat \<Rightarrow> blade_tag list \<times> u32 \<Rightarrow> blade_tag list \<times> u32" where
  "create_step I J = (\<lambda>(BladeTags, SignTag).
     if \<not> (BladeTags ! I \<le> BladeTags ! J)
     then (BladeTags[I := BladeTags ! J, J := BladeTags ! I], SignTag XOR tag_sign_mask)
     else (BladeTags, SignTag))"

definition create_row :: "nat \<Rightarrow> blade_tag list \<times> u32 \<Rightarrow> blade_tag list \<times> u32" where
  "create_row I st = fold (create_step I) [Suc I..<length (fst st)] st"

definition create_sort :: "blade_tag list \<Rightarrow> blade_tag list \<times> u32" where
  "create_sort BladeTags = fold create_row [0..<length BladeTags] (BladeTags, 0)"

definition or_tags :: "(blade_tag \<Rightarrow> u32) \<Rightarrow> blade_tag list \<Rightarrow> u32 \<Rightarrow> u32" where
  "or_tags f Bs t = fold (\<lambda>B t. t OR f B) Bs t"

definition create :: "blade_tag list \<Rightarrow> blade_tag" where
  "create BladeTags =
     (if BladeTags = [] then BladeTag 0
      else if length BladeTags > 1 \<and>
        popcount (or_tags getCanonicalTag (tl BladeTags) (getCanonicalTag (hd BladeTags)))
          < length BladeTags
      then createZero
      else
        let (sorted_tags, SignTag) = create_sort BladeTags;
            Tag = or_tags getTag sorted_tags 0
        in BladeTag (Tag OR SignTag))"

text \<open>
  Invariant of the sort: the same elements, and the sign bit records the parity of the
  inversions removed so far.
\<close>

definition sign_of :: "bool \<Rightarrow> u32" where
  "sign_of b = (if b then tag_sign_mask else 0)"

lemma bits_sign_of [simp]: "bits (sign_of b) = (if b then {31} else {})"
  by (simp add: sign_of_def)

lemma sign_of_flip: "sign_of b XOR tag_sign_mask = sign_of (\<not> b)"
  by (simp add: sign_of_def)

definition sort_inv :: "blade_tag list \<Rightarrow> blade_tag list \<times> u32 \<Rightarrow> bool" where
  "sort_inv bs0 st \<longleftrightarrow> mset (fst st) = mset bs0
     \<and> snd st = sign_of (odd (inversions bs0 + inversions (fst st)))"

lemma sort_inv_length: "sort_inv bs0 st \<Longrightarrow> length (fst st) = length bs0"
  using mset_eq_length by (auto simp: sort_inv_def)

lemma sort_inv_step:
  assumes "distinct bs0" and "I < J" and "J < length bs0" and inv: "sort_inv bs0 st"
  shows "sort_inv bs0 (create_step I J st)"
proof (cases st)
  case (Pair bs s)
  then have m: "mset bs = mset bs0" and s: "s = sign_of (odd (inversions bs0 + inversions bs))"
    using inv by (auto simp: sort_inv_def)
  have len: "length bs = length bs0" using m by (rule mset_eq_length)
  have d: "distinct bs" using assms(1) m mset_eq_imp_distinct_iff by blast
  let ?bs = "bs[I := bs ! J, J := bs ! I]"
  obtain A M C where bs: "bs = A @ bs ! I # M @ bs ! J # C"
    and sw: "?bs = A @ bs ! J # M @ bs ! I # C"
    using list_swap_decomp [of I J bs] assms len by auto
  have "odd (inversions bs + inversions ?bs)"
    using inversions_swap [of A "bs ! I" M "bs ! J" C] d unfolding bs [symmetric] sw [symmetric]
    by simp
  then have "odd (inversions bs0 + inversions ?bs) \<longleftrightarrow> \<not> odd (inversions bs0 + inversions bs)"
    by auto
  moreover have "mset ?bs = mset bs" using assms len by (simp add: mset_swap)
  ultimately show ?thesis
    by (simp add: Pair create_step_def sort_inv_def m s sign_of_flip)
qed

text \<open>Row \<open>I\<close> leaves a least element of the rest at index \<open>I\<close>; earlier rows stay in place.\<close>

definition rows_sorted :: "nat \<Rightarrow> blade_tag list \<Rightarrow> bool" where
  "rows_sorted I bs \<longleftrightarrow> (\<forall>i<I. \<forall>k. i < k \<longrightarrow> k < length bs \<longrightarrow> bs ! i \<le> bs ! k)"

lemma rows_sorted_swap:
  assumes "rows_sorted I bs" and "I \<le> a" and "I \<le> b" and "a < length bs" and "b < length bs"
  shows "rows_sorted I (bs[a := bs ! b, b := bs ! a])"
  using assms by (auto simp: rows_sorted_def nth_list_update)

lemma create_row_inv:
  assumes "distinct bs0" and "I < length bs0" and "sort_inv bs0 st" and "rows_sorted I (fst st)"
  shows "sort_inv bs0 (create_row I st) \<and> rows_sorted (Suc I) (fst (create_row I st))"
proof -
  let ?P = "\<lambda>J st. sort_inv bs0 st \<and> rows_sorted I (fst st)
    \<and> (\<forall>k. I < k \<longrightarrow> k < J \<longrightarrow> fst st ! I \<le> fst st ! k)"
  have len: "length (fst st) = length bs0" using assms(3) by (rule sort_inv_length)
  have "?P (length bs0) (fold (create_step I) [Suc I..<length bs0] st)"
  proof (rule fold_upt_invar [where P = ?P])
    show "Suc I \<le> length bs0" using assms by simp
    show "?P (Suc I) st" using assms by simp
    fix J st assume J: "Suc I \<le> J" "J < length bs0" and P: "?P J st"
    then have len: "length (fst st) = length bs0" using sort_inv_length by blast
    have "sort_inv bs0 (create_step I J st)" using sort_inv_step assms(1) J P by simp
    moreover have "rows_sorted I (fst (create_step I J st))"
      using P J len rows_sorted_swap [of I "fst st" I J] by (cases st) (simp add: create_step_def)
    moreover have "\<forall>k. I < k \<longrightarrow> k < Suc J \<longrightarrow> fst (create_step I J st) ! I \<le> fst (create_step I J st) ! k"
      using P J len
      by (cases st) (auto simp: create_step_def nth_list_update less_Suc_eq intro: order_trans)
    ultimately show "?P (Suc J) (create_step I J st)" by blast
  qed
  then have P: "?P (length bs0) (create_row I st)" using len by (simp add: create_row_def)
  moreover have "length (fst (create_row I st)) = length bs0" using P sort_inv_length by blast
  ultimately show ?thesis by (auto simp: rows_sorted_def less_Suc_eq)
qed

lemma create_sort_inv:
  assumes "distinct bs"
  shows "sort_inv bs (create_sort bs) \<and> sorted (fst (create_sort bs))"
proof -
  let ?P = "\<lambda>I st. sort_inv bs st \<and> rows_sorted I (fst st)"
  have "?P (length bs) (create_sort bs)" unfolding create_sort_def
  proof (rule fold_upt_invar [where P = ?P])
    show "?P 0 (bs, 0)" by (simp add: sort_inv_def sign_of_def rows_sorted_def)
  qed (use assms create_row_inv in auto)
  moreover from this have "length (fst (create_sort bs)) = length bs" using sort_inv_length by blast
  ultimately show ?thesis
    by (auto simp: rows_sorted_def sorted_iff_nth_mono_less intro!: sorted_iff_nth_mono_less [THEN iffD2])
qed

lemma create_sort_result:
  assumes "distinct bs"
  obtains bs' where "create_sort bs = (bs', sign_of (odd (inversions bs)))"
    and "mset bs' = mset bs" and "sorted bs'"
  using create_sort_inv [OF assms] that [of "fst (create_sort bs)"]
  by (auto simp: sort_inv_def inversions_sorted prod_eq_iff)


section \<open>The value of the wedge product\<close>

text \<open>The precondition that \<open>create\<close> asserts: every factor is a (canonical) basis vector.\<close>

definition is_basis :: "blade_tag \<Rightarrow> bool" where
  "is_basis B \<longleftrightarrow> getGrade B = 1 \<and> blade_ok B"

definition basis :: "nat \<Rightarrow> blade_tag" where
  "basis n = BladeTag (push_bit n 1)"

lemma getTag_basis [simp]: "getTag (basis n) = 2 ^ n"
  by (simp add: basis_def)

lemma is_basis_iff: "is_basis B \<longleftrightarrow> (\<exists>n<31. B = basis n)"
proof
  assume "is_basis B"
  then have "popcount (getCanonicalTag B) = 1" and t: "getTag B = getCanonicalTag B"
    by (auto simp: is_basis_def blade_ok_def getGrade_def)
  then obtain n where n: "n < 32" "getTag B = 2 ^ n" by (metis popcount_eq_1)
  then have "bits (getTag B) = {n}" by simp
  moreover have "31 \<notin> bits (getTag B)" using t by (metis canonical_tag_eq isCanonical_iff)
  ultimately have "n \<noteq> 31" by blast
  with n show "\<exists>n<31. B = basis n" by (cases B) (auto simp: basis_def intro: exI [of _ n])
next
  assume "\<exists>n<31. B = basis n"
  then obtain n where n: "n < 31" "B = basis n" by blast
  then have b: "bits (getTag B) = {n}" by simp
  then show "is_basis B" using n(1)
    by (auto simp: is_basis_def blade_ok_iff grade_card isCanonical_iff)
qed

lemma is_basis_basis [simp]: "n < 31 \<Longrightarrow> is_basis (basis n)"
  using is_basis_iff by blast

lemma basis_bits: "n < 31 \<Longrightarrow> bits (getTag (basis n)) = {n}"
  by simp

lemma basis_grade: "n < 31 \<Longrightarrow> getGrade (basis n) = 1"
  using is_basis_iff is_basis_def by blast

lemma basis_inj: "m < 31 \<Longrightarrow> n < 31 \<Longrightarrow> basis m = basis n \<longleftrightarrow> m = n"
  by (metis basis_bits singleton_inject)

lemma power_word_less: "m < 32 \<Longrightarrow> n < 32 \<Longrightarrow> (2::u32) ^ m < 2 ^ n \<longleftrightarrow> m < n"
  by (simp add: word_less_nat_alt unat_power2)

lemma basis_less: "m < 31 \<Longrightarrow> n < 31 \<Longrightarrow> basis m < basis n \<longleftrightarrow> m < n"
  by (simp add: blade_less_iff basis_grade power_word_less)

lemma bits_or_tags [simp]: "bits (or_tags f bs t) = bits t \<union> (\<Union>B \<in> set bs. bits (f B))"
  by (induction bs arbitrary: t) (auto simp: or_tags_def)

lemma basis_list:
  assumes "list_all is_basis bs"
  obtains ns where "bs = map basis ns" and "set ns \<subseteq> {..<31}"
proof -
  have "\<exists>ns. bs = map basis ns \<and> set ns \<subseteq> {..<31}"
    using assms
  proof (induction bs)
    case (Cons B bs)
    then obtain ns n where "bs = map basis ns" "set ns \<subseteq> {..<31}" "n < 31" "B = basis n"
      by (auto simp: is_basis_iff)
    then show ?case by (intro exI [of _ "n # ns"]) auto
  qed simp
  then show ?thesis using that by blast
qed

lemma basis_set_bits:
  "set ns \<subseteq> {..<31} \<Longrightarrow> (\<Union>B \<in> set (map basis ns). bits (getTag B)) = set ns"
  using basis_bits by (induction ns) auto

lemma distinct_basis: "set ns \<subseteq> {..<31} \<Longrightarrow> distinct (map basis ns) \<longleftrightarrow> distinct ns"
  using basis_inj by (auto simp: distinct_map intro!: inj_onI dest: subsetD)

lemma inversions_basis: "set ns \<subseteq> {..<31} \<Longrightarrow> inversions (map basis ns) = inversions ns"
proof (induction ns)
  case (Cons n ns)
  then have "filter (\<lambda>y. y < basis n) (map basis ns) = map basis (filter (\<lambda>m. m < n) ns)"
    unfolding filter_map o_def by (intro arg_cong [where f = "map basis"] filter_cong)
      (auto simp: basis_less subset_iff)
  with Cons show ?case by simp
qed simp

lemma sorted_basis: "set ns \<subseteq> {..<31} \<Longrightarrow> sorted ns \<Longrightarrow> sorted (map basis ns)"
proof (induction ns)
  case (Cons n ns)
  then have "basis n \<le> basis m" if "m \<in> set ns" for m
    using that basis_less [of n m] by (cases "n = m") (auto simp: order_le_less)
  with Cons show ?case by simp
qed simp

text \<open>The duplicate test of \<open>create\<close> finds exactly the lists with a repeated factor.\<close>

lemma duplicate_test:
  assumes ns: "set ns \<subseteq> {..<31}" and "ns \<noteq> []"
  shows "popcount (or_tags getCanonicalTag (tl (map basis ns)) (getCanonicalTag (hd (map basis ns))))
      < length ns \<longleftrightarrow> \<not> distinct ns"
proof -
  obtain m ms where m: "ns = m # ms" using assms(2) by (cases ns) auto
  have c: "n < 31 \<Longrightarrow> bits (getCanonicalTag (basis n)) = {n}" for n by simp
  have "(\<Union>B \<in> set (map basis ms). bits (getCanonicalTag B)) = set ms"
    using ns m c by (auto simp del: bits_canonical)
  then have "bits (or_tags getCanonicalTag (map basis ms) (getCanonicalTag (basis m))) = set ns"
    using ns m c [of m] by simp
  then have "popcount (or_tags getCanonicalTag (map basis ms) (getCanonicalTag (basis m)))
    = card (set ns)" by (simp add: popcount_card)
  then show ?thesis using m card_length [of ns] card_distinct [of ns] distinct_card [of ns]
    by (auto simp: le_less)
qed

lemma create_dup:
  assumes "set ns \<subseteq> {..<31}" and "\<not> distinct ns"
  shows "create (map basis ns) = createZero"
proof -
  have "ns \<noteq> []" and "length ns > 1" using assms(2) by (auto simp: distinct_length_2_or_more neq_Nil_conv)
     (cases ns; cases "tl ns"; auto)+
  then show ?thesis using duplicate_test [OF assms(1)] assms(2) by (simp add: create_def)
qed

lemma create_distinct:
  assumes ns: "set ns \<subseteq> {..<31}" and d: "distinct ns"
  shows "bits (getTag (create (map basis ns))) = set ns \<union> bits (sign_of (odd (inversions ns)))"
proof (cases "ns = []")
  case True
  then show ?thesis by (simp add: create_def)
next
  case False
  have "distinct (map basis ns)" using assms distinct_basis by blast
  then obtain bs' where cs: "create_sort (map basis ns) = (bs', sign_of (odd (inversions (map basis ns))))"
    and m: "mset bs' = mset (map basis ns)"
    by (rule create_sort_result)
  have "set bs' = set (map basis ns)" using m mset_eq_setD by blast
  then have "(\<Union>B \<in> set bs'. bits (getTag B)) = set ns" using basis_set_bits ns by simp
  moreover have "create (map basis ns) = BladeTag (or_tags getTag bs' 0 OR sign_of (odd (inversions ns)))"
    using duplicate_test [OF ns False] d False cs inversions_basis [OF ns] by (simp add: create_def)
  ultimately show ?thesis by simp
qed

lemma create_grade:
  assumes "set ns \<subseteq> {..<31}" and "distinct ns"
  shows "getGrade (create (map basis ns)) = length ns"
proof -
  have "bits (getTag (create (map basis ns))) - {31} = set ns"
    using create_distinct [OF assms] assms(1) by (auto split: if_splits)
  then show ?thesis using assms(2) by (simp add: grade_card distinct_card)
qed

lemma create_nonzero:
  assumes "set ns \<subseteq> {..<31}" and "distinct ns"
  shows "\<not> isZero (create (map basis ns))"
proof
  assume "isZero (create (map basis ns))"
  then have "set ns \<union> bits (sign_of (odd (inversions ns))) = {31}"
    using create_distinct [OF assms] by (simp add: isZero_bits)
  then show False using assms(1) by (cases ns) (auto split: if_splits)
qed

text \<open>A blade is determined by its set of basis vectors and its ordering bit.\<close>

lemma blade_eqI: "bits (getTag A) = bits (getTag B) \<Longrightarrow> A = B"
  by (cases A; cases B) (simp add: bits_inject)

lemma bits_oswap:
  assumes "getGrade B > 1"
  shows "bits (getTag (oswap B)) = (bits (getTag B) - {31}) \<union> (if isCanonical B then {31} else {})"
  using assms by (auto simp: oswap_def isCanonical_iff)


section \<open>Factoring\<close>

lemma countr_zero_power: "w \<noteq> 0 \<Longrightarrow> bits (push_bit (countr_zero w) (1::u32)) = {Min (bits w)}"
proof -
  assume w: "w \<noteq> 0"
  then have "bits w \<noteq> {}" using bits_inject [of w 0] by auto
  then have "bit w (Min (bits w))" using Min_in [of "bits w"] by simp
  then show ?thesis using w bit_less_32 by (simp add: countr_zero_Min)
qed

lemma nonzero_bits: "bits w \<noteq> {} \<Longrightarrow> w \<noteq> 0"
  by auto

lemma factor_canonical:
  assumes "2 \<le> getGrade B" and "isCanonical B"
  shows "bits (getTag (fst (factor B))) = {Min (bits (getTag B))}"
    and "bits (getTag (snd (factor B))) = bits (getTag B) - {Min (bits (getTag B))}"
proof -
  have c: "bits (getTag B) - {31} = bits (getTag B)" using assms(2) by (simp add: isCanonical_iff)
  have ne: "bits (getTag B) \<noteq> {}" using assms(1) c by (auto simp: grade_card)
  have "getCanonicalTag B \<noteq> 0" using ne c by (intro nonzero_bits) simp
  then have "bits (push_bit (countr_zero (getCanonicalTag B)) (1::u32)) = {Min (bits (getCanonicalTag B))}"
    by (rule countr_zero_power)
  then have z: "bits (push_bit (countr_zero (getCanonicalTag B)) (1::u32)) = {Min (bits (getTag B))}"
    unfolding bits_canonical c .
  have f: "factor B = (BladeTag (push_bit (countr_zero (getCanonicalTag B)) 1),
      BladeTag (getTag B XOR push_bit (countr_zero (getCanonicalTag B)) 1))"
    using assms by (simp add: factor_def Let_def)
  show "bits (getTag (fst (factor B))) = {Min (bits (getTag B))}"
    unfolding f by (simp only: fst_conv blade_tag.sel z)
  show "bits (getTag (snd (factor B))) = bits (getTag B) - {Min (bits (getTag B))}"
    unfolding f using Min_in [OF _ ne] by (auto simp only: snd_conv blade_tag.sel bits_xor z finite_bits)
qed

text \<open>The basis vectors of a blade, and the second least of them.\<close>

definition vectors :: "blade_tag \<Rightarrow> nat set" where
  "vectors B = bits (getTag B) - {31}"

lemma vectors_props [simp]: "finite (vectors B)" "vectors B \<subseteq> {..<31}" "31 \<notin> vectors B"
  using canonical_bits_bound [of B] by (auto simp: vectors_def bits_canonical)

lemma grade_vectors: "getGrade B = card (vectors B)"
  by (simp add: vectors_def grade_card)

lemma bits_vectors: "bits (getTag B) = vectors B \<union> (if isCanonical B then {} else {31})"
  by (auto simp: vectors_def isCanonical_iff)

lemma factor_noncanonical:
  assumes "2 \<le> getGrade B" and "\<not> isCanonical B"
  defines "m \<equiv> Min (vectors B - {Min (vectors B)})"
  shows "bits (getTag (fst (factor B))) = {m}"
    and "bits (getTag (snd (factor B))) = vectors B - {m}"
    and "m \<in> vectors B" and "Min (vectors B) < m"
proof -
  let ?V = "vectors B" and ?m = "Min (vectors B)"
  have card: "2 \<le> card ?V" using assms(1) by (simp add: grade_vectors)
  then have ne: "?V \<noteq> {}" by auto
  have "card (?V - {?m}) \<ge> 1" using card by (simp add: card_Diff_singleton ne)
  then have ne2: "?V - {?m} \<noteq> {}" by (metis card.empty not_one_le_zero)
  then have m: "m \<in> ?V - {?m}" unfolding m_def by (intro Min_in) auto
  then show mV: "m \<in> ?V" by simp
  show "?m < m" using m by (simp add: Min_le order_le_neq_trans)
  have bc: "bits (getCanonicalTag B) = ?V" by (simp add: vectors_def)
  then have "getCanonicalTag B \<noteq> 0" using ne by (intro nonzero_bits) simp
  then have a: "bits (push_bit (countr_zero (getCanonicalTag B)) (1::u32)) = {?m}"
    unfolding bc [symmetric] by (rule countr_zero_power)
  let ?TagB = "getTag B XOR push_bit (countr_zero (getCanonicalTag B)) 1"
  have b: "bits ?TagB = insert 31 (?V - {?m})"
  proof -
    have i: "bits (getTag B) = insert 31 ?V" using assms(2) by (simp add: bits_vectors)
    have "?m \<in> ?V" using ne by (intro Min_in) simp_all
    moreover from this have "?m \<noteq> 31" using vectors_props(3) [of B] by metis
    ultimately show ?thesis unfolding bits_xor a i by auto
  qed
  have "Min (bits ?TagB) = m"
  proof -
    have "m < 31" using mV vectors_props(2) by blast
    moreover have "Min (insert 31 (?V - {?m})) = min 31 (Min (?V - {?m}))"
      using ne2 by (intro Min_insert) simp_all
    ultimately show ?thesis unfolding b by (simp add: m_def [symmetric])
  qed
  then have c: "bits (push_bit (countr_zero ?TagB) (1::u32)) = {m}"
    using b countr_zero_power [of ?TagB] nonzero_bits [of ?TagB] by auto
  have f: "factor B = (BladeTag (push_bit (countr_zero ?TagB) 1),
      BladeTag (getCanonicalTag B XOR push_bit (countr_zero ?TagB) 1))"
    using assms by (simp add: factor_def Let_def)
  show "bits (getTag (fst (factor B))) = {m}"
    unfolding f by (simp only: fst_conv blade_tag.sel c)
  show "bits (getTag (snd (factor B))) = ?V - {m}"
    unfolding f using mV by (auto simp only: snd_conv blade_tag.sel bits_xor c bc)
qed

text \<open>What \<open>factor\<close> returns on either ordering: a basis vector and a canonical rest.\<close>

definition leading :: "blade_tag \<Rightarrow> nat" where
  "leading B = (if isCanonical B then Min (vectors B) else Min (vectors B - {Min (vectors B)}))"

lemma factor_shape:
  assumes "2 \<le> getGrade B"
  shows "leading B \<in> vectors B" and "fst (factor B) = basis (leading B)"
    and "bits (getTag (snd (factor B))) = vectors B - {leading B}"
proof -
  have "leading B \<in> vectors B \<and> bits (getTag (fst (factor B))) = {leading B}
    \<and> bits (getTag (snd (factor B))) = vectors B - {leading B}"
  proof (cases "isCanonical B")
    case True
    then have v: "bits (getTag B) = vectors B" by (simp add: bits_vectors)
    have "vectors B \<noteq> {}" using assms by (auto simp: grade_vectors)
    then have "Min (vectors B) \<in> vectors B" by (intro Min_in) simp_all
    then show ?thesis using factor_canonical [OF assms True] True v by (simp add: leading_def)
  next
    case False
    then show ?thesis using factor_noncanonical [OF assms False] by (simp add: leading_def)
  qed
  then show "leading B \<in> vectors B" and "bits (getTag (snd (factor B))) = vectors B - {leading B}"
    by simp_all
  then show "fst (factor B) = basis (leading B)"
    using vectors_props(2) [of B] \<open>leading B \<in> vectors B \<and> _\<close> basis_bits [of "leading B"]
    by (intro blade_eqI) blast
qed

lemma factor_rest:
  assumes "2 \<le> getGrade B"
  shows "vectors (snd (factor B)) = vectors B - {leading B}"
    and "isCanonical (snd (factor B))"
    and "getGrade (snd (factor B)) = getGrade B - 1"
proof -
  show v: "vectors (snd (factor B)) = vectors B - {leading B}"
    by (simp add: vectors_def [of "snd (factor B)"] factor_shape [OF assms])
  show "isCanonical (snd (factor B))"
    by (simp add: isCanonical_iff factor_shape [OF assms])
  show "getGrade (snd (factor B)) = getGrade B - 1"
    by (simp add: grade_vectors v card_Diff_singleton factor_shape [OF assms])
qed

function factorize :: "blade_tag \<Rightarrow> blade_tag list" where
  "factorize A =
     (if getGrade A > 1 then case factor A of (a, B) \<Rightarrow> a # factorize B else [A])"
  by pat_completeness auto
termination
  by (relation "measure getGrade") (auto dest!: arg_cong [where f = snd] simp: factor_rest)

declare factorize.simps [simp del]

lemma factorize_unfold:
  "2 \<le> getGrade A \<Longrightarrow> factorize A = basis (leading A) # factorize (snd (factor A))"
  by (simp add: factorize.simps [of A] split_beta factor_shape)

lemma factorize_canonical:
  assumes "1 \<le> getGrade B" and "isCanonical B"
  shows "factorize B = map basis (sorted_list_of_set (vectors B))"
  using assms
proof (induction "getGrade B" arbitrary: B rule: less_induct)
  case less
  show ?case
  proof (cases "2 \<le> getGrade B")
    case True
    note r = factor_rest [OF True]
    have "factorize (snd (factor B)) = map basis (sorted_list_of_set (vectors B - {leading B}))"
      using less.hyps [of "snd (factor B)"] r True by simp
    moreover have "sorted_list_of_set (vectors B) = leading B # sorted_list_of_set (vectors B - {leading B})"
      using factor_shape(1) [OF True] sorted_list_of_set_nonempty [of "vectors B"] less.prems(2)
      by (auto simp: leading_def)
    ultimately show ?thesis using True by (simp add: factorize_unfold)
  next
    case False
    then have "is_basis B" using less.prems by (simp add: is_basis_def blade_ok_iff)
    then obtain n where n: "n < 31" "B = basis n" by (auto simp: is_basis_iff)
    then have "vectors B = {n}" by (simp add: vectors_def)
    moreover have "factorize B = [B]" using False by (subst factorize.simps) simp
    ultimately show ?thesis using n by simp
  qed
qed

lemma factorize_noncanonical:
  assumes "2 \<le> getGrade B"
  shows "factorize B = map basis (leading B # sorted_list_of_set (vectors B - {leading B}))"
  using factorize_unfold [OF assms] factor_rest [OF assms] assms factorize_canonical [of "snd (factor B)"]
  by simp


section \<open>Correctness of the wedge product\<close>

lemma sorted_list_of_vectors: "set (sorted_list_of_set (vectors B)) \<subseteq> {..<31}"
  using vectors_props by simp

lemma create_oswap:
  assumes "set ns \<subseteq> {..<31}" "set ms = set ns" "distinct ns" "distinct ms" "1 < length ns"
    and "odd (inversions ms) \<noteq> odd (inversions ns)"
  shows "create (map basis ms) = oswap (create (map basis ns))"
proof (rule blade_eqI)
  have 31: "31 \<notin> set ns" using assms(1) by auto
  have g: "1 < getGrade (create (map basis ns))" using create_grade assms by simp
  have "isCanonical (create (map basis ns)) \<longleftrightarrow> even (inversions ns)"
    using create_distinct [of ns] assms 31 by (simp add: isCanonical_iff)
  then show "bits (getTag (create (map basis ms))) = bits (getTag (oswap (create (map basis ns))))"
    unfolding bits_oswap [OF g] using create_distinct [of ns] create_distinct [of ms] assms 31
    by auto
qed

lemma mset_map_basis:
  assumes "mset (map basis ms) = mset (map basis ns)" "set ms \<subseteq> {..<31}" "set ns \<subseteq> {..<31}"
  shows "mset ms = mset ns"
proof -
  have inj: "inj_on basis {..<31}" by (auto intro!: inj_onI simp: basis_inj)
  have "image_mset basis (mset ms) = image_mset basis (mset ns)" using assms(1) by simp
  then show ?thesis using inj assms(2,3)
    by (intro multiset.inj_map_strong [of "mset ms" "mset ns" basis basis]) (auto simp: inj_on_def)
qed

text \<open>
  C3: The wedge product of distinct basis vectors depends on their order only through the parity
  of the permutation: reordering the factors gives the same blade for an even permutation and the
  blade with the opposite ordering sign for an odd one.
\<close>
theorem create_permutation:
  assumes "list_all is_basis xs" and "distinct xs" and "mset ys = mset xs"
  shows "create ys = (if even (inversions xs + inversions ys) then create xs else oswap (create xs))"
proof -
  have "list_all is_basis ys" using assms by (metis list_all_iff mset_eq_setD)
  then obtain ms where ms: "ys = map basis ms" "set ms \<subseteq> {..<31}" by (rule basis_list)
  obtain ns where ns: "xs = map basis ns" "set ns \<subseteq> {..<31}" using assms(1) by (rule basis_list)
  have m: "mset ms = mset ns" using assms(3) ms ns mset_map_basis by metis
  then have s: "set ms = set ns" and d: "distinct ms" "distinct ns"
    using assms(2) ns distinct_basis mset_eq_setD mset_eq_imp_distinct_iff by metis+
  have inv: "inversions xs = inversions ns" "inversions ys = inversions ms"
    using ms ns by (simp_all add: inversions_basis)
  show ?thesis
  proof (cases "even (inversions ns + inversions ms)")
    case True
    then have "create ys = create xs"
      unfolding ms ns using create_distinct [OF ms(2) d(1)] create_distinct [OF ns(2) d(2)] s
      by (intro blade_eqI) (simp add: sign_of_def)
    with True show ?thesis by (simp add: inv)
  next
    case False
    have len: "length ms = length ns" using m by (rule mset_eq_length)
    have "1 < length ns"
    proof (rule ccontr)
      assume "\<not> 1 < length ns"
      then have "ms = ns" using len s by (cases ns; cases ms) auto
      with False show False by simp
    qed
    then have "create ys = oswap (create xs)"
      unfolding ms ns using False s d ns by (intro create_oswap) auto
    with False show ?thesis by (simp add: inv)
  qed
qed

theorem create_permutation_witness:
  "create [basis 1, basis 0] = oswap (create [basis 0, basis 1])"
proof -
  have b: "is_basis (basis 0)" "is_basis (basis 1)" by (rule is_basis_basis, simp)+
  have inv: "inversions [basis 0, basis 1] = 0" "inversions [basis 1, basis 0] = 1"
    using inversions_basis [of "[0,1]"] inversions_basis [of "[1,0]"] by auto
  show ?thesis using create_permutation [of "[basis 0, basis 1]" "[basis 1, basis 0]"]
    unfolding inv using b basis_inj [of 0 1] by (simp add: add_mset_commute)
qed

text \<open>
  \<open>shouldReverseNegate\<close> is right: reversing the factors of any product of basis vectors
  changes the ordering sign exactly when the grade is 2 or 3 modulo 4.
\<close>
theorem create_reverse:
  assumes "list_all is_basis xs"
  shows "create (rev xs)
    = (if shouldReverseNegate (create xs) then oswap (create xs) else create xs)"
proof -
  obtain ns where ns: "xs = map basis ns" "set ns \<subseteq> {..<31}" using assms by (rule basis_list)
  show ?thesis
  proof (cases "distinct ns")
    case True
    define G where "G = length ns"
    have g: "getGrade (create xs) = G" using create_grade ns True by (simp add: G_def)
    have sum: "inversions ns + inversions (rev ns) = G * (G - 1) div 2"
      using inversions_rev [OF True] by (simp add: G_def)
    note par = odd_triangle [of G]
    show ?thesis
    proof (cases "odd (G * (G - 1) div 2)")
      case True
      then have "odd (inversions (rev ns)) \<noteq> odd (inversions ns)" using sum by presburger
      moreover have "1 < length ns" using True par by (auto simp: G_def)
      ultimately have "create (rev xs) = oswap (create xs)"
        unfolding ns using ns \<open>distinct ns\<close> by (simp add: rev_map create_oswap)
      then show ?thesis using True par by (simp add: shouldReverseNegate_def g)
    next
      case False
      then have "odd (inversions (rev ns)) = odd (inversions ns)" using sum by presburger
      then have "create (rev xs) = create xs"
        unfolding ns using create_distinct [of "rev ns"] create_distinct [of ns] ns \<open>distinct ns\<close>
        by (intro blade_eqI) (simp add: rev_map)
      then show ?thesis using False par by (simp add: shouldReverseNegate_def g)
    qed
  next
    case False
    then have "create xs = createZero" "create (rev xs) = createZero"
      using create_dup [of ns] create_dup [of "rev ns"] ns by (simp_all add: rev_map)
    then show ?thesis by (simp add: shouldReverseNegate_def grade_card createZero_def)
  qed
qed

theorem create_reverse_witness:
  "create (rev [basis 0, basis 1]) = oswap (create [basis 0, basis 1])"
proof -
  have b: "list_all is_basis (map basis [0, 1])" by simp
  have "getGrade (create (map basis [0, 1])) = 2" using create_grade [of "[0,1]"] by simp
  then show ?thesis using create_reverse [OF b] by (simp add: shouldReverseNegate_def)
qed

text \<open>The basis vectors that \<open>factorize\<close> returns, in an order whose parity is the ordering sign.\<close>

lemma factorize_basis:
  assumes "1 \<le> getGrade B" and "blade_ok B"
  shows "\<exists>ns. factorize B = map basis ns \<and> distinct ns \<and> set ns = vectors B
    \<and> odd (inversions ns) = (\<not> isCanonical B)"
proof (cases "isCanonical B")
  case True
  then show ?thesis using factorize_canonical [OF assms(1) True] vectors_props(1)
    by (intro exI [of _ "sorted_list_of_set (vectors B)"]) (simp add: inversions_sorted)
next
  case False
  then have g: "2 \<le> getGrade B" using assms by (auto simp: blade_ok_iff)
  let ?r = "sorted_list_of_set (vectors B - {leading B})"
  have m: "leading B = Min (vectors B - {Min (vectors B)})" using False by (simp add: leading_def)
  note n = factor_noncanonical(3,4) [OF g False, folded m]
  have least: "x = Min (vectors B)" if "x \<in> vectors B" "x < leading B" for x
  proof (rule ccontr)
    assume "x \<noteq> Min (vectors B)"
    then have "leading B \<le> x" unfolding m using that(1) by (intro Min_le) simp_all
    with that(2) show False by simp
  qed
  have "vectors B \<noteq> {}" using n(1) by blast
  then have "Min (vectors B) \<in> vectors B" by (intro Min_in) simp_all
  then have "{x \<in> vectors B - {leading B}. x < leading B} = {Min (vectors B)}"
    using n(2) by (intro equalityI subsetI) (use least in blast, simp)
  then have "set (filter (\<lambda>y. y < leading B) ?r) = {Min (vectors B)}" by simp
  then have "length (filter (\<lambda>y. y < leading B) ?r) = 1"
    using distinct_card [of "filter (\<lambda>y. y < leading B) ?r"] by simp
  then have "inversions (leading B # ?r) = 1" by (simp add: inversions_sorted)
  moreover have "set (leading B # ?r) = vectors B" using n(1) by auto
  ultimately show ?thesis using factorize_noncanonical [OF g] False
    by (intro exI [of _ "leading B # ?r"]) simp
qed

text \<open>
  C4: Factorizing a blade into basis vectors and wedging the factors gives the blade back, with
  its ordering sign, and there are as many factors as the grade says.
\<close>
theorem factorize_create:
  assumes "1 \<le> getGrade B" and "blade_ok B"
  shows "create (factorize B) = B \<and> list_all is_basis (factorize B)
    \<and> length (factorize B) = getGrade B"
proof -
  obtain ns where ns: "factorize B = map basis ns" "distinct ns" "set ns = vectors B"
    "odd (inversions ns) = (\<not> isCanonical B)" using factorize_basis [OF assms] by blast
  have sub: "set ns \<subseteq> {..<31}" using ns(3) vectors_props(2) by simp
  have "create (factorize B) = B"
    unfolding ns(1) using create_distinct [OF sub ns(2)] ns(3,4) bits_vectors [of B]
    by (intro blade_eqI) (simp add: sign_of_def)
  moreover have "list_all is_basis (factorize B)"
    using sub unfolding ns(1) list_all_iff by (auto simp: is_basis_iff)
  moreover have "length (factorize B) = getGrade B"
    using ns by (metis distinct_card grade_vectors length_map)
  ultimately show ?thesis by blast
qed

theorem factorize_create_witness:
  "create (factorize (BladeTag (tag_sign_mask OR 3))) = BladeTag (tag_sign_mask OR 3)"
proof -
  have "bits 3 = {0, 1}"
    using bits_or [of 1 2] bits_push1 [of 0] bits_push1 [of 1] by (simp add: insert_commute)
  then have "getGrade (BladeTag (tag_sign_mask OR 3)) = 2"
    by (simp add: grade_card insert_Diff_if)
  then show ?thesis using factorize_create [of "BladeTag (tag_sign_mask OR 3)"]
    by (simp add: blade_ok_iff)
qed

text \<open>
  A product of basis vectors is the zero tag exactly when a factor is repeated; otherwise its
  grade is the number of factors.
\<close>
theorem create_zero_grade:
  assumes "list_all is_basis xs"
  shows "isZero (create xs) = (\<not> distinct xs)
    \<and> getGrade (create xs) = (if distinct xs then length xs else 0)"
proof -
  obtain ns where ns: "xs = map basis ns" "set ns \<subseteq> {..<31}" using assms by (rule basis_list)
  have d: "distinct xs = distinct ns" using ns distinct_basis by simp
  show ?thesis
  proof (cases "distinct ns")
    case True
    then show ?thesis using create_nonzero [OF ns(2) True] d create_grade [OF ns(2) True] ns(1) by simp
  next
    case False
    then show ?thesis using create_dup [OF ns(2)] d ns(1)
      by (simp add: isZero_def createZero_def grade_card)
  qed
qed

theorem create_zero_grade_witness: "isZero (create [basis 3, basis 3])"
  using create_zero_grade [of "[basis 3, basis 3]"] by simp

end
