(* ===== verification/Result.thy ===== *)
theory Result
  imports Main
begin

text \<open>Results of code that can leave its defined behaviour, and how they are sequenced.\<close>

text \<open>
  The ways in which a run leaves the defined behaviour of the code: the fuel of the model is used
  up, a read is outside its buffer, an \<open>assert\<close> fails (\<open>StringRef::operator[]\<close> has one), an
  \<open>llvm_unreachable\<close> is reached, a shift is by the width of its operand or more, or a signed
  operation overflows.
\<close>

datatype fault = OutOfFuel | BufferOverread | AssertionFailed | Unreachable | InvalidShift | SignedOverflow

type_synonym 'a result = "fault + 'a"

fun andThen :: "'a result \<Rightarrow> ('a \<Rightarrow> 'b result) \<Rightarrow> 'b result" where
  "andThen (Inl e) f = Inl e"
| "andThen (Inr x) f = f x"

definition of_option :: "fault \<Rightarrow> 'a option \<Rightarrow> 'a result" where
  "of_option e x = (case x of None \<Rightarrow> Inl e | Some y \<Rightarrow> Inr y)"

definition check :: "bool \<Rightarrow> 'a result \<Rightarrow> 'a result" where
  "check ok m = (if ok then m else Inl AssertionFailed)"

lemma andThen_cong:
  "m = m' \<Longrightarrow> (\<And>x. m' = Inr x \<Longrightarrow> f x = f' x) \<Longrightarrow> andThen m f = andThen m' f'"
  by (cases m') auto

lemma andThen_Inr: "andThen m f = Inr y \<longleftrightarrow> (\<exists>x. m = Inr x \<and> f x = Inr y)"
  by (cases m) auto

lemma andThen_Inl: "andThen m f = Inl e \<longleftrightarrow> m = Inl e \<or> (\<exists>x. m = Inr x \<and> f x = Inl e)"
  by (cases m) auto

lemma of_option_simps [simp]:
  "of_option e (Some x) = Inr x" "of_option e None = Inl e"
  "of_option e m = Inr y \<longleftrightarrow> m = Some y" "of_option e m = Inl e' \<longleftrightarrow> m = None \<and> e' = e"
  by (auto simp: of_option_def split: option.splits)

lemma check_simps [simp]:
  "check True m = m" "check b m = Inr y \<longleftrightarrow> b \<and> m = Inr y"
  "check b m = Inl e \<longleftrightarrow> (\<not> b \<and> e = AssertionFailed) \<or> (b \<and> m = Inl e)"
  by (auto simp: check_def)

end
