(* ===== verification/GeoType.thy ===== *)
theory GeoType
  imports BladeTag Result
begin

text \<open>
  The types of the geometric algebra dialect (\<open>geomalg/lib/Geomalg/Type.cpp\<close>,
  \<open>geomalg/include/geomalg/Type.h\<close>, \<open>Metric.h\<close>): blades, sums of blades, versors, the narrowing of one type to
  another, the construction of types from products and sums of blades, and the metric. What the
  types promise of the values that have them is a semantics by support; narrowing refines it.
\<close>

section \<open>The types\<close>

text \<open>
  The types that the dialect declares and any other type of the compiler, of which the code only
  asks whether it is a placeholder. Types are unique in their context, so equality is identity.
\<close>

datatype geo_type =
    UnknownType
  | ZeroType
  | BladeType blade_tag
  | MultivectorType "blade_tag list"
  | UnitVectorType "blade_tag list"
  | UnitMultivectorType "blade_tag list"
  | VersorType "geo_type list"
  | OtherType (placeholder: bool) (type_id: nat)

definition isZeroType :: "geo_type \<Rightarrow> bool" where
  "isZeroType T \<longleftrightarrow> T = ZeroType"

definition isUnknown :: "geo_type \<Rightarrow> bool" where
  "isUnknown T \<longleftrightarrow> (case T of UnknownType \<Rightarrow> True | OtherType b _ \<Rightarrow> b | _ \<Rightarrow> False)"

text \<open>\<open>dyn_cast<BladeType>\<close>, and \<open>dyn_cast<MultivectorLike>\<close> with the blades of the interface.\<close>

fun as_blade :: "geo_type \<Rightarrow> blade_tag option" where
  "as_blade (BladeType B) = Some B"
| "as_blade _ = None"

fun getBlades :: "geo_type \<Rightarrow> blade_tag list option" where
  "getBlades (MultivectorType Bs) = Some Bs"
| "getBlades (UnitVectorType Bs) = Some Bs"
| "getBlades (UnitMultivectorType Bs) = Some Bs"
| "getBlades _ = None"

fun isUnitary :: "geo_type \<Rightarrow> bool" where
  "isUnitary (UnitVectorType Bs) = True"
| "isUnitary (UnitMultivectorType Bs) = True"
| "isUnitary _ = False"

fun isVector :: "geo_type \<Rightarrow> bool" where
  "isVector (BladeType B) \<longleftrightarrow> getGrade B = 1"
| "isVector (MultivectorType Bs) \<longleftrightarrow> list_all (\<lambda>B. getGrade B = 1) Bs"
| "isVector (UnitVectorType Bs) \<longleftrightarrow> True"
| "isVector (UnitMultivectorType Bs) \<longleftrightarrow> False"
| "isVector _ \<longleftrightarrow> False"

definition getCanonicalType :: "geo_type \<Rightarrow> geo_type" where
  "getCanonicalType T = (case as_blade T of Some B \<Rightarrow> BladeType (getCanonical B) | None \<Rightarrow> T)"

definition isLikeBlades :: "geo_type \<Rightarrow> geo_type \<Rightarrow> bool" where
  "isLikeBlades A B \<longleftrightarrow> (case (as_blade A, as_blade B) of
     (Some BTA, Some BTB) \<Rightarrow> getCanonical BTA = getCanonical BTB
   | _ \<Rightarrow> False)"

definition isLikeMultivector :: "geo_type \<Rightarrow> geo_type \<Rightarrow> bool" where
  "isLikeMultivector A B \<longleftrightarrow> (case (getBlades A, getBlades B) of
     (Some MA, Some MB) \<Rightarrow> MA = MB
   | _ \<Rightarrow> False)"

definition getBladeTypes :: "geo_type \<Rightarrow> blade_tag list" where
  "getBladeTypes T = (case as_blade T of Some B \<Rightarrow> [B]
     | None \<Rightarrow> (case getBlades T of Some Bs \<Rightarrow> Bs | None \<Rightarrow> []))"

section \<open>Narrowing\<close>

text \<open>\<open>std::includes\<close> of two sorted ranges: does the second occur in the first?\<close>

fun includes_range :: "'a::linorder list \<Rightarrow> 'a list \<Rightarrow> bool" where
  "includes_range xs [] = True"
| "includes_range [] (y # ys) = False"
| "includes_range (x # xs) (y # ys) =
     (if y < x then False else if x < y then includes_range xs (y # ys) else includes_range xs ys)"

text \<open>\<open>A.getTypeID() == B.getTypeID()\<close>, asked of two sums of blades: are they of the same class?\<close>

fun same_class :: "geo_type \<Rightarrow> geo_type \<Rightarrow> bool" where
  "same_class (MultivectorType _) (MultivectorType _) = True"
| "same_class (UnitVectorType _) (UnitVectorType _) = True"
| "same_class (UnitMultivectorType _) (UnitMultivectorType _) = True"
| "same_class _ _ = False"

text \<open>\<open>isa<MultivectorLike, BladeType, VersorType, ZeroType>\<close>: the types with known semantics.\<close>

fun known_semantics :: "geo_type \<Rightarrow> bool" where
  "known_semantics UnknownType = False"
| "known_semantics (OtherType p n) = False"
| "known_semantics _ = True"

function isValidNarrowing :: "geo_type \<Rightarrow> geo_type \<Rightarrow> bool" where
  "isValidNarrowing A B =
     (if A = B then True
      else if isUnknown A then True
      else if \<not> known_semantics A then False
      else
        case (A, B) of
          (VersorType FA, VersorType FB) \<Rightarrow>
            length FA = length FB \<and> list_all (\<lambda>(X, Y). isValidNarrowing X Y) (zip FA FB)
        | _ \<Rightarrow>
          (case (getBlades A, as_blade B) of
             (Some BTs, Some BT) \<Rightarrow> BT \<in> set BTs
           | _ \<Rightarrow>
             (case (getBlades A, getBlades B) of
                (Some MLA_BTs, Some MLB_BTs) \<Rightarrow>
                  if isUnitary B \<or> same_class A B
                  then includes_range (sort MLA_BTs) (sort MLB_BTs)
                  else isZeroType B
              | _ \<Rightarrow> isZeroType B)))"
  by pat_completeness auto
termination isValidNarrowing
  by (relation "measure (size \<circ> fst)") (auto dest!: set_zip_leftD simp: less_Suc_eq_le size_list_estimation')

declare isValidNarrowing.simps [simp del]

definition hasSupportedInverse :: "geo_type \<Rightarrow> bool" where
  "hasSupportedInverse T \<longleftrightarrow>
     (isUnknown T \<or> isZeroType T \<or> isVector T \<or> as_blade T \<noteq> None
        \<or> (case T of VersorType _ \<Rightarrow> True | _ \<Rightarrow> False))
     \<or> \<not> list_ex (\<lambda>BT. getGrade BT mod 2 \<noteq> 0) (getBladeTypes T)"

definition hasSupportedConversion :: "geo_type \<Rightarrow> geo_type \<Rightarrow> bool" where
  "hasSupportedConversion From To \<longleftrightarrow>
     (isUnknown From \<or> isUnknown To \<or> isValidNarrowing To From)
     \<or> (getBlades From \<noteq> None \<and> isVector From
         \<and> (case To of UnitVectorType _ \<Rightarrow> True | _ \<Rightarrow> False))"

section \<open>Construction\<close>

text \<open>
  \<open>PushTag\<close> of \<open>createBladeType\<close>: the basis vectors of a blade are appended to \<open>BladeTags\<close>, a
  nonzero scalar is ignored.
\<close>

function PushTag :: "blade_tag \<Rightarrow> bool \<times> blade_tag list \<Rightarrow> bool \<times> blade_tag list" where
  "PushTag BT (IsZero, BladeTags) =
     (if isZero BT then (True, BladeTags)
      else if getGrade BT > 1
      then (case factor BT of (BT1, BT2) \<Rightarrow> PushTag BT2 (PushTag BT1 (IsZero, BladeTags)))
      else if getGrade BT = 1 then (IsZero, BladeTags @ [BT])
      else (IsZero, BladeTags))"
  by pat_completeness auto

lemma factor_grades:
  assumes "1 < getGrade BT"
  shows "getGrade (fst (factor BT)) = 1" and "getGrade (snd (factor BT)) < getGrade BT"
proof -
  have "leading BT \<in> {..<31}" using assms by (intro subsetD [OF vectors_props(2) factor_shape(1)]) simp
  then have "leading BT < 31" by simp
  then show "getGrade (fst (factor BT)) = 1" using assms by (simp add: factor_shape basis_grade)
  show "getGrade (snd (factor BT)) < getGrade BT" using assms by (simp add: factor_rest)
qed

lemma factor_pairD:
  "Suc 0 < getGrade BT \<Longrightarrow> (x, y) = factor BT \<Longrightarrow>
    getGrade x < getGrade BT \<and> getGrade y < getGrade BT"
  using factor_grades [of BT] by (cases "factor BT") simp

termination PushTag
  by (relation "measure (getGrade \<circ> fst)") (auto dest: factor_pairD)

declare PushTag.simps [simp del]

text \<open>The result of the construction is an error only when the list of blades is empty.\<close>

definition createBladeType :: "blade_tag list \<Rightarrow> geo_type result" where
  "createBladeType BladeTypes = check (BladeTypes \<noteq> [])
     (let (IsZero, BladeTags) = fold PushTag BladeTypes (False, []);
          Tag = create BladeTags
      in Inr (if IsZero \<or> isZero Tag then ZeroType else BladeType Tag))"

definition inferOuterProdResult :: "geo_type \<Rightarrow> geo_type \<Rightarrow> geo_type result" where
  "inferOuterProdResult TypeA TypeB =
     (case (as_blade TypeA, as_blade TypeB) of
        (Some A, Some B) \<Rightarrow> createBladeType [A, B]
      | _ \<Rightarrow> Inr (if isZeroType TypeA \<or> isZeroType TypeB then ZeroType else UnknownType))"

text \<open>The class \<open>T\<close> of the template is the constructor of the type.\<close>

definition createMultivectorLikeType ::
  "(blade_tag list \<Rightarrow> geo_type) \<Rightarrow> blade_tag list \<Rightarrow> geo_type result" where
  "createMultivectorLikeType T BladeTypes = check (BladeTypes \<noteq> [])
     (let BladeTypes = remdups_adj (sort BladeTypes)
      in Inr (if length BladeTypes = 1 then BladeType (hd BladeTypes) else T BladeTypes))"

definition createUnitType :: "blade_tag list \<Rightarrow> geo_type result" where
  "createUnitType BladeTypes =
     (if list_all (\<lambda>BT. getGrade BT = 1) BladeTypes
      then createMultivectorLikeType UnitVectorType BladeTypes
      else createMultivectorLikeType UnitMultivectorType BladeTypes)"

section \<open>Verification of types\<close>

definition UnitVector_verify :: "blade_tag list \<Rightarrow> bool" where
  "UnitVector_verify Blades \<longleftrightarrow> list_all (\<lambda>BT. getGrade BT = 1) Blades"

definition UnitMultivector_verify :: "blade_tag list \<Rightarrow> bool" where
  "UnitMultivector_verify Blades \<longleftrightarrow> \<not> list_all (\<lambda>BT. getGrade BT = 1) Blades"

definition Versor_verify :: "geo_type list \<Rightarrow> bool" where
  "Versor_verify Factors \<longleftrightarrow> Factors \<noteq> [] \<and> list_all isVector Factors"

text \<open>A type that its verifier accepts, built from blades that the constructor of tags accepts.\<close>

primrec verified :: "geo_type \<Rightarrow> bool" where
  "verified UnknownType = True"
| "verified ZeroType = True"
| "verified (BladeType B) = blade_ok B"
| "verified (MultivectorType Bs) = list_all blade_ok Bs"
| "verified (UnitVectorType Bs) = (list_all blade_ok Bs \<and> UnitVector_verify Bs)"
| "verified (UnitMultivectorType Bs) = (list_all blade_ok Bs \<and> UnitMultivector_verify Bs)"
| "verified (VersorType Fs) = (Versor_verify Fs \<and> list_all id (map verified Fs))"
| "verified (OtherType p n) = True"

section \<open>The metric\<close>

datatype MetricKind = unknown | cga

record Metric =
  Dim :: u32
  DotProducts :: "(blade_tag \<times> blade_tag \<times> int) list"

definition get_metric :: "MetricKind \<Rightarrow> Metric" where
  "get_metric Kind = (case Kind of
       cga \<Rightarrow> \<lparr>Dim = 5, DotProducts =
         [(BladeTag 8, BladeTag 8, 0), (BladeTag 16, BladeTag 16, 0), (BladeTag 8, BladeTag 16, -1)]\<rparr>
     | unknown \<Rightarrow> \<lparr>Dim = 0, DotProducts = []\<rparr>)"

definition dotProduct :: "Metric \<Rightarrow> blade_tag \<Rightarrow> blade_tag \<Rightarrow> int result" where
  "dotProduct M A B = check (Dim M \<noteq> 0) (check (getGrade A = 1 \<and> getGrade B = 1)
     (let (A, B) = (if A > B then (B, A) else (A, B))
      in case find (\<lambda>(C, D, _). A = C \<and> B = D) (DotProducts M) of
           None \<Rightarrow> Inr (if A = B then 1 else 0)
         | Some (_, _, d) \<Rightarrow> Inr d))"

text \<open>The inner and the outer loop of \<open>isOrthogonal\<close>.\<close>

fun orthogonal_row :: "Metric \<Rightarrow> blade_tag \<Rightarrow> blade_tag list \<Rightarrow> bool result" where
  "orthogonal_row M a [] = Inr True"
| "orthogonal_row M a (b # bs) =
     (if getGrade a = 1 \<and> getGrade b = 1
      then andThen (dotProduct M a b) (\<lambda>d. if d \<noteq> 0 then Inr False else orthogonal_row M a bs)
      else orthogonal_row M a bs)"

fun orthogonal_rows :: "Metric \<Rightarrow> blade_tag list \<Rightarrow> blade_tag list \<Rightarrow> bool result" where
  "orthogonal_rows M [] bs = Inr True"
| "orthogonal_rows M (a # as) bs =
     andThen (orthogonal_row M a bs) (\<lambda>ok. if ok then orthogonal_rows M as bs else Inr False)"

definition isOrthogonal :: "Metric \<Rightarrow> blade_tag \<Rightarrow> blade_tag \<Rightarrow> bool result" where
  "isOrthogonal M A B =
     (if Dim M = 0 then Inr False else orthogonal_rows M (factorize A) (factorize B))"

text \<open>The inner and the outer loop of \<open>isOrthogonalBasis\<close>.\<close>

fun orthogonal_basis_row :: "Metric \<Rightarrow> blade_tag \<Rightarrow> blade_tag list \<Rightarrow> bool result" where
  "orthogonal_basis_row M BT1 [] = Inr True"
| "orthogonal_basis_row M BT1 (BT2 # bs) =
     (if getGrade BT1 \<noteq> 1 \<or> getGrade BT2 \<noteq> 1 then Inr False
      else andThen (dotProduct M BT1 BT2)
        (\<lambda>d. if d \<noteq> (if BT1 = BT2 then 1 else 0) then Inr False else orthogonal_basis_row M BT1 bs))"

fun isOrthogonalBasis :: "Metric \<Rightarrow> blade_tag list \<Rightarrow> blade_tag list \<Rightarrow> bool result" where
  "isOrthogonalBasis M [] bs = Inr True"
| "isOrthogonalBasis M (BT1 # as) bs =
     andThen (orthogonal_basis_row M BT1 bs) (\<lambda>ok. if ok then isOrthogonalBasis M as bs else Inr False)"

section \<open>The wedge product of blades\<close>

lemma grade_nonzero: "1 \<le> getGrade B \<Longrightarrow> \<not> isZero B"
  by (auto simp: isZero_bits grade_card)

lemma PushTag_vector: "getGrade B = 1 \<Longrightarrow> PushTag B (z, bs) = (z, bs @ [B])"
  by (simp add: PushTag.simps grade_nonzero)

lemma PushTag_factorize:
  "1 \<le> getGrade B \<Longrightarrow> PushTag B (z, bs) = (z, bs @ factorize B)"
proof (induction "getGrade B" arbitrary: B bs rule: less_induct)
  case less
  show ?case
  proof (cases "1 < getGrade B")
    case True
    note f = factor_grades [OF True] and r = factor_rest(3) [of B]
    have "PushTag B (z, bs) = PushTag (snd (factor B)) (PushTag (fst (factor B)) (z, bs))"
      using True grade_nonzero [of B] by (subst PushTag.simps) (simp add: split_beta)
    also have "\<dots> = (z, (bs @ [fst (factor B)]) @ factorize (snd (factor B)))"
      unfolding PushTag_vector [OF f(1)] using f(2) r True by (intro less.hyps) simp_all
    also have "\<dots> = (z, bs @ factorize B)"
      using True by (simp add: factorize.simps [of B] split_beta)
    finally show ?thesis .
  next
    case False
    then show ?thesis using less.prems PushTag_vector [of B] by (simp add: factorize.simps [of B])
  qed
qed

text \<open>Two orders of the same factors with the same sign.\<close>

definition same_order :: "nat list \<Rightarrow> nat list \<Rightarrow> bool" where
  "same_order ns ms \<longleftrightarrow> mset ns = mset ms \<and> (odd (inversions ns) \<longleftrightarrow> odd (inversions ms))"

lemma same_order_append:
  "same_order ns ms \<Longrightarrow> same_order ns' ms' \<Longrightarrow> same_order (ns @ ns') (ms @ ms')"
  using cross_mset [of ns ms ns' ms'] by (simp add: same_order_def inversions_append)

lemma same_order_distinct: "same_order ns ms \<Longrightarrow> distinct ns = distinct ms \<and> set ns = set ms"
  unfolding same_order_def by (metis mset_eq_imp_distinct_iff mset_eq_setD)

lemma same_order_create:
  assumes "same_order ns ms" and "set ns \<subseteq> {..<31}"
  shows "create (map basis ms) = create (map basis ns)"
proof (cases "distinct ns")
  case True
  then show ?thesis
    using assms same_order_distinct [OF assms(1)] create_distinct [of ns] create_distinct [of ms]
    by (intro blade_eqI) (simp add: same_order_def)
next
  case False
  then show ?thesis
    using assms same_order_distinct [OF assms(1)] create_dup [of ns] create_dup [of ms] by simp
qed

text \<open>What \<open>createBladeType\<close> collects for a product of basis vectors.\<close>

lemma PushTag_create:
  assumes "set ns \<subseteq> {..<31}" and "distinct ns"
  shows "\<exists>ms. PushTag (create (map basis ns)) (z, bs) = (z, bs @ map basis ms) \<and> same_order ns ms"
proof (cases "ns = []")
  case True
  then show ?thesis
    by (intro exI [of _ "[]"]) (simp add: PushTag.simps create_def isZero_bits grade_card same_order_def)
next
  case False
  let ?B = "create (map basis ns)"
  have g: "getGrade ?B = length ns" using assms by (rule create_grade)
  then have g1: "1 \<le> getGrade ?B" using False by (cases ns) auto
  have b: "bits (getTag ?B) = set ns \<union> bits (sign_of (odd (inversions ns)))"
    using assms by (rule create_distinct)
  have v: "vectors ?B = set ns" unfolding vectors_def b using assms(1) by (auto split: if_splits)
  have c: "isCanonical ?B \<longleftrightarrow> even (inversions ns)"
    unfolding isCanonical_iff b using assms(1) by auto
  have "blade_ok ?B"
  proof (cases "length ns = 1")
    case True
    then have "inversions ns = 0" by (cases ns) auto
    then show ?thesis by (simp add: blade_ok_iff c)
  qed (simp add: blade_ok_iff g)
  then obtain ms where "factorize ?B = map basis ms" "distinct ms" "set ms = vectors ?B"
    "odd (inversions ms) = (\<not> isCanonical ?B)" using factorize_basis [OF g1] by blast
  then show ?thesis using PushTag_factorize [OF g1, of z bs] assms(2) v c
    by (intro exI [of _ ms]) (simp add: same_order_def set_eq_iff_mset_eq_distinct)
qed

lemma PushTag_zero: "PushTag createZero (z, bs) = (True, bs)"
  by (simp add: PushTag.simps isZero_def createZero_def)

lemma PushTag_zero_flag: "fst (PushTag B (z, bs)) = (z \<or> isZero B)"
proof (cases "1 \<le> getGrade B")
  case True
  then show ?thesis using PushTag_factorize grade_nonzero by simp
qed (auto simp: PushTag.simps [of B])

lemma PushTags_zero_flag:
  "fst (fold PushTag Bs (z, bs)) = (z \<or> list_ex isZero Bs)"
proof (induction Bs arbitrary: z bs)
  case (Cons B Bs)
  obtain z' bs' where p: "PushTag B (z, bs) = (z', bs')" by (cases "PushTag B (z, bs)")
  then have "z' = (z \<or> isZero B)" using PushTag_zero_flag [of B z bs] by simp
  with Cons [of z' bs'] p show ?case by simp
qed simp

lemma PushTags_create:
  assumes "list_all (\<lambda>ns. set ns \<subseteq> {..<31} \<and> distinct ns) nss"
  shows "\<exists>ms. fold PushTag (map (\<lambda>ns. create (map basis ns)) nss) (z, bs) = (z, bs @ map basis ms)
    \<and> same_order (concat nss) ms"
  using assms
proof (induction nss arbitrary: bs)
  case Nil
  show ?case by (intro exI [of _ "[]"]) (simp add: same_order_def)
next
  case (Cons ns nss)
  then obtain ms where ms: "PushTag (create (map basis ns)) (z, bs) = (z, bs @ map basis ms)"
    "same_order ns ms" using PushTag_create [of ns z bs] by auto
  obtain ms' where "fold PushTag (map (\<lambda>ns. create (map basis ns)) nss) (z, bs @ map basis ms)
      = (z, (bs @ map basis ms) @ map basis ms')" "same_order (concat nss) ms'"
    using Cons.IH [of "bs @ map basis ms"] Cons.prems by auto
  with ms show ?case using same_order_append [of ns ms "concat nss" ms']
    by (intro exI [of _ "ms @ ms'"]) simp
qed

lemma basis_lists:
  assumes "list_all (list_all is_basis) xss"
  obtains nss where "xss = map (map basis) nss" "list_all (\<lambda>ns. set ns \<subseteq> {..<31}) nss"
proof -
  have "\<exists>nss. xss = map (map basis) nss \<and> list_all (\<lambda>ns. set ns \<subseteq> {..<31}) nss"
    using assms
  proof (induction xss)
    case (Cons xs xss)
    then obtain nss where "xss = map (map basis) nss" "list_all (\<lambda>ns. set ns \<subseteq> {..<31}) nss" by auto
    moreover obtain ns where "xs = map basis ns" "set ns \<subseteq> {..<31}"
      using Cons.prems basis_list [of xs] by auto
    ultimately show ?case by (intro exI [of _ "ns # nss"]) simp
  qed simp
  then show ?thesis using that by blast
qed

text \<open>
  C27: The type of a product of blades is the type of the product of all their basis vectors:
  the zero type exactly when a basis vector is repeated, within a blade or between blades, and
  otherwise the blade with the grade and the ordering sign of the whole sequence of vectors.
\<close>
theorem createBladeType_wedge:
  assumes "xss \<noteq> []" and "list_all (list_all is_basis) xss"
  shows "createBladeType (map create xss)
    = Inr (if distinct (concat xss) then BladeType (create (concat xss)) else ZeroType)"
proof -
  obtain nss where nss: "xss = map (map basis) nss" "list_all (\<lambda>ns. set ns \<subseteq> {..<31}) nss"
    using assms(2) by (rule basis_lists)
  have sub: "set (concat nss) \<subseteq> {..<31}" using nss(2) by (auto simp: list_all_iff)
  have c: "concat xss = map basis (concat nss)" by (simp add: nss(1) map_concat)
  have d: "distinct (concat xss) \<longleftrightarrow> distinct (concat nss)" unfolding c using sub by (rule distinct_basis)
  have m: "map create xss = map (\<lambda>ns. create (map basis ns)) nss" by (simp add: nss(1))
  obtain z bs where f: "fold PushTag (map create xss) (False, []) = (z, bs)"
    by (cases "fold PushTag (map create xss) (False, [])")
  then have z: "z \<longleftrightarrow> list_ex isZero (map create xss)"
    using PushTags_zero_flag [of "map create xss" False "[]"] by simp
  show ?thesis
  proof (cases "list_all distinct nss")
    case True
    then have "list_all (\<lambda>ns. set ns \<subseteq> {..<31} \<and> distinct ns) nss"
      using nss(2) by (simp add: list_all_iff)
    then obtain ms where "z = False" "bs = map basis ms" "same_order (concat nss) ms"
      using PushTags_create [of nss False "[]"] f m by auto
    then have "createBladeType (map create xss)
        = Inr (if isZero (create (concat xss)) then ZeroType else BladeType (create (concat xss)))"
      using same_order_create [OF _ sub] assms(1) f by (simp add: createBladeType_def c)
    moreover have "isZero (create (concat xss)) \<longleftrightarrow> \<not> distinct (concat xss)"
      using create_nonzero [OF sub] create_dup [OF sub] d c by (auto simp: isZero_def createZero_def)
    ultimately show ?thesis by simp
  next
    case False
    then obtain ns where ns: "ns \<in> set nss" "\<not> distinct ns" by (auto simp: list_all_iff)
    then have "create (map basis ns) = createZero"
      using nss(2) by (intro create_dup) (auto simp: list_all_iff)
    then have "list_ex isZero (map create xss)"
      using ns(1) by (auto simp: list_ex_iff nss(1) isZero_def createZero_def intro!: bexI [of _ ns])
    moreover have "\<not> distinct (concat nss)" using ns distinct_concat_iff by blast
    ultimately show ?thesis using f z assms(1) d by (simp add: createBladeType_def)
  qed
qed

theorem createBladeType_wedge_witness:
  "createBladeType (map create [[basis 1], [basis 0]]) = Inr (BladeType (create [basis 1, basis 0]))"
  using createBladeType_wedge [of "[[basis 1], [basis 0]]"] basis_inj [of 1 0] by simp

end
