(* ===== verification/Narrowing.thy ===== *)
theory Narrowing
  imports GeoType
begin

text \<open>
  What the types of the geometric algebra promise of their values, and that
  \<open>isValidNarrowing\<close> (\<open>geomalg/lib/Geomalg/Type.cpp\<close>) refines the promise: the range test
  \<open>includes\<close> is inclusion of multisets, narrowing is a preorder, and a narrowed type has no value
  that the type it replaces does not have.
\<close>

section \<open>The range test\<close>

lemma subset_add_mset_notin: "A \<subseteq># add_mset x B \<Longrightarrow> x \<notin># A \<Longrightarrow> A \<subseteq># B"
  by (metis diff_single_trivial diff_subset_eq_self subset_eq_diff_conv add_mset_diff_bothsides
      add_mset_add_single)

lemma includes_range_mset:
  "sorted xs \<Longrightarrow> sorted ys \<Longrightarrow> includes_range xs ys \<longleftrightarrow> mset ys \<subseteq># mset xs"
proof (induction xs ys rule: includes_range.induct)
  case (3 x xs y ys)
  consider "y < x" | "x < y" | "x = y" by (metis linorder_less_linear)
  then show ?case
  proof cases
    case 1
    have "y \<notin># mset (x # xs)" using 1 3(3) by auto
    then show ?thesis using 1 by (auto dest: mset_subset_eqD)
  next
    case 2
    have "x \<notin># mset (y # ys)" using 2 3(4) by auto
    then have "mset (y # ys) \<subseteq># mset (x # xs) \<longleftrightarrow> mset (y # ys) \<subseteq># mset xs"
      using subset_add_mset_notin [of "mset (y # ys)" x "mset xs"]
        subset_mset.order_trans [OF _ mset_subset_eq_add_left [of "mset xs" "{#x#}"]]
      by auto
    then show ?thesis using 2 3 by auto
  next
    case 3
    then show ?thesis using "3.IH" "3.prems" by simp
  qed
qed simp_all

lemma includes_sort: "includes_range (sort xs) (sort ys) \<longleftrightarrow> mset ys \<subseteq># mset xs"
  by (simp add: includes_range_mset)

section \<open>The semantics of a type\<close>

text \<open>
  A value is its coefficient at every canonical blade. A blade has one coefficient, a sum of
  blades those of its blades, a versor is a product of values of its factors, and a type that is
  not known has any value. The geometric product \<open>gp\<close> is a parameter.
\<close>

type_synonym 'a mv = "u32 \<Rightarrow> 'a"

definition supported :: "blade_tag list \<Rightarrow> ('a::zero) mv set" where
  "supported Bs = {v. \<forall>t. v t \<noteq> 0 \<longrightarrow> t \<in> getCanonicalTag ` set Bs}"

fun products :: "('v \<Rightarrow> 'v \<Rightarrow> 'v) \<Rightarrow> 'v set list \<Rightarrow> 'v set" where
  "products gp [] = {}"
| "products gp [S] = S"
| "products gp (S # T # Ss) = {gp u v |u v. u \<in> S \<and> v \<in> products gp (T # Ss)}"

primrec den :: "('a mv \<Rightarrow> 'a mv \<Rightarrow> 'a mv) \<Rightarrow> geo_type \<Rightarrow> ('a::zero) mv set" where
  "den gp UnknownType = UNIV"
| "den gp ZeroType = supported []"
| "den gp (BladeType B) = supported [B]"
| "den gp (MultivectorType Bs) = supported Bs"
| "den gp (UnitVectorType Bs) = supported Bs"
| "den gp (UnitMultivectorType Bs) = supported Bs"
| "den gp (VersorType Fs) = products gp (map (den gp) Fs)"
| "den gp (OtherType p n) = UNIV"

lemma supported_mono: "set As \<subseteq> set Bs \<Longrightarrow> supported As \<subseteq> supported Bs"
  unfolding supported_def by blast

lemma zero_supported: "(\<lambda>t. 0) \<in> supported Bs"
  by (simp add: supported_def)

lemma supported_Nil: "supported [] = {\<lambda>t. 0}"
  by (auto simp: supported_def)

lemma products_mono:
  "list_all2 (\<subseteq>) Ss Ts \<Longrightarrow> products gp Ss \<subseteq> products gp Ts"
proof (induction gp Ss arbitrary: Ts rule: products.induct)
  case (3 gp S T Ss)
  then obtain S' T' Ts' where t: "Ts = S' # T' # Ts'" "S \<subseteq> S'" "list_all2 (\<subseteq>) (T # Ss) (T' # Ts')"
    by (auto simp: list_all2_Cons1)
  have "products gp (T # Ss) \<subseteq> products gp (T' # Ts')" using "3.IH" t(3) .
  then show ?case unfolding t(1) products.simps using t(2) by blast
qed (auto simp: list_all2_Cons1)

lemma products_zero:
  assumes "gp z z = z" and "Ss \<noteq> []" and "\<And>S. S \<in> set Ss \<Longrightarrow> z \<in> S"
  shows "z \<in> products gp Ss"
  using assms
proof (induction gp Ss rule: products.induct)
  case (3 gp S T Ss)
  have "z \<in> products gp (T # Ss)" using 3 by simp
  moreover have "z \<in> S" using "3.prems" by simp
  ultimately show ?case unfolding products.simps mem_Collect_eq
    using "3.prems"(1) by (intro exI [of _ z]) simp
qed simp_all

lemma vector_zero: "isVector T \<Longrightarrow> (\<lambda>t. 0) \<in> den gp T"
  by (cases T) (simp_all add: zero_supported)

lemma known_zero:
  assumes "gp (\<lambda>t. 0) (\<lambda>t. 0) = (\<lambda>t. 0)" and "verified A"
  shows "(\<lambda>t. 0) \<in> den gp A"
proof (cases A)
  case (VersorType Fs)
  then have "Fs \<noteq> []" "\<And>F. F \<in> set Fs \<Longrightarrow> isVector F"
    using assms(2) by (auto simp: Versor_verify_def list_all_iff)
  then show ?thesis 
    using products_zero [where gp = gp and z = "\<lambda>t. 0" and Ss = "map (den gp) Fs"] assms(1) vector_zero VersorType
    by auto
qed (simp_all add: zero_supported)

lemma den_blades: "getBlades T = Some Bs \<Longrightarrow> den gp T = supported Bs"
  by (cases T) simp_all

lemma as_blade_iff: "as_blade T = Some B \<longleftrightarrow> T = BladeType B"
  by (cases T) simp_all

text \<open>The cases of a narrowing.\<close>

lemma narrowing_cases:
  assumes "isValidNarrowing A B"
  obtains (refl) "A = B" | (unknown) "isUnknown A"
    | (versor) FA FB where "A = VersorType FA" "B = VersorType FB" "list_all2 isValidNarrowing FA FB"
    | (blade) Bs T where "getBlades A = Some Bs" "B = BladeType T" "T \<in> set Bs"
    | (sum) As Bs where "getBlades A = Some As" "getBlades B = Some Bs" "mset Bs \<subseteq># mset As"
        "isUnitary B \<or> same_class A B"
    | (zero) "known_semantics A" "B = ZeroType"
proof -
  have "(A = B \<or> isUnknown A)
    \<or> (\<exists>FA FB. A = VersorType FA \<and> B = VersorType FB \<and> list_all2 isValidNarrowing FA FB)
    \<or> (\<exists>Bs T. getBlades A = Some Bs \<and> B = BladeType T \<and> T \<in> set Bs)
    \<or> (\<exists>As Bs. getBlades A = Some As \<and> getBlades B = Some Bs \<and> mset Bs \<subseteq># mset As
        \<and> (isUnitary B \<or> same_class A B))
    \<or> (known_semantics A \<and> B = ZeroType)"
    using assms
    by (subst (asm) isValidNarrowing.simps, cases A; cases B)
      (simp_all add: includes_sort isZeroType_def list_all2_conv_all_nth list_all_length split: if_splits)
  then show ?thesis using refl unknown versor blade sum zero by (elim disjE exE conjE) blast+
qed

lemma narrowing_intros:
  "isValidNarrowing A A"
  "isUnknown A \<Longrightarrow> isValidNarrowing A B"
  "list_all2 isValidNarrowing FA FB \<Longrightarrow> isValidNarrowing (VersorType FA) (VersorType FB)"
  "getBlades A = Some Bs \<Longrightarrow> T \<in> set Bs \<Longrightarrow> isValidNarrowing A (BladeType T)"
  "getBlades A = Some As \<Longrightarrow> getBlades B = Some Bs \<Longrightarrow> mset Bs \<subseteq># mset As \<Longrightarrow>
    isUnitary B \<or> same_class A B \<Longrightarrow> isValidNarrowing A B"
  "known_semantics A \<Longrightarrow> isValidNarrowing A ZeroType"
proof -
  show "isValidNarrowing A A" "isUnknown A \<Longrightarrow> isValidNarrowing A B"
    by (subst isValidNarrowing.simps, simp)+
  show "list_all2 isValidNarrowing FA FB \<Longrightarrow> isValidNarrowing (VersorType FA) (VersorType FB)"
    by (subst isValidNarrowing.simps) (auto simp: list_all2_conv_all_nth list_all_length)
  show "getBlades A = Some Bs \<Longrightarrow> T \<in> set Bs \<Longrightarrow> isValidNarrowing A (BladeType T)"
    by (subst isValidNarrowing.simps, cases A) simp_all
  show "getBlades A = Some As \<Longrightarrow> getBlades B = Some Bs \<Longrightarrow> mset Bs \<subseteq># mset As \<Longrightarrow>
      isUnitary B \<or> same_class A B \<Longrightarrow> isValidNarrowing A B"
    by (subst isValidNarrowing.simps, cases A; cases B) (simp_all add: includes_sort)
  show "known_semantics A \<Longrightarrow> isValidNarrowing A ZeroType"
    by (subst isValidNarrowing.simps, cases A) (simp_all add: isZeroType_def)
qed

lemma known_blades: "getBlades A \<noteq> None \<Longrightarrow> known_semantics A \<and> \<not> isUnknown A"
  by (cases A) (simp_all add: isUnknown_def)

lemma same_class_trans: "same_class A B \<Longrightarrow> same_class B C \<Longrightarrow> same_class A C"
  by (cases A; cases B; cases C) simp_all

lemma same_class_unitary: "same_class A B \<Longrightarrow> isUnitary A = isUnitary B"
  by (cases A; cases B) simp_all

lemma narrowing_trans:
  "isValidNarrowing A B \<Longrightarrow> isValidNarrowing B C \<Longrightarrow> isValidNarrowing A C"
proof (induction A arbitrary: B C rule: measure_induct_rule [of size])
  case (less A)
  from less.prems(1) show ?case
  proof (cases rule: narrowing_cases)
    case (versor FA FB)
    from less.prems(2) show ?thesis
    proof (cases rule: narrowing_cases)
      case (versor FB' FC)
      have "isValidNarrowing (FA ! i) (FC ! i)" if "i < length FA" for i
      proof (rule less.IH)
        have "FA ! i \<in> set FA" using that by simp
        then show "size (FA ! i) < size A"
          using \<open>A = VersorType FA\<close> size_list_estimation' [of "FA ! i" FA "size (FA ! i)" size]
          by simp
        show "isValidNarrowing (FA ! i) (FB ! i)" "isValidNarrowing (FB ! i) (FC ! i)"
          using versor \<open>list_all2 isValidNarrowing FA FB\<close> \<open>B = VersorType FB\<close> that
          by (simp_all add: list_all2_conv_all_nth)
      qed
      then show ?thesis
        using versor \<open>list_all2 isValidNarrowing FA FB\<close> \<open>A = VersorType FA\<close> \<open>B = VersorType FB\<close>
        by (auto intro!: narrowing_intros simp: list_all2_conv_all_nth)
    qed (use versor less.prems in \<open>auto simp: isUnknown_def intro: narrowing_intros\<close>)
  next
    case (sum As Bs)
    from less.prems(2) show ?thesis
    proof (cases rule: narrowing_cases)
      case (sum Bs' Cs)
      then have "mset Cs \<subseteq># mset As"
        using \<open>getBlades B = Some Bs\<close> \<open>mset Bs \<subseteq># mset As\<close> by (auto elim: subset_mset.order_trans)
      then show ?thesis
        using sum \<open>getBlades A = Some As\<close> \<open>getBlades B = Some Bs\<close> \<open>mset Bs \<subseteq># mset As\<close>
          \<open>isUnitary B \<or> same_class A B\<close> same_class_trans [of A B C] same_class_unitary [of B C]
        by (intro narrowing_intros(5) [where As = As and Bs = Cs]) auto
    next
      case (blade Bs' T)
      then have "T \<in> set As"
        using \<open>getBlades B = Some Bs\<close> set_mset_mono [OF \<open>mset Bs \<subseteq># mset As\<close>] by auto
      then show ?thesis using \<open>getBlades A = Some As\<close> blade by (simp add: narrowing_intros)
    next
      case zero
      then show ?thesis using \<open>getBlades A = Some As\<close> known_blades [of A]
        by (simp add: narrowing_intros)
    qed (use sum less.prems known_blades [of B] in auto)
  next
    case (blade Bs T)
    then show ?thesis using less.prems(2) known_blades [of A]
      by (elim narrowing_cases) (auto simp: isUnknown_def intro: narrowing_intros)
  next
    case zero
    then show ?thesis using less.prems(2)
      by (elim narrowing_cases) (auto simp: isUnknown_def intro: narrowing_intros)
  next
    case refl
    then show ?thesis using less.prems(2) by simp
  next
    case unknown
    then show ?thesis by (rule narrowing_intros)
  qed
qed

section \<open>Narrowing refines the semantics\<close>

lemma unknown_den: "isUnknown A \<Longrightarrow> den gp A = UNIV"
  by (cases A) (simp_all add: isUnknown_def)

lemma narrowing_den:
  assumes "gp (\<lambda>t. 0) (\<lambda>t. 0) = (\<lambda>t. 0)"
  shows "isValidNarrowing A B \<Longrightarrow> verified A \<Longrightarrow> den gp B \<subseteq> den gp A"
proof (induction A arbitrary: B rule: measure_induct_rule [of size])
  case (less A)
  from less.prems(1) show ?case
  proof (cases rule: narrowing_cases)
    case (versor FA FB)
    have "den gp (FB ! i) \<subseteq> den gp (FA ! i)" if "i < length FA" for i
    proof (rule less.IH)
      have "FA ! i \<in> set FA" using that by simp
      then show "size (FA ! i) < size A"
        using versor(1) size_list_estimation' [of "FA ! i" FA "size (FA ! i)" size] by simp
      show "isValidNarrowing (FA ! i) (FB ! i)" using versor(3) that by (simp add: list_all2_conv_all_nth)
      show "verified (FA ! i)" using less.prems(2) versor(1) that by (simp add: list_all_length)
    qed
    then have "list_all2 (\<subseteq>) (map (den gp) FB) (map (den gp) FA)"
      using versor(3) by (simp add: list_all2_conv_all_nth)
    then show ?thesis using versor products_mono by simp
  next
    case zero
    then show ?thesis using known_zero [where gp = gp, OF assms less.prems(2)] by (simp add: supported_Nil)
  next
    case (sum As Bs)
    then show ?thesis by (simp add: den_blades supported_mono set_mset_mono flip: set_mset_mset)
  next
    case (blade Bs T)
    then show ?thesis by (simp add: den_blades supported_mono)
  qed (simp_all add: unknown_den)
qed

lemma narrowing_unitary:
  assumes "isValidNarrowing A B" and "isUnitary A" and "getBlades B = Some Bs"
  shows "isUnitary B"
  using assms(1)
proof (cases rule: narrowing_cases)
  case unknown
  then show ?thesis using assms(2) by (cases A) (simp_all add: isUnknown_def)
next
  case (sum As Bs)
  then show ?thesis using assms(2) same_class_unitary by blast
qed (use assms in auto)



text \<open>
  The comment at the function says that the values of the new type are among those of the old
  one. That a value is a unit is not kept by a narrowing to a blade or to zero.
\<close>

theorem narrowing_unit_to_zero:
  "isValidNarrowing (UnitVectorType [BladeTag 1, BladeTag 2]) ZeroType"
  by (simp add: narrowing_intros)

text \<open>
  Narrowing is a preorder of types, so a sequence of rewrites that narrow is a narrowing.
\<close>
theorem narrowing_preorder:
  "reflp isValidNarrowing \<and> transp isValidNarrowing"
  by (auto intro!: reflpI transpI narrowing_intros(1) dest: narrowing_trans)

end
