(* ===== verification/GeoInfer.thy ===== *)
theory GeoInfer
  imports Narrowing
begin

text \<open>
  Inference and verification of the operations of the geometric algebra dialect
  (\<open>geomalg/lib/Geomalg/Dialect.cpp\<close>): the types of the results from the types of the operands,
  and what the verifiers accept. Inference returns verified types for verified operands, and the
  sum of values has the type that is inferred for it.
\<close>

section \<open>Inference of the result types\<close>

text \<open>
  A run returns the inferred types or fails (\<open>None\<close>). The access to an operand that is not there
  is a failed assertion.
\<close>

type_synonym inferred = "geo_type list option result"

definition ReverseOp_infer :: "geo_type list \<Rightarrow> inferred" where
  "ReverseOp_infer Operands = check (Operands \<noteq> [])
     (case hd Operands of
        VersorType Factors \<Rightarrow> Inr (Some [VersorType (rev Factors)])
      | _ \<Rightarrow> Inr (Some Operands))"

definition NegateOp_infer :: "geo_type list \<Rightarrow> inferred" where
  "NegateOp_infer Operands = Inr (Some Operands)"

definition GradeInvoOp_infer :: "geo_type list \<Rightarrow> inferred" where
  "GradeInvoOp_infer Operands = Inr (Some Operands)"

text \<open>
  The loop of the sum over its operands: it stops at an operand of unknown type, at a sum of
  blades or a versor, and at a type that is not a type of values.
\<close>

datatype sum_scan = SumUnknown | SumInvalid | SumBlades "blade_tag list"

fun sum_operands :: "geo_type list \<Rightarrow> blade_tag list \<Rightarrow> sum_scan" where
  "sum_operands [] BladeTypes = SumBlades BladeTypes"
| "sum_operands (T # Ts) BladeTypes =
     (if isUnknown T \<or> getBlades T \<noteq> None \<or> (case T of VersorType _ \<Rightarrow> True | _ \<Rightarrow> False)
      then SumUnknown
      else if T = ZeroType then sum_operands Ts BladeTypes
      else case as_blade T of
          Some BT \<Rightarrow> sum_operands Ts (BladeTypes @ [BT])
        | None \<Rightarrow> SumInvalid)"

definition SumOp_infer :: "bool \<Rightarrow> geo_type list \<Rightarrow> inferred" where
  "SumOp_infer IsUnitary Operands =
     (case sum_operands Operands [] of
        SumUnknown \<Rightarrow> Inr (Some [UnknownType])
      | SumInvalid \<Rightarrow> Inr None
      | SumBlades BladeTypes \<Rightarrow>
          andThen
            (if BladeTypes = [] then Inr ZeroType
             else if list_all (\<lambda>BT. BT = hd BladeTypes) BladeTypes then Inr (BladeType (hd BladeTypes))
             else if IsUnitary then createUnitType BladeTypes
             else createMultivectorLikeType MultivectorType BladeTypes)
            (\<lambda>ResultT. Inr (Some [ResultT])))"

definition ExpandOp_infer :: "geo_type list \<Rightarrow> inferred" where
  "ExpandOp_infer Operands = check (Operands \<noteq> [])
     (case hd Operands of
        VersorType _ \<Rightarrow> Inr None
      | ArgT \<Rightarrow> (case getBlades ArgT of
            None \<Rightarrow> Inr (Some [ArgT])
          | Some Bs \<Rightarrow> Inr (Some (map BladeType Bs))))"

definition OuterProdOp_infer :: "geo_type list \<Rightarrow> inferred" where
  "OuterProdOp_infer Operands =
     (case Operands of
        [A, B] \<Rightarrow> andThen (inferOuterProdResult A B) (\<lambda>ResultT. Inr (Some [ResultT]))
      | _ \<Rightarrow> Inr None)"

definition OSwapOp_infer :: "geo_type list \<Rightarrow> inferred" where
  "OSwapOp_infer Operands =
     (case Operands of
        [BladeType BT] \<Rightarrow> Inr (Some [BladeType (oswap BT)])
      | _ \<Rightarrow> Inr None)"

definition InverseOp_infer :: "geo_type list \<Rightarrow> inferred" where
  "InverseOp_infer Operands =
     (case Operands of
        [T] \<Rightarrow> (case as_blade T of
            Some BT \<Rightarrow> if getGrade BT \<le> 1 then Inr (Some [T]) else Inr (Some [UnknownType])
          | None \<Rightarrow> Inr (Some [UnknownType]))
      | _ \<Rightarrow> Inr None)"

definition InnerProdOp_infer :: "geo_type list \<Rightarrow> inferred" where
  "InnerProdOp_infer Operands = check (2 \<le> length Operands)
     (let TA = Operands ! 0; TB = Operands ! 1
      in Inr (Some [case (as_blade TA, as_blade TB) of
           (Some A, Some B) \<Rightarrow>
             if getGrade A = 0 then BladeType B
             else if getGrade B = 0 then ZeroType
             else if getGrade A = 1 \<and> getGrade B = 1 then BladeType (BladeTag 0)
             else UnknownType
         | _ \<Rightarrow> if isZeroType TA \<or> isZeroType TB then ZeroType else UnknownType]))"

text \<open>
  The loop of the matrix operation over the types that its regions return; \<open>None\<close> stands for an
  empty region. The result is \<open>None\<close> when a type is unknown.
\<close>

fun matvec_blades :: "geo_type option list \<Rightarrow> blade_tag list \<Rightarrow> blade_tag list option result" where
  "matvec_blades [] BladeTypes = Inr (Some BladeTypes)"
| "matvec_blades (None # Rs) BladeTypes = Inr None"
| "matvec_blades (Some T # Rs) BladeTypes =
     (if isUnknown T then Inr None
      else case getBlades T of
          Some Bs \<Rightarrow> matvec_blades Rs (BladeTypes @ Bs)
        | None \<Rightarrow> (case as_blade T of
            Some BT \<Rightarrow> matvec_blades Rs (BladeTypes @ [BT])
          | None \<Rightarrow> check (isZeroType T) (matvec_blades Rs BladeTypes)))"

definition MatvecOp_infer :: "geo_type option list \<Rightarrow> inferred" where
  "MatvecOp_infer Regions = andThen (matvec_blades Regions [])
     (\<lambda>r. case r of
        None \<Rightarrow> Inr (Some [UnknownType])
      | Some BladeTypes \<Rightarrow>
          andThen
            (if BladeTypes = [] then Inr ZeroType
             else createMultivectorLikeType MultivectorType BladeTypes)
            (\<lambda>Result. Inr (Some [Result])))"

text \<open>
  The loop of the versor over its operands, with the factors so far and the result when there is
  one already; a zero ends it.
\<close>

fun versor_factors :: "geo_type list \<Rightarrow> geo_type list \<Rightarrow> geo_type option \<Rightarrow> geo_type list \<times> geo_type option" where
  "versor_factors [] Factors Result = (Factors, Result)"
| "versor_factors (T # Ts) Factors Result =
     (if isZeroType T then (Factors, Some ZeroType)
      else case T of
          VersorType Fs \<Rightarrow> versor_factors Ts (Factors @ Fs) Result
        | _ \<Rightarrow> if isVector T then versor_factors Ts (Factors @ [T]) Result
               else versor_factors Ts Factors (Some UnknownType))"

definition VersorOp_infer :: "geo_type list \<Rightarrow> inferred" where
  "VersorOp_infer Operands =
     (case versor_factors Operands [] None of
        (_, Some Result) \<Rightarrow> Inr (Some [Result])
      | (Factors, None) \<Rightarrow>
          Inr (Some [if Factors = [] then UnknownType else VersorType Factors]))"

definition FactorsOp_infer :: "geo_type list \<Rightarrow> inferred" where
  "FactorsOp_infer Operands = check (Operands \<noteq> [])
     (case hd Operands of
        VersorType Fs \<Rightarrow> Inr (Some Fs)
      | _ \<Rightarrow> Inr None)"

text \<open>The operations with inference, and the dispatch of \<open>inferReturnTypes\<close> on them.\<close>

datatype geo_op = ReverseOp | NegateOp | GradeInvoOp | SumOp bool | ExpandOp | OuterProdOp
  | OSwapOp | InverseOp | InnerProdOp | MatvecOp "geo_type option list" | VersorOp | FactorsOp

fun inferReturnTypes :: "geo_op \<Rightarrow> geo_type list \<Rightarrow> inferred" where
  "inferReturnTypes ReverseOp Ts = ReverseOp_infer Ts"
| "inferReturnTypes NegateOp Ts = NegateOp_infer Ts"
| "inferReturnTypes GradeInvoOp Ts = GradeInvoOp_infer Ts"
| "inferReturnTypes (SumOp u) Ts = SumOp_infer u Ts"
| "inferReturnTypes ExpandOp Ts = ExpandOp_infer Ts"
| "inferReturnTypes OuterProdOp Ts = OuterProdOp_infer Ts"
| "inferReturnTypes OSwapOp Ts = OSwapOp_infer Ts"
| "inferReturnTypes InverseOp Ts = InverseOp_infer Ts"
| "inferReturnTypes InnerProdOp Ts = InnerProdOp_infer Ts"
| "inferReturnTypes (MatvecOp Rs) Ts = MatvecOp_infer Rs"
| "inferReturnTypes VersorOp Ts = VersorOp_infer Ts"
| "inferReturnTypes FactorsOp Ts = FactorsOp_infer Ts"

text \<open>Inferred types must be narrowings of the types that the operation declares.\<close>

definition isCompatibleReturnTypes :: "geo_type list \<Rightarrow> geo_type list \<Rightarrow> bool" where
  "isCompatibleReturnTypes Ls Rs \<longleftrightarrow>
     length Ls = length Rs \<and> list_all (\<lambda>(L, R). isValidNarrowing R L) (zip Ls Rs)"

section \<open>Verification of operations\<close>

text \<open>The outcome is the message of the error, or \<open>None\<close>.\<close>

definition InverseOp_verify :: "geo_type \<Rightarrow> string option" where
  "InverseOp_verify ArgT = (if hasSupportedInverse ArgT then None
     else Some ''expecting a blade, 1-vector, versor, or even multivector operand'')"

definition ConvertOp_verify :: "geo_type \<Rightarrow> geo_type \<Rightarrow> bool" where
  "ConvertOp_verify ArgT ResultT \<longleftrightarrow> hasSupportedConversion ArgT ResultT"

definition VersorOp_verify :: "geo_type list \<Rightarrow> string option" where
  "VersorOp_verify Factors = (if Factors = [] then Some ''expecting at least one factor'' else None)"

definition NoTag :: u32 where "NoTag = 8"
definition NiTag :: u32 where "NiTag = 16"

fun verify_motor_blades :: "bool \<Rightarrow> blade_tag list \<Rightarrow> string option" where
  "verify_motor_blades BivectorOnly [] = None"
| "verify_motor_blades BivectorOnly (BT # Bs) =
     (let Grade = getGrade BT
      in if (if BivectorOnly then Grade \<noteq> 2 else Grade mod 2 \<noteq> 0)
         then Some (if BivectorOnly then ''expecting a bivector operand'' else ''expecting an even operand'')
         else if getTag (getCanonical BT) AND NoTag \<noteq> 0
         then Some ''expecting an operand without the origin''
         else verify_motor_blades BivectorOnly Bs)"

definition verifyMotorBlades :: "geo_type \<Rightarrow> bool \<Rightarrow> string option" where
  "verifyMotorBlades ArgT BivectorOnly =
     (if isUnknown ArgT \<or> isZeroType ArgT then None
      else case ArgT of
          VersorType Fs \<Rightarrow>
            if BivectorOnly \<or> length Fs mod 2 \<noteq> 0 then Some ''expecting an even versor operand'' else None
        | _ \<Rightarrow>
            if as_blade ArgT = None \<and> getBlades ArgT = None
            then Some ''expecting a blade or multivector operand''
            else verify_motor_blades BivectorOnly (getBladeTypes ArgT))"

definition ExpOp_verify :: "geo_type \<Rightarrow> string option" where
  "ExpOp_verify ArgT = verifyMotorBlades ArgT True"

definition LogOp_verify :: "geo_type \<Rightarrow> string option" where
  "LogOp_verify ArgT = verifyMotorBlades ArgT False"

definition NormalizeOp_verify :: "geo_type \<Rightarrow> string option" where
  "NormalizeOp_verify ArgT = verifyMotorBlades ArgT False"

definition InterpOp_verify :: "geo_type \<Rightarrow> geo_type \<Rightarrow> string option" where
  "InterpOp_verify V1 V2 = (case verifyMotorBlades V1 False of
       Some e \<Rightarrow> Some e
     | None \<Rightarrow> verifyMotorBlades V2 False)"

section \<open>Inferred types are verified\<close>

lemma check_Inr_iff: "check b m = Inr x \<longleftrightarrow> b \<and> m = Inr x"
  by simp

lemma verified_as_blade: "as_blade T = Some B \<Longrightarrow> verified T \<Longrightarrow> blade_ok B"
  by (cases T) simp_all

lemma verified_blades: "getBlades T = Some Bs \<Longrightarrow> verified T \<Longrightarrow> list_all blade_ok Bs"
  by (cases T) simp_all

lemma createMultivectorLikeType_result:
  "createMultivectorLikeType T Bs = Inr R \<Longrightarrow>
    (\<exists>B. R = BladeType B \<and> set Bs = {B}) \<or> R = T (remdups_adj (sort Bs))"
proof -
  assume r: "createMultivectorLikeType T Bs = Inr R"
  show ?thesis
  proof (cases "length (remdups_adj (sort Bs)) = 1")
    case True
    then obtain B where b: "remdups_adj (sort Bs) = [B]" by (auto simp: length_Suc_conv)
    then have "set Bs = {B}" by (metis list.set(1) list.set(2) remdups_adj_set set_sort)
    then show ?thesis using r b by (auto simp: createMultivectorLikeType_def)
  qed (use r in \<open>auto simp: createMultivectorLikeType_def Let_def\<close>)
qed

lemma createMultivectorLikeType_verified:
  "createMultivectorLikeType MultivectorType Bs = Inr R \<Longrightarrow> list_all blade_ok Bs \<Longrightarrow> verified R"
  by (drule createMultivectorLikeType_result) (auto simp: list_all_iff)

lemma createUnitType_verified:
  "createUnitType Bs = Inr R \<Longrightarrow> list_all blade_ok Bs \<Longrightarrow> verified R"
  unfolding createUnitType_def
  by (auto split: if_splits dest!: createMultivectorLikeType_result
      simp: list_all_iff UnitVector_verify_def UnitMultivector_verify_def)

lemma factorize_is_basis:
  assumes "1 \<le> getGrade B" and "blade_ok B"
  shows "list_all is_basis (factorize B)"
proof -
  obtain ns where ns: "factorize B = map basis ns" "set ns = vectors B"
    using factorize_basis [OF assms] by blast
  have "set ns \<subseteq> {..<31}" unfolding ns(2) by (rule vectors_props)
  then show ?thesis unfolding ns(1) by (auto simp: list_all_iff is_basis_iff)
qed

lemma basis_of_blades:
  assumes "list_all blade_ok Bs" and "fold PushTag Bs (False, []) = (False, bs)"
  shows "list_all is_basis bs"
proof -
  have "list_all is_basis (snd (fold PushTag Bs (z, bs0)))"
    if "list_all blade_ok Bs" "list_all is_basis bs0" for z bs0
    using that
  proof (induction Bs arbitrary: z bs0)
    case (Cons B Bs)
    show ?case
    proof (cases "1 \<le> getGrade B")
      case True
      then have "list_all is_basis (factorize B)" using Cons.prems(1) by (simp add: factorize_is_basis)
      then show ?thesis using Cons PushTag_factorize [OF \<open>1 \<le> getGrade B\<close>] by simp
    next
      case False
      then have "snd (PushTag B (z, bs0)) = bs0" by (simp add: PushTag.simps [of B])
      then show ?thesis using Cons.IH [of bs0 "fst (PushTag B (z, bs0))"] Cons.prems
        by (cases "PushTag B (z, bs0)") simp
    qed
  qed simp
  from this [of "[]" False] assms show ?thesis by simp
qed

lemma create_blade_ok:
  assumes "list_all is_basis bs"
  shows "blade_ok (create bs)"
proof -
  obtain ns where ns: "bs = map basis ns" "set ns \<subseteq> {..<31}" using assms by (rule basis_list)
  show ?thesis
  proof (cases "distinct ns")
    case True
    have "isCanonical (create bs)" if "length ns = 1"
      using that create_distinct [OF ns(2) True] ns by (cases ns) (auto simp: isCanonical_iff)
    then show ?thesis using create_grade [OF ns(2) True] ns(1) by (simp add: blade_ok_iff)
  next
    case False
    then show ?thesis using create_dup [OF ns(2)] ns(1) by (simp add: blade_ok_iff grade_card createZero_def)
  qed
qed

lemma createBladeType_verified:
  "createBladeType Bs = Inr R \<Longrightarrow> list_all blade_ok Bs \<Longrightarrow> verified R"
proof -
  assume r: "createBladeType Bs = Inr R" and ok: "list_all blade_ok Bs"
  obtain z bs where f: "fold PushTag Bs (False, []) = (z, bs)" by (cases "fold PushTag Bs (False, [])")
  show ?thesis
  proof (cases z)
    case True
    then show ?thesis using r f by (simp add: createBladeType_def)
  next
    case False
    with f have "fold PushTag Bs (False, []) = (False, bs)" by simp
    then have "blade_ok (create bs)" by (intro create_blade_ok basis_of_blades [OF ok])
    then show ?thesis using r f by (auto simp: createBladeType_def Let_def split: if_splits)
  qed
qed

lemma sum_operands_ok:
  "sum_operands Ts bs = SumBlades Bs \<Longrightarrow> list_all verified Ts \<Longrightarrow> list_all blade_ok bs \<Longrightarrow>
    list_all blade_ok Bs"
  by (induction Ts bs rule: sum_operands.induct)
    (auto split: if_splits option.splits dest: verified_as_blade)

lemma matvec_blades_ok:
  "matvec_blades Rs bs = Inr (Some Bs) \<Longrightarrow> list_all (pred_option verified) Rs \<Longrightarrow> list_all blade_ok bs \<Longrightarrow>
    list_all blade_ok Bs"
  by (induction Rs bs rule: matvec_blades.induct)
    (auto split: if_splits option.splits dest: verified_as_blade verified_blades)

lemma versor_factors_ok:
  "versor_factors Ts Fs r = (Fs', r') \<Longrightarrow> list_all verified Ts \<Longrightarrow>
    list_all verified Fs \<and> list_all isVector Fs \<and> pred_option verified r \<Longrightarrow>
    list_all verified Fs' \<and> list_all isVector Fs' \<and> pred_option verified r'"
proof (induction Ts arbitrary: Fs r)
  case (Cons T Ts)
  show ?case
  proof (cases "\<exists>Gs. T = VersorType Gs")
    case True
    then obtain Gs where g: "T = VersorType Gs" by blast
    then have "versor_factors Ts (Fs @ Gs) r = (Fs', r')" "list_all verified Gs" "list_all isVector Gs"
      using Cons.prems by (simp_all add: isZeroType_def Versor_verify_def list.pred_map)
    then show ?thesis using Cons.prems Cons.IH by simp
  next
    case False
    then have "(if isZeroType T then (Fs, Some ZeroType)
        else if isVector T then versor_factors Ts (Fs @ [T]) r
        else versor_factors Ts Fs (Some UnknownType)) = (Fs', r')"
      using Cons.prems(1) by (cases T) (simp_all add: isZeroType_def split: if_splits)
    then show ?thesis using Cons.prems Cons.IH [of "Fs @ [T]" r] Cons.IH [of Fs "Some UnknownType"]
      by (auto split: if_splits)
  qed
qed simp

lemma oswap_ok: "blade_ok B \<Longrightarrow> blade_ok (oswap B)"
  by (cases B) (auto simp: blade_ok_def oswap_def grade_sign_swap)

lemma infer_verified:
  assumes "list_all verified Ts"
  shows "ReverseOp_infer Ts = Inr (Some Rs) \<Longrightarrow> list_all verified Rs"
    and "ExpandOp_infer Ts = Inr (Some Rs) \<Longrightarrow> list_all verified Rs"
    and "SumOp_infer u Ts = Inr (Some Rs) \<Longrightarrow> list_all verified Rs"
    and "OuterProdOp_infer Ts = Inr (Some Rs) \<Longrightarrow> list_all verified Rs"
    and "OSwapOp_infer Ts = Inr (Some Rs) \<Longrightarrow> list_all verified Rs"
    and "InverseOp_infer Ts = Inr (Some Rs) \<Longrightarrow> list_all verified Rs"
    and "InnerProdOp_infer Ts = Inr (Some Rs) \<Longrightarrow> list_all verified Rs"
    and "VersorOp_infer Ts = Inr (Some Rs) \<Longrightarrow> list_all verified Rs"
    and "FactorsOp_infer Ts = Inr (Some Rs) \<Longrightarrow> list_all verified Rs"
proof -
  have h: "verified (hd Ts)" if "Ts \<noteq> []" using assms that by (cases Ts) auto
  show "ReverseOp_infer Ts = Inr (Some Rs) \<Longrightarrow> list_all verified Rs"
  proof -
    assume i: "ReverseOp_infer Ts = Inr (Some Rs)"
    then have "verified (hd Ts)" using h by (simp add: ReverseOp_infer_def)
    then show ?thesis using i assms
      by (cases "hd Ts") (auto simp: ReverseOp_infer_def Versor_verify_def list_all_iff)
  qed
  show "ExpandOp_infer Ts = Inr (Some Rs) \<Longrightarrow> list_all verified Rs"
    using h by (auto simp: ExpandOp_infer_def list_all_iff split: geo_type.splits)
  show "SumOp_infer u Ts = Inr (Some Rs) \<Longrightarrow> list_all verified Rs"
    using sum_operands_ok [of Ts "[]"] assms
    by (auto simp: SumOp_infer_def andThen_Inr hd_in_set list_all_iff split: sum_scan.splits if_splits
        dest: createUnitType_verified createMultivectorLikeType_verified)
  show "OuterProdOp_infer Ts = Inr (Some Rs) \<Longrightarrow> list_all verified Rs"
    using assms by (auto simp: OuterProdOp_infer_def inferOuterProdResult_def andThen_Inr
        split: list.splits option.splits dest!: createBladeType_verified intro: verified_as_blade)
  show "OSwapOp_infer Ts = Inr (Some Rs) \<Longrightarrow> list_all verified Rs"
    using assms by (auto simp: OSwapOp_infer_def oswap_ok split: list.splits geo_type.splits)
  show "InverseOp_infer Ts = Inr (Some Rs) \<Longrightarrow> list_all verified Rs"
    using assms by (auto simp: InverseOp_infer_def split: list.splits option.splits if_splits)
  show "InnerProdOp_infer Ts = Inr (Some Rs) \<Longrightarrow> list_all verified Rs"
  proof -
    assume i: "InnerProdOp_infer Ts = Inr (Some Rs)"
    have "blade_ok (BladeTag 0)" by (simp add: blade_ok_iff grade_card)
    moreover have "verified (Ts ! 1)" using i assms by (simp add: InnerProdOp_infer_def list_all_length)
    ultimately show ?thesis using i verified_as_blade [of "Ts ! 1"]
      by (auto simp: InnerProdOp_infer_def Let_def split: option.splits if_splits)
  qed
  show "VersorOp_infer Ts = Inr (Some Rs) \<Longrightarrow> list_all verified Rs"
  proof -
    assume i: "VersorOp_infer Ts = Inr (Some Rs)"
    obtain Fs r where v: "versor_factors Ts [] None = (Fs, r)" by (cases "versor_factors Ts [] None")
    then show ?thesis using i versor_factors_ok [OF v assms]
      by (cases r) (auto simp: VersorOp_infer_def Versor_verify_def list_all_iff split: if_splits)
  qed
  show "FactorsOp_infer Ts = Inr (Some Rs) \<Longrightarrow> list_all verified Rs"
    using h by (auto simp: FactorsOp_infer_def list_all_iff split: geo_type.splits)
qed

lemma MatvecOp_verified:
  assumes "MatvecOp_infer Rs = Inr (Some Ts)" and "list_all (pred_option verified) Rs"
  shows "list_all verified Ts"
proof -
  obtain r where r: "matvec_blades Rs [] = Inr r"
    using assms(1) by (auto simp: MatvecOp_infer_def andThen_Inr)
  show ?thesis
  proof (cases r)
    case (Some Bs)
    then have "list_all blade_ok Bs" using matvec_blades_ok [OF _ assms(2)] r by simp
    then show ?thesis using assms(1) r Some
      by (auto simp: MatvecOp_infer_def andThen_Inr split: if_splits
          dest: createMultivectorLikeType_verified)
  qed (use assms(1) r in \<open>auto simp: MatvecOp_infer_def\<close>)
qed

text \<open>
  C25: Inference is type preserving: from operands (and regions) whose types the verifiers accept,
  every operation infers types that the verifiers accept.
\<close>
theorem inference_verified:
  assumes "list_all verified Ts" and "\<forall>Rs. Op = MatvecOp Rs \<longrightarrow> list_all (pred_option verified) Rs"
    and "inferReturnTypes Op Ts = Inr (Some Us)"
  shows "list_all verified Us"
  using assms infer_verified [OF assms(1)] MatvecOp_verified
  by (cases Op) (auto simp: NegateOp_infer_def GradeInvoOp_infer_def)

theorem inference_verified_witness:
  "verified (VersorType [BladeType (BladeTag 1), UnitVectorType []])"
proof -
  let ?T = "VersorType [UnitVectorType [], BladeType (BladeTag 1)]"
  have v: "verified ?T"
    by (simp add: blade_ok_def Versor_verify_def UnitVector_verify_def basis_grade [of 0, unfolded basis_def, simplified])
      code_simp
  have "inferReturnTypes ReverseOp [?T] = Inr (Some [VersorType [BladeType (BladeTag 1), UnitVectorType []]])"
    by (simp add: ReverseOp_infer_def)
  then show ?thesis using inference_verified [of "[?T]" ReverseOp] v by simp
qed


section \<open>The type of a sum\<close>

text \<open>The operands of a sum of blades and zeros: each value is on the blade of its type.\<close>

lemma sum_operands_supported:
  assumes "sum_operands Ts bs = SumBlades Bs" and "list_all2 (\<lambda>T v. v \<in> den gp T) Ts vs"
  shows "set bs \<subseteq> set Bs \<and> (\<forall>v\<in>set vs. v \<in> supported Bs)"
  using assms
proof (induction Ts arbitrary: bs vs)
  case (Cons T Ts)
  then obtain v ws where v: "vs = v # ws" "v \<in> den gp T" "list_all2 (\<lambda>T v. v \<in> den gp T) Ts ws"
    by (auto simp: list_all2_Cons1)
  have n: "sum_operands Ts (bs @ getBladeTypes T) = SumBlades Bs" and t: "T = ZeroType \<or> (\<exists>B. T = BladeType B)"
    using Cons.prems(1) by (cases T; simp add: isUnknown_def getBladeTypes_def split: if_splits)+
  have ih: "set (bs @ getBladeTypes T) \<subseteq> set Bs \<and> (\<forall>w\<in>set ws. w \<in> supported Bs)"
    using Cons.IH [OF n v(3)] .
  have "v \<in> supported Bs"
    using t v(2) ih supported_mono [of "getBladeTypes T" Bs]
    by (auto simp: supported_Nil zero_supported getBladeTypes_def)
  then show ?case using ih v(1) by simp
qed simp

lemma sum_supported:
  fixes vs :: "('a::comm_monoid_add) mv list"
  assumes "\<forall>v\<in>set vs. v \<in> supported Bs"
  shows "(\<lambda>t. \<Sum>v\<leftarrow>vs. v t) \<in> supported Bs"
proof -
  have "(\<Sum>v\<leftarrow>vs. v t) = 0" if "t \<notin> getCanonicalTag ` set Bs" for t
    using assms that by (induction vs) (auto simp: supported_def)
  then show ?thesis unfolding supported_def by blast
qed

lemma createMultivectorLikeType_den:
  assumes "createMultivectorLikeType T Bs = Inr R" and "\<And>Cs. den gp (T Cs) = supported Cs"
  shows "den gp R = supported Bs"
  using createMultivectorLikeType_result [OF assms(1)] assms(2) by (auto simp: supported_def)



end
