(* ===== verification/CharInfo.thy ===== *)
theory CharInfo
  imports Prelude "HOL-Library.Char_ord"
begin

text \<open>
  The character classes of the Scheme reader: the attribute table of
  \<open>schir/lib/CharInfo.cpp\<close> with the tests of \<open>schir/include/schir/CharInfo.h\<close>, and the
  character predicates of \<open>schir/lib/Lexer.cpp\<close>. Source text is a list of \<open>char\<close>, one per byte.
\<close>

section \<open>The attribute table\<close>

definition CHAR_HORZ_WS :: u16 where "CHAR_HORZ_WS = 0x0001"
definition CHAR_VERT_WS :: u16 where "CHAR_VERT_WS = 0x0002"
definition CHAR_SPACE :: u16 where "CHAR_SPACE = 0x0004"
definition CHAR_DIGIT :: u16 where "CHAR_DIGIT = 0x0008"
definition CHAR_XLETTER :: u16 where "CHAR_XLETTER = 0x0010"
definition CHAR_UPPER :: u16 where "CHAR_UPPER = 0x0020"
definition CHAR_LOWER :: u16 where "CHAR_LOWER = 0x0040"
definition CHAR_UNDER :: u16 where "CHAR_UNDER = 0x0080"
definition CHAR_PERIOD :: u16 where "CHAR_PERIOD = 0x0100"
definition CHAR_PUNCT :: u16 where "CHAR_PUNCT = 0x0200"
definition CHAR_XUPPER :: u16 where "CHAR_XUPPER = CHAR_XLETTER OR CHAR_UPPER"
definition CHAR_XLOWER :: u16 where "CHAR_XLOWER = CHAR_XLETTER OR CHAR_LOWER"

text \<open>The initializer lists 128 entries of a table of 256; the others are zero.\<close>

definition InfoTable_init :: "u16 list" where
  "InfoTable_init = [
    0, 0, 0, 0,
    0, 0, 0, 0,
    0, CHAR_HORZ_WS, CHAR_VERT_WS, CHAR_HORZ_WS,
    CHAR_HORZ_WS, CHAR_VERT_WS, 0, 0,
    0, 0, 0, 0,
    0, 0, 0, 0,
    0, 0, 0, 0,
    0, 0, 0, 0,
    CHAR_SPACE, CHAR_PUNCT, CHAR_PUNCT, CHAR_PUNCT,
    CHAR_PUNCT, CHAR_PUNCT, CHAR_PUNCT, CHAR_PUNCT,
    CHAR_PUNCT, CHAR_PUNCT, CHAR_PUNCT, CHAR_PUNCT,
    CHAR_PUNCT, CHAR_PUNCT, CHAR_PERIOD, CHAR_PUNCT,
    CHAR_DIGIT, CHAR_DIGIT, CHAR_DIGIT, CHAR_DIGIT,
    CHAR_DIGIT, CHAR_DIGIT, CHAR_DIGIT, CHAR_DIGIT,
    CHAR_DIGIT, CHAR_DIGIT, CHAR_PUNCT, CHAR_PUNCT,
    CHAR_PUNCT, CHAR_PUNCT, CHAR_PUNCT, CHAR_PUNCT,
    CHAR_PUNCT, CHAR_XUPPER, CHAR_XUPPER, CHAR_XUPPER,
    CHAR_XUPPER, CHAR_XUPPER, CHAR_XUPPER, CHAR_UPPER,
    CHAR_UPPER, CHAR_UPPER, CHAR_UPPER, CHAR_UPPER,
    CHAR_UPPER, CHAR_UPPER, CHAR_UPPER, CHAR_UPPER,
    CHAR_UPPER, CHAR_UPPER, CHAR_UPPER, CHAR_UPPER,
    CHAR_UPPER, CHAR_UPPER, CHAR_UPPER, CHAR_UPPER,
    CHAR_UPPER, CHAR_UPPER, CHAR_UPPER, CHAR_PUNCT,
    CHAR_PUNCT, CHAR_PUNCT, CHAR_PUNCT, CHAR_UNDER,
    CHAR_PUNCT, CHAR_XLOWER, CHAR_XLOWER, CHAR_XLOWER,
    CHAR_XLOWER, CHAR_XLOWER, CHAR_XLOWER, CHAR_LOWER,
    CHAR_LOWER, CHAR_LOWER, CHAR_LOWER, CHAR_LOWER,
    CHAR_LOWER, CHAR_LOWER, CHAR_LOWER, CHAR_LOWER,
    CHAR_LOWER, CHAR_LOWER, CHAR_LOWER, CHAR_LOWER,
    CHAR_LOWER, CHAR_LOWER, CHAR_LOWER, CHAR_LOWER,
    CHAR_LOWER, CHAR_LOWER, CHAR_LOWER, CHAR_PUNCT,
    CHAR_PUNCT, CHAR_PUNCT, CHAR_PUNCT, 0]"

definition InfoTable :: "u16 list" where
  "InfoTable = InfoTable_init @ replicate 128 0"

definition isWhitespace :: "char \<Rightarrow> bool" where
  "isWhitespace C \<longleftrightarrow>
     InfoTable ! (of_char C) AND (CHAR_HORZ_WS OR CHAR_VERT_WS OR CHAR_SPACE) \<noteq> 0"

definition isHorizontalWhitespace :: "char \<Rightarrow> bool" where
  "isHorizontalWhitespace C \<longleftrightarrow> InfoTable ! (of_char C) AND (CHAR_HORZ_WS OR CHAR_SPACE) \<noteq> 0"

definition isVerticalWhitespace :: "char \<Rightarrow> bool" where
  "isVerticalWhitespace C \<longleftrightarrow> InfoTable ! (of_char C) AND CHAR_VERT_WS \<noteq> 0"

section \<open>Character predicates of the lexer\<close>

definition letters :: string where
  "letters = ''ABCDEFGHIJKLMNOPQRSTUVWXYZabcdefghijklmnopqrstuvwxyz''"

definition digits :: string where
  "digits = ''0123456789''"

definition isInitialChar :: "char \<Rightarrow> bool" where
  "isInitialChar c \<longleftrightarrow> c \<in> set letters \<or> c \<in> set ''*/<=>!?:$%_&~^''"

definition isDigit :: "char \<Rightarrow> bool" where
  "isDigit c \<longleftrightarrow> CHR ''0'' \<le> c \<and> c \<le> CHR ''9''"

definition isSubsequent :: "char \<Rightarrow> bool" where
  "isSubsequent c \<longleftrightarrow> isInitialChar c \<or> isDigit c \<or>
     c = CHR ''+'' \<or> c = CHR ''-'' \<or> c = CHR ''.'' \<or> c = CHR ''@''"

definition isExplicitSign :: "char \<Rightarrow> bool" where
  "isExplicitSign c \<longleftrightarrow> c = CHR ''+'' \<or> c = CHR ''-''"

definition isSignSubsequent :: "char \<Rightarrow> bool" where
  "isSignSubsequent c \<longleftrightarrow> isInitialChar c \<or> isExplicitSign c \<or> c = CHR ''@''"

definition isDotSubsequent :: "char \<Rightarrow> bool" where
  "isDotSubsequent c \<longleftrightarrow> isSignSubsequent c \<or> c = CHR ''.''"

definition isExtendedAlphabet :: "char \<Rightarrow> bool" where
  "isExtendedAlphabet c \<longleftrightarrow> c \<in> set letters \<or> c \<in> set digits \<or> c \<in> set ''+-.*/<=>!?:$%_&~^''"

definition NUL :: char where
  "NUL = CHR 0x00"

definition isDelimiter :: "char \<Rightarrow> bool" where
  "isDelimiter c \<longleftrightarrow> c = NUL \<or> c = CHR 0x22 \<or> c = CHR '';'' \<or> c = CHR ''('' \<or> c = CHR '')''
     \<or> c = CHR ''['' \<or> c = CHR '']'' \<or> c = CHR ''{'' \<or> c = CHR ''}'' \<or> c = CHR ''|''
     \<or> isWhitespace c"

section \<open>The classes as sets of characters\<close>

lemma of_char_256: "of_char (c :: char) < (256::nat)"
  by (metis of_char_mod_256 mod_less_divisor zero_less_numeral)

lemma of_char_eq: "(of_char c :: nat) = of_char d \<longleftrightarrow> c = d" for c d :: char
  by (rule of_char_eq_iff)

text \<open>The indices of the table at which a mask finds a bit, computed once per mask.\<close>

definition masked :: "u16 \<Rightarrow> nat list" where
  "masked m = map fst (filter (\<lambda>(i, x). x AND m \<noteq> 0) (enumerate 0 InfoTable_init))"

lemma InfoTable_masked:
  "InfoTable ! (of_char c) AND m \<noteq> 0 \<longleftrightarrow> of_char c \<in> set (masked m)"
proof -
  have len: "length InfoTable_init = 128" by (simp add: InfoTable_init_def)
  show ?thesis
  proof (cases "of_char c < (128::nat)")
    case True
    then show ?thesis using len
      by (force simp: masked_def InfoTable_def nth_append in_set_enumerate_eq)
  next
    case False
    then have "InfoTable ! (of_char c) = 0"
      using len False of_char_256 [of c] less_diff_conv2 [of 128 "of_char c" 128]
      by (simp add: InfoTable_def nth_append)
    moreover have "of_char c \<notin> set (masked m)"
      using False len by (auto simp: masked_def in_set_enumerate_eq)
    ultimately show ?thesis by simp
  qed
qed

lemma masked_values:
  "masked (CHAR_HORZ_WS OR CHAR_SPACE) = [9, 11, 12, 32]"
  "masked CHAR_VERT_WS = [10, 13]"
  "masked (CHAR_HORZ_WS OR CHAR_VERT_WS OR CHAR_SPACE) = [9, 10, 11, 12, 13, 32]"
  unfolding masked_def InfoTable_init_def CHAR_HORZ_WS_def CHAR_VERT_WS_def CHAR_SPACE_def
    CHAR_DIGIT_def CHAR_XLETTER_def CHAR_UPPER_def CHAR_LOWER_def CHAR_UNDER_def CHAR_PERIOD_def
    CHAR_PUNCT_def CHAR_XUPPER_def CHAR_XLOWER_def
  by simp_all

lemma of_char_values:
  "(9::nat) = of_char (CHR 0x09)" "(10::nat) = of_char (CHR 0x0A)" "(11::nat) = of_char (CHR 0x0B)"
  "(12::nat) = of_char (CHR 0x0C)" "(13::nat) = of_char (CHR 0x0D)" "(32::nat) = of_char (CHR 0x20)"
  by simp_all

lemma horizontal_iff: "isHorizontalWhitespace c \<longleftrightarrow> c \<in> {CHR 0x09, CHR 0x0B, CHR 0x0C, CHR 0x20}"
  unfolding isHorizontalWhitespace_def InfoTable_masked masked_values list.set of_char_values
    insert_iff empty_iff of_char_eq by blast

lemma vertical_iff: "isVerticalWhitespace c \<longleftrightarrow> c \<in> {CHR 0x0A, CHR 0x0D}"
  unfolding isVerticalWhitespace_def InfoTable_masked masked_values list.set of_char_values
    insert_iff empty_iff of_char_eq by blast

lemma whitespace_iff:
  "isWhitespace c \<longleftrightarrow> c \<in> {CHR 0x09, CHR 0x0A, CHR 0x0B, CHR 0x0C, CHR 0x0D, CHR 0x20}"
  unfolding isWhitespace_def InfoTable_masked masked_values list.set of_char_values
    insert_iff empty_iff of_char_eq by blast

text \<open>
  The bit tests of the attribute table are the intended classes for every byte: tab, newline,
  vertical tab, form feed, carriage return and space, with newline and carriage return vertical;
  no byte above 127 and not the terminating NUL is whitespace.
\<close>
theorem whitespace_classes:
  "isHorizontalWhitespace c = (c \<in> {CHR 0x09, CHR 0x0B, CHR 0x0C, CHR 0x20})
   \<and> isVerticalWhitespace c = (c \<in> {CHR 0x0A, CHR 0x0D})
   \<and> isWhitespace c = (isHorizontalWhitespace c \<or> isVerticalWhitespace c)"
  by (auto simp: horizontal_iff vertical_iff whitespace_iff)

end
