(* ===== verification/Lexer.thy ===== *)
theory Lexer
  imports CharInfo
begin

text \<open>
  The Scheme lexer (\<open>schir/lib/Lexer.cpp\<close>, \<open>schir/include/schir/Lexer.h\<close>). A \<open>char const*\<close> is
  an index of the source buffer, whose last byte is NUL; every \<open>*CurPtr\<close> is a checked read, so a
  lexer function returns \<open>None\<close> exactly where the C++ code would read outside the buffer. The
  loops stop on their own: each step reads one more byte of a finite buffer.
\<close>

section \<open>Tokens and the state of the lexer\<close>

datatype TokenKind =
    tok_unknown | tok_block_comment_eof | tok_bytevector_lparen | tok_char_constant
  | tok_comment_datum | tok_eof | tok_extern_name | tok_false | tok_identifier | tok_l_brace
  | tok_l_paren | tok_l_square | tok_numeric_constant | tok_parser_directive | tok_period
  | tok_quasiquote | tok_quote | tok_r_brace | tok_r_paren | tok_r_square
  | tok_relaxed_identifier | tok_string_literal | tok_string_literal_eof | tok_symbol_literal
  | tok_true | tok_unquote | tok_unquote_splicing | tok_vector_lparen

text \<open>A source location is an encoded offset; 0 is the invalid location.\<close>

datatype source_location = SourceLocation (getEncoding: u32)

definition isValid :: "source_location \<Rightarrow> bool" where
  "isValid L \<longleftrightarrow> getEncoding L \<noteq> 0"

definition getLocWithOffset :: "source_location \<Rightarrow> u32 \<Rightarrow> source_location" where
  "getLocWithOffset L Offset = SourceLocation (getEncoding L + Offset)"

text \<open>
  A token: its location, its kind and the \<open>StringRef\<close> of its text, which is the range
  \<open>[LitBegin, LitBegin + length)\<close> of the buffer. \<open>LitBegin = None\<close> is the null pointer of a default
  constructed token.
\<close>

record token =
  Loc :: source_location
  Kind :: TokenKind
  LitBegin :: "nat option"
  LiteralData :: string

record lexer =
  FileLoc :: source_location
  Buffer :: string
  BufferPtr :: nat
  IsBlockComment :: bool

definition getSourceLocation :: "lexer \<Rightarrow> nat \<Rightarrow> source_location" where
  "getSourceLocation L p =
     (if \<not> isValid (FileLoc L) then FileLoc L
      else getLocWithOffset (FileLoc L) (of_nat p))"

definition text_range :: "string \<Rightarrow> nat \<Rightarrow> nat \<Rightarrow> string" where
  "text_range buf i j = take (j - i) (drop i buf)"

definition FormTokenWithChars :: "lexer \<Rightarrow> nat \<Rightarrow> TokenKind \<Rightarrow> lexer \<times> token" where
  "FormTokenWithChars L TokEnd K =
     (L\<lparr>BufferPtr := TokEnd\<rparr>,
      \<lparr>Loc = getSourceLocation L (BufferPtr L), Kind = K, LitBegin = Some (BufferPtr L),
       LiteralData = text_range (Buffer L) (BufferPtr L) TokEnd\<rparr>)"

definition FormIdentifier :: "lexer \<Rightarrow> nat \<Rightarrow> lexer \<times> token" where
  "FormIdentifier L TokEnd = FormTokenWithChars L TokEnd tok_identifier"

definition FormLiteral :: "lexer \<Rightarrow> nat \<Rightarrow> TokenKind \<Rightarrow> lexer \<times> token" where
  "FormLiteral L TokEnd K = FormTokenWithChars L TokEnd K"

section \<open>Skipping\<close>

function SkipUntilDelimiter :: "string \<Rightarrow> nat \<Rightarrow> nat option" where
  "SkipUntilDelimiter buf CurPtr =
     (case rd buf CurPtr of None \<Rightarrow> None
      | Some c \<Rightarrow> if \<not> isDelimiter c then SkipUntilDelimiter buf (CurPtr + 1) else Some CurPtr)"
  by pat_completeness auto
termination
  by (relation "measure (\<lambda>(buf, i). length buf - i)") (auto simp: rd_Some_iff)

text \<open>The two nested loops of \<open>ProcessWhitespace\<close>.\<close>

function skip_horizontal :: "string \<Rightarrow> nat \<Rightarrow> nat option" where
  "skip_horizontal buf CurPtr =
     (case rd buf CurPtr of None \<Rightarrow> None
      | Some c \<Rightarrow> if isHorizontalWhitespace c then skip_horizontal buf (CurPtr + 1) else Some CurPtr)"
  by pat_completeness auto
termination
  by (relation "measure (\<lambda>(buf, i). length buf - i)") (auto simp: rd_Some_iff)

declare SkipUntilDelimiter.simps [simp del] skip_horizontal.simps [simp del]

lemma skip_horizontal_ge: "skip_horizontal buf i = Some j \<Longrightarrow> i \<le> j"
  by (induction buf i rule: skip_horizontal.induct)
    (subst (asm) (2) skip_horizontal.simps, auto split: option.splits if_splits)

function skip_whitespace :: "string \<Rightarrow> nat \<Rightarrow> nat option" where
  "skip_whitespace buf CurPtr =
     (case skip_horizontal buf CurPtr of None \<Rightarrow> None
      | Some p \<Rightarrow>
        (case rd buf p of None \<Rightarrow> None
         | Some c \<Rightarrow> if \<not> isVerticalWhitespace c then Some p else skip_whitespace buf (p + 1)))"
  by pat_completeness auto
termination
  by (relation "measure (\<lambda>(buf, i). length buf - i)")
    (auto simp: rd_Some_iff dest: skip_horizontal_ge)

declare skip_whitespace.simps [simp del]

text \<open>\<open>BufferPtr\<close> moves only when there is whitespace at \<open>CurPtr\<close>.\<close>

definition ProcessWhitespace :: "lexer \<Rightarrow> nat \<Rightarrow> (lexer \<times> nat) option" where
  "ProcessWhitespace L CurPtr =
     (case rd (Buffer L) CurPtr of None \<Rightarrow> None
      | Some c \<Rightarrow>
        if \<not> isWhitespace c then Some (L, CurPtr)
        else (case skip_whitespace (Buffer L) CurPtr of None \<Rightarrow> None
              | Some p \<Rightarrow> Some (L\<lparr>BufferPtr := p\<rparr>, p)))"

text \<open>
  The body of \<open>ProcessBlockComment\<close> after the opening \<open>#|\<close>: the result is the new pointer and
  whether the end of the buffer was met (the flag that \<open>BlockCommentRaii\<close> leaves set). A nested
  comment is the recursive call; whatever it reports, the outer loop looks at the next byte again.
\<close>

definition at2 :: "string \<Rightarrow> nat \<Rightarrow> char \<Rightarrow> char \<Rightarrow> bool option" where
  "at2 buf p a b = do { c \<leftarrow> rd buf p; if c = a then do { d \<leftarrow> rd buf (p + 1); Some (d = b) } else Some False }"

function block_comment :: "string \<Rightarrow> nat \<Rightarrow> (nat \<times> bool) option" where
  "block_comment buf CurPtr = do {
     nested \<leftarrow> at2 buf CurPtr (CHR ''#'') (CHR ''|'');
     p \<leftarrow> (if nested then map_option fst (block_comment buf (CurPtr + 2)) else Some CurPtr);
     close \<leftarrow> at2 buf p (CHR ''|'') (CHR ''#'');
     if close then Some (p + 2, False)
     else do { c \<leftarrow> rd buf p; if c = NUL then Some (p, True) else block_comment buf (p + 1) } }"
  by pat_completeness auto

lemma block_comment_dom_ge:
  "block_comment_dom (buf, i) \<Longrightarrow> block_comment buf i = Some (j, e) \<Longrightarrow> i \<le> j"
proof (induction buf i arbitrary: j e rule: block_comment.pinduct)
  case (1 buf i)
  from "1.prems" obtain nested p close where
    n: "at2 buf i (CHR ''#'') (CHR ''|'') = Some nested"
    and p: "(if nested then map_option fst (block_comment buf (i + 2)) else Some i) = Some p"
    and c: "at2 buf p (CHR ''|'') (CHR ''#'') = Some close"
    and r: "(if close then Some (p + 2, False) else do { c \<leftarrow> rd buf p;
       if c = NUL then Some (p, True) else block_comment buf (p + 1) }) = Some (j, e)"
    unfolding block_comment.psimps [OF "1.hyps"] bind_eq_Some_conv by blast
  have ip: "i \<le> p"
    using p "1.IH"(1) [OF n] by (cases nested) fastforce+
  show ?case
  proof (cases close)
    case True
    then show ?thesis using r ip by simp
  next
    case False
    then obtain q where q: "rd buf p = Some q" "q = NUL \<Longrightarrow> j = p"
      "q \<noteq> NUL \<Longrightarrow> block_comment buf (p + 1) = Some (j, e)"
      using r by (auto simp: bind_eq_Some_conv split: if_splits)
    then show ?thesis using "1.IH"(2) [OF n p c False q(1)] ip by (cases "q = NUL") auto
  qed
qed

lemma at2_SomeD: "at2 buf p a b = Some r \<Longrightarrow> p < length buf"
  by (auto simp: at2_def bind_eq_Some_conv rd_Some_iff)

lemma block_comment_dom_all: "All block_comment_dom"
  by (relation "measure (\<lambda>(buf, i). length buf - i)")
    (auto dest!: at2_SomeD rd_SomeD split: if_splits dest: block_comment_dom_ge)

termination block_comment
  by (rule block_comment_dom_all)

declare block_comment.simps [simp del]


lemma block_comment_ge: "block_comment buf i = Some (j, e) \<Longrightarrow> i \<le> j"
  by (rule block_comment_dom_ge [OF spec [OF block_comment_dom_all]])

function skip_line :: "string \<Rightarrow> nat \<Rightarrow> nat option" where
  "skip_line buf CurPtr =
     (case rd buf CurPtr of None \<Rightarrow> None
      | Some c \<Rightarrow> if \<not> isVerticalWhitespace c then skip_line buf (CurPtr + 1) else Some CurPtr)"
  by pat_completeness auto
termination
  by (relation "measure (\<lambda>(buf, i). length buf - i)") (auto simp: rd_Some_iff)

declare skip_line.simps [simp del]

definition TryProcessComment :: "lexer \<Rightarrow> nat \<Rightarrow> (bool \<times> lexer \<times> nat) option" where
  "TryProcessComment L CurPtr = do {
     c \<leftarrow> rd (Buffer L) CurPtr;
     if c = CHR '';'' then do { p \<leftarrow> skip_line (Buffer L) CurPtr; Some (True, L, p) }
     else do {
       block \<leftarrow> at2 (Buffer L) CurPtr (CHR ''#'') (CHR ''|'');
       if block then do {
         (p, eof) \<leftarrow> block_comment (Buffer L) (CurPtr + 2);
         Some (True, L\<lparr>IsBlockComment := eof \<or> IsBlockComment L\<rparr>, p) }
       else Some (False, L, CurPtr) } }"

lemma skip_whitespace_ge: "skip_whitespace buf i = Some j \<Longrightarrow> i \<le> j"
proof (induction buf i rule: skip_whitespace.induct)
  case (1 buf i)
  then show ?case
    by (subst (asm) (2) skip_whitespace.simps)
      (fastforce split: option.splits if_splits dest: skip_horizontal_ge)
qed

lemma skip_line_ge: "skip_line buf i = Some j \<Longrightarrow> i \<le> j"
proof (induction buf i rule: skip_line.induct)
  case (1 buf i)
  then show ?case
    by (subst (asm) (2) skip_line.simps) (fastforce split: option.splits if_splits)
qed

lemma skip_line_comment: "rd buf i = Some (CHR '';'') \<Longrightarrow> skip_line buf i = Some j \<Longrightarrow> i < j"
  by (subst (asm) skip_line.simps) (auto simp: vertical_iff dest: skip_line_ge)

lemma ProcessWhitespace_SomeD:
  "ProcessWhitespace L i = Some (L', j) \<Longrightarrow> i \<le> j \<and> Buffer L' = Buffer L"
  by (auto simp: ProcessWhitespace_def split: option.splits if_splits dest: skip_whitespace_ge)

lemma TryProcessComment_SomeD:
  assumes "TryProcessComment L i = Some (again, L', j)"
  shows "i < length (Buffer L) \<and> i \<le> j \<and> Buffer L' = Buffer L \<and> BufferPtr L' = BufferPtr L
    \<and> (again \<longrightarrow> i < j) \<and> (\<not> again \<longrightarrow> j = i \<and> L' = L)"
  using assms
  by (auto simp: TryProcessComment_def bind_eq_Some_conv split: if_splits
      dest: rd_SomeD skip_line_comment block_comment_ge)

text \<open>The loop at the start of \<open>Lex\<close>: whitespace and comments before the token.\<close>

function lex_skip :: "lexer \<Rightarrow> nat \<Rightarrow> (lexer \<times> nat) option" where
  "lex_skip L CurPtr = do {
     (L1, p1) \<leftarrow> ProcessWhitespace L CurPtr;
     (again, L2, p2) \<leftarrow> TryProcessComment L1 p1;
     if again then lex_skip L2 p2 else Some (L2, p2) }"
  by pat_completeness auto
termination
  by (relation "measure (\<lambda>(L, i). length (Buffer L) - i)")
    (auto dest!: ProcessWhitespace_SomeD TryProcessComment_SomeD)

declare lex_skip.simps [simp del]

section \<open>The token classes\<close>

text \<open>\<open>StringRef(CurPtr, 5).starts_with(s)\<close> for a five byte \<open>s\<close>: all five bytes are compared.\<close>

definition starts_with5 :: "string \<Rightarrow> nat \<Rightarrow> string \<Rightarrow> bool option" where
  "starts_with5 buf p s = (if p + 5 \<le> length buf then Some (take 5 (drop p buf) = s) else None)"

definition isPeculiarIdentifierPrefix :: "char \<Rightarrow> string \<Rightarrow> nat \<Rightarrow> bool option" where
  "isPeculiarIdentifierPrefix InitChar buf CurPtr = do {
     Char \<leftarrow> rd buf CurPtr;
     NextChar \<leftarrow> (if Char \<noteq> NUL then rd buf (CurPtr + 1) else Some NUL);
     NextNextChar \<leftarrow> (if NextChar \<noteq> NUL then rd buf (CurPtr + 2) else Some NUL);
     exception \<leftarrow>
       (if (InitChar = CHR ''+'' \<or> InitChar = CHR ''-'') \<and> (Char = CHR ''i'' \<or> Char = CHR ''n'')
        then if Char = CHR ''i'' \<and> isDelimiter NextChar then Some True
             else do { nan \<leftarrow> starts_with5 buf CurPtr ''nan.0'';
                       inf \<leftarrow> starts_with5 buf CurPtr ''inf.0'';
                       Some (nan \<or> inf) }
        else Some False);
     if exception then Some False
     else Some (
       (isExplicitSign InitChar \<and> isDelimiter Char) \<or>
       (isExplicitSign InitChar \<and> isSignSubsequent Char \<and>
         (isSubsequent NextChar \<or> isDelimiter NextChar)) \<or>
       (isExplicitSign InitChar \<and> Char = CHR ''.'' \<and> isDotSubsequent NextChar \<and>
         (isSubsequent NextNextChar \<or> isDelimiter NextNextChar)) \<or>
       (InitChar = CHR ''.'' \<and> isDotSubsequent Char \<and>
         (isSubsequent NextChar \<or> isDelimiter NextChar))) }"

function lex_identifier_loop :: "string \<Rightarrow> nat \<Rightarrow> bool \<Rightarrow> (nat \<times> bool) option" where
  "lex_identifier_loop buf CurPtr IsStrict =
     (case rd buf CurPtr of None \<Rightarrow> None
      | Some c \<Rightarrow>
        if \<not> isDelimiter c
        then lex_identifier_loop buf (CurPtr + 1) (IsStrict \<and> isExtendedAlphabet c)
        else Some (CurPtr, IsStrict))"
  by pat_completeness auto
termination
  by (relation "measure (\<lambda>(buf, i, s). length buf - i)") (auto simp: rd_Some_iff)

declare lex_identifier_loop.simps [simp del]

definition LexIdentifier :: "lexer \<Rightarrow> nat \<Rightarrow> char \<Rightarrow> (lexer \<times> token) option" where
  "LexIdentifier L CurPtr InitChar = do {
     start \<leftarrow> (if isInitialChar InitChar then Some True
               else isPeculiarIdentifierPrefix InitChar (Buffer L) CurPtr);
     (p, IsStrict) \<leftarrow> lex_identifier_loop (Buffer L) CurPtr start;
     Some (if \<not> IsStrict then FormTokenWithChars L p tok_relaxed_identifier
           else FormIdentifier L p) }"

definition LexNumber :: "lexer \<Rightarrow> nat \<Rightarrow> (lexer \<times> token) option" where
  "LexNumber L CurPtr = do {
     p \<leftarrow> SkipUntilDelimiter (Buffer L) CurPtr;
     Some (FormLiteral L p tok_numeric_constant) }"

definition LexNumberOrIdentifier :: "lexer \<Rightarrow> nat \<Rightarrow> char \<Rightarrow> (lexer \<times> token) option" where
  "LexNumberOrIdentifier L CurPtr InitChar = do {
     peculiar \<leftarrow> isPeculiarIdentifierPrefix InitChar (Buffer L) CurPtr;
     if peculiar then LexIdentifier L CurPtr InitChar else LexNumber L CurPtr }"

text \<open>
  The last step of \<open>LexSharpLiteral\<close>. \<open>Kind = None\<close> is the uninitialized variable of the C++ code:
  using it is undefined.
\<close>

definition sharp_finish :: "lexer \<Rightarrow> nat \<Rightarrow> TokenKind option \<Rightarrow> bool \<Rightarrow> (lexer \<times> token) option" where
  "sharp_finish L CurPtr K RequiresDelimiter = do {
     stray \<leftarrow> (if RequiresDelimiter
               then do { c \<leftarrow> rd (Buffer L) CurPtr; Some (\<not> isDelimiter c) } else Some False);
     if stray then do {
       p \<leftarrow> SkipUntilDelimiter (Buffer L) CurPtr;
       Some (FormTokenWithChars L p tok_unknown) }
     else do { k \<leftarrow> K; Some (FormTokenWithChars L CurPtr k) } }"

definition LexSharpLiteral :: "lexer \<Rightarrow> nat \<Rightarrow> (lexer \<times> token) option" where
  "LexSharpLiteral L CurPtr0 = do {
     c \<leftarrow> rd (Buffer L) CurPtr0;
     let CurPtr = CurPtr0 + 1;
     if c = CHR 0x5C then do {
       p \<leftarrow> (if isDelimiter c then Some (CurPtr + 2)
             else SkipUntilDelimiter (Buffer L) (CurPtr + 1));
       Some (FormLiteral L p tok_char_constant) }
     else if c = CHR ''t'' then sharp_finish L CurPtr (Some tok_true) True
     else if c = CHR ''f'' then sharp_finish L CurPtr (Some tok_false) True
     else if c = CHR ''('' then sharp_finish L CurPtr (Some tok_vector_lparen) False
     else if c = CHR ''u'' then do {
       byte \<leftarrow> at2 (Buffer L) CurPtr (CHR ''8'') (CHR ''('');
       if byte then sharp_finish L (CurPtr + 2) (Some tok_bytevector_lparen) False
       else sharp_finish L CurPtr None False }
     else if c = CHR ''!'' then do {
       p \<leftarrow> SkipUntilDelimiter (Buffer L) CurPtr;
       sharp_finish L p (Some tok_parser_directive) False }
     else if c = CHR '';'' then sharp_finish L CurPtr (Some tok_comment_datum) False
     else if c = CHR ''_'' then sharp_finish L (CurPtr + 1) (Some tok_extern_name) True
     else if c \<in> {CHR ''d'', CHR ''b'', CHR ''o'', CHR ''x'', CHR ''i'', CHR ''e''}
     then LexNumber L CurPtr
     else do {
       p \<leftarrow> SkipUntilDelimiter (Buffer L) CurPtr;
       sharp_finish L p (Some tok_unknown) False } }"

text \<open>
  The loop of \<open>LexStringLiteral\<close>: the position of the terminator, or of the byte before the
  terminating NUL when the literal is not closed.
\<close>

function string_literal_end :: "string \<Rightarrow> nat \<Rightarrow> char \<Rightarrow> (bool \<times> nat) option" where
  "string_literal_end buf CurPtr Terminator =
     (case rd buf CurPtr of None \<Rightarrow> None
      | Some c \<Rightarrow>
        if c = Terminator then Some (True, CurPtr)
        else if c = CHR 0x5C then
          (case rd buf (CurPtr + 1) of None \<Rightarrow> None
           | Some _ \<Rightarrow> string_literal_end buf (CurPtr + 2) Terminator)
        else if c = NUL then Some (False, CurPtr - 1)
        else string_literal_end buf (CurPtr + 1) Terminator)"
  by pat_completeness auto
termination
  by (relation "measure (\<lambda>(buf, i, t). length buf - i)") (auto simp: rd_Some_iff)

declare string_literal_end.simps [simp del]

definition LexStringLiteral :: "lexer \<Rightarrow> nat \<Rightarrow> TokenKind \<Rightarrow> char \<Rightarrow> (lexer \<times> token) option" where
  "LexStringLiteral L CurPtr TokKind Terminator = do {
     (closed, p) \<leftarrow> string_literal_end (Buffer L) CurPtr Terminator;
     if closed then do {
       _ \<leftarrow> rd (Buffer L) (p + 1);
       Some (FormLiteral L (p + 1) TokKind) }
     else Some (FormTokenWithChars L p tok_string_literal_eof) }"

definition single_char_kind :: "char \<Rightarrow> TokenKind option" where
  "single_char_kind c =
     (if c = CHR ''('' then Some tok_l_paren
      else if c = CHR '')'' then Some tok_r_paren
      else if c = CHR ''{'' then Some tok_l_brace
      else if c = CHR ''}'' then Some tok_r_brace
      else if c = CHR ''['' then Some tok_l_square
      else if c = CHR '']'' then Some tok_r_square
      else if c = CHR 0x27 then Some tok_quote
      else if c = CHR 0x60 then Some tok_quasiquote
      else None)"

definition Lex :: "lexer \<Rightarrow> (lexer \<times> token) option" where
  "Lex L0 = do {
     (L, p) \<leftarrow> lex_skip L0 (BufferPtr L0);
     c \<leftarrow> rd (Buffer L) p;
     let CurPtr = p + 1;
     if c = CHR ''+'' \<or> c = CHR ''-'' then LexNumberOrIdentifier L CurPtr c
     else if c = CHR ''.'' then do {
       d \<leftarrow> rd (Buffer L) CurPtr;
       if isDelimiter d then Some (FormTokenWithChars L CurPtr tok_period)
       else LexNumberOrIdentifier L CurPtr c }
     else if c \<in> set digits then LexNumber L CurPtr
     else if c = CHR ''#'' then LexSharpLiteral L CurPtr
     else if c = CHR 0x22 then LexStringLiteral L CurPtr tok_string_literal (CHR 0x22)
     else if c = CHR ''|'' then LexStringLiteral L CurPtr tok_symbol_literal (CHR ''|'')
     else if c = CHR '','' then do {
       d \<leftarrow> rd (Buffer L) CurPtr;
       Some (if d = CHR ''@'' then FormTokenWithChars L (CurPtr + 1) tok_unquote_splicing
             else FormTokenWithChars L CurPtr tok_unquote) }
     else if c = NUL then
       Some (FormTokenWithChars L p (if IsBlockComment L then tok_block_comment_eof else tok_eof))
     else case single_char_kind c of
       Some K \<Rightarrow> Some (FormTokenWithChars L CurPtr K)
     | None \<Rightarrow> LexIdentifier L CurPtr c }"

end
