(* ===== verification/LexerSafety.thy ===== *)
theory LexerSafety
  imports Lexer
begin

text \<open>
  Memory safety and progress of the lexer: on a buffer that ends in a newline and a NUL, no read
  leaves the buffer and every token but the end markers consumes input. The interface a client of
  the token stream relies on is the locale \<open>token_source\<close>; \<open>Lex\<close> provides it.
\<close>

section \<open>Well terminated buffers\<close>

text \<open>
  The NUL that ends the source at index \<open>n\<close>, a newline before it, and two more readable bytes for
  the five byte comparison of \<open>isPeculiarIdentifierPrefix\<close>.
\<close>

definition well_terminated :: "string \<Rightarrow> nat \<Rightarrow> bool" where
  "well_terminated buf n \<longleftrightarrow>
     0 < n \<and> n + 2 < length buf \<and> buf ! n = NUL \<and> isVerticalWhitespace (buf ! (n - 1))"

text \<open>\<open>#u\<close> only as the start of a bytevector: elsewhere the lexer uses an uninitialized kind.\<close>

definition no_stray_u :: "string \<Rightarrow> bool" where
  "no_stray_u buf \<longleftrightarrow> (\<forall>i. i + 1 < length buf \<longrightarrow> buf ! i = CHR ''#'' \<longrightarrow> buf ! (i + 1) = CHR ''u'' \<longrightarrow>
     i + 3 < length buf \<and> buf ! (i + 2) = CHR ''8'' \<and> buf ! (i + 3) = CHR ''('')"

named_theorems lex_safe \<open>an operation of the lexer stays inside a well terminated buffer\<close>

lemma NUL_simps [simp]:
  "isDelimiter NUL" "\<not> isWhitespace NUL" "\<not> isHorizontalWhitespace NUL"
  "\<not> isVerticalWhitespace NUL"
  by (simp_all add: isDelimiter_def whitespace_iff horizontal_iff vertical_iff NUL_def)

lemma well_terminated_rd:
  "well_terminated buf n \<Longrightarrow> i \<le> n + 2 \<Longrightarrow> rd buf i = Some (buf ! i)"
  by (simp add: well_terminated_def)

lemma well_terminated_NUL: "well_terminated buf n \<Longrightarrow> buf ! n = NUL"
  by (simp add: well_terminated_def)

text \<open>A byte that is neither NUL nor a line end is at least two before the terminator.\<close>

lemma well_terminated_inner:
  assumes "well_terminated buf n" and "i \<le> n" and "buf ! i \<noteq> NUL" and "\<not> isVerticalWhitespace (buf ! i)"
  shows "i + 2 \<le> n"
proof -
  have "i \<noteq> n" and "i \<noteq> n - 1" using assms by (auto simp: well_terminated_def)
  with assms(2) show ?thesis by arith
qed

lemma SkipUntilDelimiter_safe [lex_safe]:
  "i \<le> n \<Longrightarrow> well_terminated buf n \<Longrightarrow> \<exists>j. SkipUntilDelimiter buf i = Some j \<and> i \<le> j \<and> j \<le> n"
proof (induction i rule: upto_induct)
  case (step i)
  show ?case
  proof (cases "isDelimiter (buf ! i)")
    case True
    then show ?thesis using step.prems step.hyps by (subst SkipUntilDelimiter.simps) (simp add: well_terminated_rd)
  next
    case False
    then have "i < n" using step.prems step.hyps by (metis NUL_simps(1) le_neq_implies_less well_terminated_NUL)
    then obtain j where "SkipUntilDelimiter buf (i + 1) = Some j" "i + 1 \<le> j" "j \<le> n"
      using step.IH [of "i + 1"] step.prems step.hyps by auto
    then show ?thesis using False step.prems step.hyps
      by (subst SkipUntilDelimiter.simps) (simp add: well_terminated_rd)
  qed
qed

lemma skip_horizontal_safe [lex_safe]:
  "i \<le> n \<Longrightarrow> well_terminated buf n \<Longrightarrow> \<exists>j. skip_horizontal buf i = Some j \<and> i \<le> j \<and> j \<le> n"
proof (induction i rule: upto_induct)
  case (step i)
  show ?case
  proof (cases "isHorizontalWhitespace (buf ! i)")
    case False
    then show ?thesis using step.prems step.hyps by (subst skip_horizontal.simps) (simp add: well_terminated_rd)
  next
    case True
    then have "i < n" using step.prems step.hyps by (metis NUL_simps(3) le_neq_implies_less well_terminated_NUL)
    then obtain j where "skip_horizontal buf (i + 1) = Some j" "i + 1 \<le> j" "j \<le> n"
      using step.IH [of "i + 1"] step.prems step.hyps by auto
    then show ?thesis using True step.prems step.hyps
      by (subst skip_horizontal.simps) (simp add: well_terminated_rd)
  qed
qed

lemma skip_whitespace_safe [lex_safe]:
  "i \<le> n \<Longrightarrow> well_terminated buf n \<Longrightarrow> \<exists>j. skip_whitespace buf i = Some j \<and> i \<le> j \<and> j \<le> n"
proof (induction i rule: upto_induct)
  case (step i)
  obtain p where p: "skip_horizontal buf i = Some p" "i \<le> p" "p \<le> n"
    using skip_horizontal_safe step.prems step.hyps by blast
  show ?case
  proof (cases "isVerticalWhitespace (buf ! p)")
    case False
    then show ?thesis using step.prems step.hyps p by (subst skip_whitespace.simps) (simp add: well_terminated_rd)
  next
    case True
    then have "p < n" using step.prems step.hyps p by (metis NUL_simps(4) le_neq_implies_less well_terminated_NUL)
    then obtain j where "skip_whitespace buf (p + 1) = Some j" "p + 1 \<le> j" "j \<le> n"
      using step.IH [of "p + 1"] step.prems step.hyps p by auto
    then show ?thesis using True step.prems step.hyps p
      by (subst skip_whitespace.simps) (simp add: well_terminated_rd)
  qed
qed

lemma skip_line_safe [lex_safe]:
  "i \<le> n - 1 \<Longrightarrow> well_terminated buf n \<Longrightarrow> \<exists>j. skip_line buf i = Some j \<and> i \<le> j \<and> j \<le> n - 1"
proof (induction i rule: upto_induct)
  case (step i)
  show ?case
  proof (cases "isVerticalWhitespace (buf ! i)")
    case True
    then show ?thesis using step.prems step.hyps by (subst skip_line.simps) (simp add: well_terminated_rd)
  next
    case False
    then have "i < n - 1" using step.prems step.hyps by (cases "i + 1 = n") (auto simp: well_terminated_def)
    then obtain j where "skip_line buf (i + 1) = Some j" "i + 1 \<le> j" "j \<le> n - 1"
      using step.IH [of "i + 1"] step.prems step.hyps by auto
    then show ?thesis using False step.prems step.hyps
      by (subst skip_line.simps) (simp add: well_terminated_rd)
  qed
qed

lemma at2_safe:
  assumes "well_terminated buf n" "i \<le> n"
  shows "at2 buf i a b = Some (buf ! i = a \<and> buf ! (i + 1) = b)"
  using well_terminated_rd [OF assms(1), of i] well_terminated_rd [OF assms(1), of "i + 1"] assms(2)
  by (simp add: at2_def)

text \<open>Two printable bytes inside the buffer end at or before the terminator.\<close>

lemma at2_inner:
  assumes "well_terminated buf n" "i \<le> n" "buf ! i \<noteq> NUL" "\<not> isVerticalWhitespace (buf ! i)"
  shows "i + 2 \<le> n"
  using assms by (rule well_terminated_inner)

lemma block_comment_safe [lex_safe]:
  "i \<le> n \<Longrightarrow> well_terminated buf n \<Longrightarrow> \<exists>j e. block_comment buf i = Some (j, e) \<and> i \<le> j \<and> j \<le> n"
proof (induction i rule: upto_induct)
  case (step i)
  note wt = step.prems
  let ?nested = "buf ! i = CHR ''#'' \<and> buf ! (i + 1) = CHR ''|''"
  obtain p where p: "(if ?nested then map_option fst (block_comment buf (i + 2)) else Some i) = Some p"
    "i \<le> p" "p \<le> n"
  proof (cases ?nested)
    case True
    then have "i + 2 \<le> n" using step.prems step.hyps by (intro at2_inner) (auto simp: NUL_def vertical_iff)
    then obtain j e where "block_comment buf (i + 2) = Some (j, e)" "i + 2 \<le> j" "j \<le> n"
      using step.IH [of "i + 2"] wt by auto
    then show ?thesis using True that by auto
  next
    case False
    then show ?thesis using that step.prems step.hyps by auto
  qed
  have unfold: "block_comment buf i = (if buf ! p = CHR ''|'' \<and> buf ! (p + 1) = CHR ''#'' then Some (p + 2, False)
      else if buf ! p = NUL then Some (p, True) else block_comment buf (p + 1))"
    using p wt step.prems step.hyps by (subst block_comment.simps) (simp add: at2_safe well_terminated_rd)
  show ?case
  proof (cases "buf ! p = CHR ''|'' \<and> buf ! (p + 1) = CHR ''#''")
    case True
    then have "p + 2 \<le> n" using wt p by (intro at2_inner) (auto simp: NUL_def vertical_iff)
    then show ?thesis using True p unfold by auto
  next
    case False
    show ?thesis
    proof (cases "buf ! p = NUL")
      case True
      then show ?thesis using False p unfold by auto
    next
      case not_NUL: False
      then have "p < n" using p wt by (metis le_neq_implies_less well_terminated_NUL)
      then obtain j e where "block_comment buf (p + 1) = Some (j, e)" "p + 1 \<le> j" "j \<le> n"
        using step.IH [of "p + 1"] wt p by auto
      then show ?thesis using False not_NUL p unfold by auto
    qed
  qed
qed

lemma lex_identifier_loop_safe [lex_safe]:
  "i \<le> n \<Longrightarrow> well_terminated buf n \<Longrightarrow>
    \<exists>j s'. lex_identifier_loop buf i s = Some (j, s') \<and> i \<le> j \<and> j \<le> n"
proof (induction i arbitrary: s rule: upto_induct)
  case (step i)
  show ?case
  proof (cases "isDelimiter (buf ! i)")
    case True
    then show ?thesis using step.prems step.hyps by (subst lex_identifier_loop.simps) (simp add: well_terminated_rd)
  next
    case False
    then have "i < n" using step.prems step.hyps by (metis NUL_simps(1) le_neq_implies_less well_terminated_NUL)
    then obtain j s' where "lex_identifier_loop buf (i + 1) (s \<and> isExtendedAlphabet (buf ! i)) = Some (j, s')"
        "i + 1 \<le> j" "j \<le> n"
      using step.IH [of "i + 1" "s \<and> isExtendedAlphabet (buf ! i)"] step.prems step.hyps by auto
    then show ?thesis using False step.prems step.hyps
      by (subst lex_identifier_loop.simps) (simp add: well_terminated_rd)
  qed
qed

lemma string_literal_end_safe [lex_safe]:
  assumes "well_terminated buf n" "i \<le> n" "t \<noteq> NUL" "\<not> isVerticalWhitespace t"
  shows "\<exists>closed j. string_literal_end buf i t = Some (closed, j) \<and> i - 1 \<le> j
    \<and> (closed \<longrightarrow> i \<le> j \<and> j + 2 \<le> n) \<and> j \<le> n"
  using assms(2,1)
proof (induction i rule: upto_induct)
  case (step i)
  let ?c = "buf ! i"
  have rdi: "rd buf i = Some ?c" using step.prems step.hyps by (simp add: well_terminated_rd)
  consider "?c = t" | "?c \<noteq> t" "?c = CHR 0x5C" | "?c \<noteq> t" "?c = NUL"
    | "?c \<noteq> t" "?c \<noteq> CHR 0x5C" "?c \<noteq> NUL" by blast
  then show ?case
  proof cases
    case 1
    then have "i + 2 \<le> n" using step.prems step.hyps assms(3,4) well_terminated_inner by simp
    then show ?thesis using 1 rdi by (subst string_literal_end.simps) (auto intro: exI [of _ True])
  next
    case 2
    then have i2: "i + 2 \<le> n" using step.prems step.hyps
      by (intro well_terminated_inner) (auto simp: NUL_def vertical_iff)
    then obtain closed j where "string_literal_end buf (i + 2) t = Some (closed, j)" "i + 2 - 1 \<le> j"
        "closed \<longrightarrow> i + 2 \<le> j \<and> j + 2 \<le> n" "j \<le> n"
      using step.IH [OF _ i2 step.prems(1)] by auto
    then show ?thesis using 2 rdi i2 well_terminated_rd [OF step.prems(1), of "i + 1"]
      by (intro exI [of _ closed] exI [of _ j]) (subst string_literal_end.simps, auto)
  next
    case 3
    then have "string_literal_end buf i t = Some (False, i - 1)"
      using rdi by (subst string_literal_end.simps) (simp add: NUL_def)
    then show ?thesis using step.hyps by (intro exI [of _ False]) simp
  next
    case 4
    then have "i < n" using step.prems step.hyps by (metis le_neq_implies_less well_terminated_NUL)
    then obtain closed j where "string_literal_end buf (i + 1) t = Some (closed, j)" "i + 1 - 1 \<le> j"
        "closed \<longrightarrow> i + 1 \<le> j \<and> j + 2 \<le> n" "j \<le> n"
      using step.IH [of "i + 1", OF _ _ step.prems(1)] by auto
    then show ?thesis using 4 rdi
      by (intro exI [of _ closed] exI [of _ j]) (subst string_literal_end.simps, auto)
  qed
qed


section \<open>Whitespace and comments before a token\<close>

definition same_source :: "lexer \<Rightarrow> lexer \<Rightarrow> bool" where
  "same_source L L' \<longleftrightarrow> Buffer L' = Buffer L \<and> FileLoc L' = FileLoc L"

lemma same_source_refl [simp]: "same_source L L"
  by (simp add: same_source_def)

lemma same_source_trans: "same_source L L' \<Longrightarrow> same_source L' L'' \<Longrightarrow> same_source L L''"
  by (simp add: same_source_def)

lemma ProcessWhitespace_safe [lex_safe]:
  assumes "well_terminated (Buffer L) n" "i \<le> n" "BufferPtr L \<le> i"
  shows "\<exists>L' j. ProcessWhitespace L i = Some (L', j) \<and> same_source L L' \<and> i \<le> j \<and> j \<le> n
    \<and> BufferPtr L \<le> BufferPtr L' \<and> BufferPtr L' \<le> j"
  using skip_whitespace_safe [OF assms(2,1)] assms
  by (auto simp: ProcessWhitespace_def well_terminated_rd same_source_def)

lemma TryProcessComment_safe [lex_safe]:
  assumes "well_terminated (Buffer L) n" "i \<le> n"
  shows "\<exists>again L' j. TryProcessComment L i = Some (again, L', j) \<and> same_source L L' \<and> j \<le> n"
proof -
  let ?buf = "Buffer L"
  have r: "rd ?buf i = Some (?buf ! i)" using assms by (simp add: well_terminated_rd)
  show ?thesis
  proof (cases "?buf ! i = CHR '';''")
    case True
    then have "i + 2 \<le> n" using assms by (intro well_terminated_inner) (auto simp: NUL_def vertical_iff)
    then have "i \<le> n - 1" by arith
    then obtain j where "skip_line ?buf i = Some j" "j \<le> n"
      using skip_line_safe [of i n ?buf] assms by fastforce
    then show ?thesis using True r by (intro exI [of _ True]) (simp add: TryProcessComment_def)
  next
    case False
    show ?thesis
    proof (cases "?buf ! i = CHR ''#'' \<and> ?buf ! (i + 1) = CHR ''|''")
      case True
      then have "i + 2 \<le> n" using assms by (intro well_terminated_inner) (auto simp: NUL_def vertical_iff)
      then obtain j e where "block_comment ?buf (i + 2) = Some (j, e)" "j \<le> n"
        using block_comment_safe [of "i + 2" n ?buf] assms by auto
      then show ?thesis using True False r at2_safe [OF assms]
        by (intro exI [of _ True]) (simp add: TryProcessComment_def same_source_def)
    next
      case not_block: False
      then show ?thesis using False r at2_safe [OF assms] assms
        by (intro exI [of _ False]) (auto simp: TryProcessComment_def)
    qed
  qed
qed

lemma lex_skip_safe [lex_safe]:
  "i \<le> n \<Longrightarrow> well_terminated (Buffer L) n \<Longrightarrow> BufferPtr L \<le> i \<Longrightarrow>
    \<exists>L' j. lex_skip L i = Some (L', j) \<and> same_source L L' \<and> j \<le> n
      \<and> BufferPtr L \<le> BufferPtr L' \<and> BufferPtr L' \<le> j"
proof (induction i arbitrary: L rule: upto_induct)
  case (step i)
  obtain L1 p1 where w: "ProcessWhitespace L i = Some (L1, p1)" "same_source L L1" "i \<le> p1" "p1 \<le> n"
    "BufferPtr L \<le> BufferPtr L1" "BufferPtr L1 \<le> p1"
    using ProcessWhitespace_safe step.prems step.hyps by blast
  then have wt1: "well_terminated (Buffer L1) n" using step.prems by (simp add: same_source_def)
  obtain again L2 p2 where c: "TryProcessComment L1 p1 = Some (again, L2, p2)" "same_source L1 L2" "p2 \<le> n"
    using TryProcessComment_safe wt1 w(4) by blast
  note d = TryProcessComment_SomeD [OF c(1)]
  show ?case
  proof (cases again)
    case True
    have "well_terminated (Buffer L2) n" using wt1 c(2) by (simp add: same_source_def)
    then obtain L' j where "lex_skip L2 p2 = Some (L', j)" "same_source L2 L'" "j \<le> n"
      "BufferPtr L2 \<le> BufferPtr L'" "BufferPtr L' \<le> j"
      using step.IH [of p2 L2] d w(3,6) c(3) True by fastforce
    then show ?thesis using True w c d
      by (subst lex_skip.simps) (auto intro: same_source_trans)
  next
    case False
    then show ?thesis using w c d by (subst lex_skip.simps) (auto intro: same_source_trans)
  qed
qed

section \<open>The token classes stay inside the buffer\<close>

text \<open>
  What every token class of \<open>Lex\<close> guarantees when the token starts at \<open>BufferPtr L \<le> p\<close>: it
  succeeds, keeps the source, and ends behind \<open>p\<close> unless it is an end marker.
\<close>

definition eof_kinds :: "TokenKind set" where
  "eof_kinds = {tok_eof, tok_block_comment_eof, tok_string_literal_eof}"

definition token_ok :: "lexer \<Rightarrow> nat \<Rightarrow> nat \<Rightarrow> (lexer \<times> token) option \<Rightarrow> bool" where
  "token_ok L p n r \<longleftrightarrow> (\<exists>L' t. r = Some (L', t) \<and> same_source L L' \<and> p - 1 \<le> BufferPtr L'
     \<and> BufferPtr L' \<le> n \<and> (Kind t \<notin> eof_kinds \<longrightarrow> p \<le> BufferPtr L'))"

lemma token_ok_form [intro]: "p \<le> j \<Longrightarrow> j \<le> n \<Longrightarrow> token_ok L p n (Some (FormTokenWithChars L j K))"
  by (simp add: token_ok_def FormTokenWithChars_def same_source_def)

lemma LexNumber_ok:
  assumes "well_terminated (Buffer L) n" "p \<le> n"
  shows "token_ok L p n (LexNumber L p)"
  using SkipUntilDelimiter_safe [OF assms(2,1)] by (auto simp: LexNumber_def FormLiteral_def)

lemma isPeculiar_safe:
  assumes wt: "well_terminated buf n" and p: "p \<le> n"
  shows "\<exists>b. isPeculiarIdentifierPrefix c buf p = Some b"
proof -
  have r: "rd buf p = Some (buf ! p)" using assms by (simp add: well_terminated_rd)
  have r1: "rd buf (p + 1) = Some (buf ! (p + 1))" using assms by (simp add: well_terminated_rd)
  have r2: "rd buf (p + 2) = Some (buf ! (p + 2))" using assms by (simp add: well_terminated_rd)
  have five: "\<exists>b. starts_with5 buf p s = Some b" if "buf ! p = CHR ''i'' \<or> buf ! p = CHR ''n''" for s
  proof -
    have "p + 2 \<le> n" using that wt p by (intro well_terminated_inner) (auto simp: NUL_def vertical_iff)
    then show ?thesis using wt by (simp add: starts_with5_def well_terminated_def)
  qed
  obtain b1 where b1: "buf ! p = CHR ''i'' \<or> buf ! p = CHR ''n'' \<Longrightarrow> starts_with5 buf p ''nan.0'' = Some b1"
    using five [of "''nan.0''"] by blast
  obtain b2 where b2: "buf ! p = CHR ''i'' \<or> buf ! p = CHR ''n'' \<Longrightarrow> starts_with5 buf p ''inf.0'' = Some b2"
    using five [of "''inf.0''"] by blast
  show ?thesis
    using b1 b2 r1 [simplified] r2 [simplified] by (auto simp: isPeculiarIdentifierPrefix_def r)
qed

lemma LexIdentifier_ok:
  assumes "well_terminated (Buffer L) n" "p \<le> n"
  shows "token_ok L p n (LexIdentifier L p c)"
proof -
  obtain b where b: "(if isInitialChar c then Some True
      else isPeculiarIdentifierPrefix c (Buffer L) p) = Some b"
    using isPeculiar_safe [OF assms, of c] by (cases "isInitialChar c") auto
  obtain j s where "lex_identifier_loop (Buffer L) p b = Some (j, s)" "p \<le> j" "j \<le> n"
    using lex_identifier_loop_safe [OF assms(2,1)] by blast
  then show ?thesis using b by (auto simp: LexIdentifier_def FormIdentifier_def)
qed

lemma LexNumberOrIdentifier_ok:
  assumes "well_terminated (Buffer L) n" "p \<le> n"
  shows "token_ok L p n (LexNumberOrIdentifier L p c)"
proof -
  obtain b where "isPeculiarIdentifierPrefix c (Buffer L) p = Some b"
    using isPeculiar_safe [OF assms] by blast
  then show ?thesis using LexNumber_ok [OF assms] LexIdentifier_ok [OF assms]
    by (simp add: LexNumberOrIdentifier_def)
qed

lemma sharp_finish_ok:
  assumes "well_terminated (Buffer L) n" "q \<le> p" "p \<le> n" "K \<noteq> None"
  shows "token_ok L q n (sharp_finish L p K d)"
proof -
  obtain j where j: "SkipUntilDelimiter (Buffer L) p = Some j" "p \<le> j" "j \<le> n"
    using SkipUntilDelimiter_safe [OF assms(3,1)] by blast
  have "token_ok L q n (Some (FormTokenWithChars L p k))" for k
    using assms(2,3) by (rule token_ok_form)
  moreover have "token_ok L q n (Some (FormTokenWithChars L j k))" for k
    using assms(2) j(2,3) by (intro token_ok_form) simp_all
  ultimately show ?thesis using assms(3,4) j(1) well_terminated_rd [OF assms(1), of p]
    by (auto simp: sharp_finish_def)
qed

lemma LexStringLiteral_ok:
  assumes "well_terminated (Buffer L) n" "p \<le> n" "t \<noteq> NUL" "\<not> isVerticalWhitespace t"
  shows "token_ok L p n (LexStringLiteral L p K t)"
proof -
  obtain closed j where j: "string_literal_end (Buffer L) p t = Some (closed, j)" "p - 1 \<le> j"
    "closed \<longrightarrow> p \<le> j \<and> j + 2 \<le> n" "j \<le> n"
    using string_literal_end_safe [OF assms] by blast
  show ?thesis
  proof (cases closed)
    case True
    then show ?thesis using j well_terminated_rd [OF assms(1), of "j + 1"]
      by (auto simp: LexStringLiteral_def FormLiteral_def)
  next
    case False
    then show ?thesis using j
      by (auto simp: LexStringLiteral_def token_ok_def FormTokenWithChars_def same_source_def eof_kinds_def)
  qed
qed

lemma LexSharpLiteral_ok:
  assumes wt: "well_terminated (Buffer L) n" and p: "p + 1 \<le> n"
    and u: "Buffer L ! p = CHR ''u'' \<Longrightarrow> Buffer L ! (p + 1) = CHR ''8'' \<and> Buffer L ! (p + 2) = CHR ''(''"
  shows "token_ok L p n (LexSharpLiteral L p)"
proof -
  let ?c = "Buffer L ! p"
  have r: "rd (Buffer L) p = Some ?c" using wt p by (simp add: well_terminated_rd)
  have inner: "p + 2 \<le> n" if "?c = CHR 0x5C \<or> ?c = CHR ''_''"
    using that wt p by (intro well_terminated_inner) (auto simp: NUL_def vertical_iff)
  obtain j where j: "SkipUntilDelimiter (Buffer L) (p + 1) = Some j" "p + 1 \<le> j" "j \<le> n"
    using SkipUntilDelimiter_safe [OF p wt] by blast
  have num: "token_ok L p n (LexNumber L (p + 1))"
    using LexNumber_ok [OF wt p] by (auto simp: token_ok_def)
  show ?thesis
  proof (cases "?c = CHR 0x5C")
    case True
    then obtain k where "SkipUntilDelimiter (Buffer L) (p + 2) = Some k" "p + 2 \<le> k" "k \<le> n"
      using inner SkipUntilDelimiter_safe [OF _ wt] by blast
    then show ?thesis using True r
      by (auto simp: LexSharpLiteral_def isDelimiter_def whitespace_iff NUL_def FormLiteral_def)
  next
    case False
    show ?thesis
    proof (cases "?c = CHR ''u''")
      case True
      then have "at2 (Buffer L) (p + 1) (CHR ''8'') (CHR ''('') = Some True"
        using u at2_safe [OF wt, of "p + 1"] p by simp
      moreover have "p + 3 \<le> n"
      proof -
        have "p + 1 + 2 \<le> n" using u [OF True] wt p
          by (intro well_terminated_inner) (auto simp: NUL_def vertical_iff)
        then show ?thesis by simp
      qed
      ultimately show ?thesis using True r sharp_finish_ok [OF wt, of p "p + 3"]
        by (simp add: LexSharpLiteral_def numeral_eq_Suc)
    next
      case not_u: False
      then show ?thesis using False r j num inner sharp_finish_ok [OF wt, of p "p + 1"]
          sharp_finish_ok [OF wt, of p "p + 2"] sharp_finish_ok [OF wt, of p j] p
        by (auto simp: LexSharpLiteral_def)
    qed
  qed
qed


section \<open>Lex\<close>

text \<open>The states from which the lexer is safe: inside a source that ends as \<open>well_terminated\<close> says.\<close>

definition lexer_ok :: "nat \<Rightarrow> lexer \<Rightarrow> bool" where
  "lexer_ok n L \<longleftrightarrow> well_terminated (Buffer L) n \<and> no_stray_u (Buffer L) \<and> BufferPtr L \<le> n"

lemma token_ok_source: "same_source L L' \<Longrightarrow> token_ok L' p n r \<Longrightarrow> token_ok L p n r"
  by (auto simp: token_ok_def intro: same_source_trans)

lemma token_ok_Lex:
  assumes wt: "well_terminated (Buffer L) n" and nu: "no_stray_u (Buffer L)" and p: "p \<le> n"
    and skip: "lex_skip L0 (BufferPtr L0) = Some (L, p)"
  shows "Buffer L ! p \<noteq> NUL \<and> token_ok L (p + 1) n (Lex L0) \<or>
    Buffer L ! p = NUL \<and>
    Lex L0 = Some (FormTokenWithChars L p (if IsBlockComment L then tok_block_comment_eof else tok_eof))"
proof (cases "Buffer L ! p = NUL")
  case True
  then show ?thesis using wt p skip
    by (simp add: Lex_def well_terminated_rd NUL_def digits_def)
next
  case False
  let ?c = "Buffer L ! p"
  have r: "rd (Buffer L) p = Some ?c" using wt p by (simp add: well_terminated_rd)
  have pn: "p + 1 \<le> n" using False p wt well_terminated_NUL [OF wt] by (cases "p = n") auto
  have r1: "rd (Buffer L) (p + 1) = Some (Buffer L ! (p + 1))" using wt pn by (simp add: well_terminated_rd)
  have p2: "p + 2 \<le> n" if "\<not> isVerticalWhitespace ?c"
    using that wt p False by (intro well_terminated_inner) auto
  have sharp: "token_ok L (p + 1) n (LexSharpLiteral L (p + 1))" if "?c = CHR ''#''"
  proof (rule LexSharpLiteral_ok [OF wt])
    show "p + 1 + 1 \<le> n" using p2 that by (simp add: vertical_iff)
    assume u: "Buffer L ! (p + 1) = CHR ''u''"
    have "p + 1 < length (Buffer L)" using pn wt by (simp add: well_terminated_def)
    then have "Buffer L ! (p + 2) = CHR ''8'' \<and> Buffer L ! (p + 3) = CHR ''(''"
      using nu u that unfolding no_stray_u_def by blast
    then show "Buffer L ! (p + 1 + 1) = CHR ''8'' \<and> Buffer L ! (p + 1 + 2) = CHR ''(''"
      by (simp add: numeral_eq_Suc)
  qed
  have comma: "token_ok L (p + 1) n (Some (FormTokenWithChars L (p + 1 + 1) K))" if "?c = CHR '',''" for K
    using p2 that by (intro token_ok_form) (simp_all add: vertical_iff)
  have one: "token_ok L (p + 1) n (Some (FormTokenWithChars L (p + 1) K))" for K
    using pn by (intro token_ok_form) simp_all
  have str: "token_ok L (p + 1) n (LexStringLiteral L (p + 1) K (CHR 0x22))"
    "token_ok L (p + 1) n (LexStringLiteral L (p + 1) K (CHR ''|''))" for K
    using pn by (auto intro!: LexStringLiteral_ok wt simp: NUL_def vertical_iff)
  have "token_ok L (p + 1) n (Lex L0)"
    using False r r1 sharp comma one str LexNumberOrIdentifier_ok [OF wt pn] LexNumber_ok [OF wt pn]
      LexIdentifier_ok [OF wt pn]
    by (simp add: Lex_def skip split: option.split)
  with False show ?thesis by blast
qed

lemma Lex_step:
  assumes "lexer_ok n L"
  shows "\<exists>L' t. Lex L = Some (L', t) \<and> lexer_ok n L' \<and> same_source L L' \<and> BufferPtr L \<le> BufferPtr L'
    \<and> (Kind t \<notin> eof_kinds \<longrightarrow> BufferPtr L < BufferPtr L')"
proof -
  have wt: "well_terminated (Buffer L) n" and nu: "no_stray_u (Buffer L)" and ptr: "BufferPtr L \<le> n"
    using assms by (auto simp: lexer_ok_def)
  obtain L1 p where s: "lex_skip L (BufferPtr L) = Some (L1, p)" "same_source L L1" "p \<le> n"
    "BufferPtr L \<le> BufferPtr L1" "BufferPtr L1 \<le> p"
    using lex_skip_safe [OF ptr wt] by auto
  have wt1: "well_terminated (Buffer L1) n" and nu1: "no_stray_u (Buffer L1)"
    using wt nu s(2) by (simp_all add: same_source_def)
  show ?thesis
    using token_ok_Lex [OF wt1 nu1 s(3,1)] s wt nu
    by (fastforce simp: token_ok_def lexer_ok_def FormTokenWithChars_def same_source_def eof_kinds_def)
qed


definition example_source :: string where
  "example_source = ''(a)'' @ [CHR 0x0A, NUL, NUL, NUL]"

definition example_lexer :: lexer where
  "example_lexer = \<lparr>FileLoc = SourceLocation 0, Buffer = example_source, BufferPtr = 0,
     IsBlockComment = False\<rparr>"

lemma example_lexer_ok: "lexer_ok 4 example_lexer"
proof -
  have "no_stray_u example_source"
    by (auto simp: no_stray_u_def example_source_def less_Suc_eq NUL_def nth_Cons')
  then show ?thesis
    by (simp add: lexer_ok_def example_lexer_def well_terminated_def example_source_def vertical_iff)
qed


section \<open>Token streams\<close>

text \<open>
  The interface of the parser to its lexer: a state that is good, a position bounded by the end of
  the source, and a step that always yields a token and moves on unless it is an end marker. The
  stream of tokens is then finite.
\<close>

locale token_source =
  fixes next_token :: "'s \<Rightarrow> ('s \<times> 't) option"
    and is_end :: "'t \<Rightarrow> bool"
    and good :: "'s \<Rightarrow> bool"
    and pos :: "'s \<Rightarrow> nat"
    and last_pos :: nat
  assumes next_good: "good s \<Longrightarrow> \<exists>s' t. next_token s = Some (s', t) \<and> good s' \<and>
      (\<not> is_end t \<longrightarrow> pos s < pos s')"
    and pos_bound: "good s \<Longrightarrow> pos s \<le> last_pos"
begin

primrec drain :: "nat \<Rightarrow> 's \<Rightarrow> 't list option" where
  "drain 0 s = None"
| "drain (Suc k) s =
     (case next_token s of None \<Rightarrow> None
      | Some (s', t) \<Rightarrow> if is_end t then Some [t] else map_option (Cons t) (drain k s'))"

lemma drain_enough:
  assumes "good s" and "last_pos - pos s < k"
  shows "\<exists>ts. drain k s = Some ts \<and> ts \<noteq> [] \<and> is_end (last ts)
    \<and> (\<forall>t \<in> set (butlast ts). \<not> is_end t) \<and> length ts \<le> last_pos - pos s + 1"
  using assms
proof (induction k arbitrary: s)
  case (Suc k)
  obtain s' t where st: "next_token s = Some (s', t)" "good s'" "\<not> is_end t \<Longrightarrow> pos s < pos s'"
    using next_good Suc.prems(1) by blast
  show ?case
  proof (cases "is_end t")
    case True
    then show ?thesis using st by simp
  next
    case False
    then have lt: "pos s < pos s'" "pos s' \<le> last_pos" using st pos_bound by auto
    then have "last_pos - pos s' < k" using Suc.prems(2) by arith
    then obtain ts where ts: "drain k s' = Some ts" "ts \<noteq> []" "is_end (last ts)"
      "\<forall>t \<in> set (butlast ts). \<not> is_end t" "length ts \<le> last_pos - pos s' + 1"
      using Suc.IH [OF st(2)] by blast
    moreover have "length (t # ts) \<le> last_pos - pos s + 1" using lt ts(5) by simp
    ultimately show ?thesis using st False by auto
  qed
qed simp

end

interpretation lex_stream: token_source Lex "\<lambda>t. Kind t \<in> eof_kinds" "lexer_ok n" BufferPtr n for n
proof unfold_locales
  show "\<And>s. lexer_ok n s \<Longrightarrow> \<exists>s' t. Lex s = Some (s', t) \<and> lexer_ok n s' \<and>
      (Kind t \<notin> eof_kinds \<longrightarrow> BufferPtr s < BufferPtr s')"
    using Lex_step by blast
  show "\<And>s. lexer_ok n s \<Longrightarrow> BufferPtr s \<le> n" by (simp add: lexer_ok_def)
qed

text \<open>The client loop: tokens up to and including the first end marker.\<close>

fun lex_all :: "nat \<Rightarrow> lexer \<Rightarrow> token list option" where
  "lex_all 0 L = None"
| "lex_all (Suc k) L =
     (case Lex L of None \<Rightarrow> None
      | Some (L', t) \<Rightarrow> if Kind t \<in> eof_kinds then Some [t] else map_option (Cons t) (lex_all k L'))"

lemma lex_all_drain: "lex_all k L = lex_stream.drain k L"
  by (induction k arbitrary: L) (auto split: option.splits)



section \<open>Where the text of a token lies\<close>

text \<open>Every token is formed by \<open>FormTokenWithChars\<close> on the state behind the whitespace.\<close>

definition formed :: "lexer \<Rightarrow> (lexer \<times> token) option \<Rightarrow> bool" where
  "formed L r \<longleftrightarrow> (\<forall>x. r = Some x \<longrightarrow> (\<exists>e K. x = FormTokenWithChars L e K))"

lemma formed_simps [simp]:
  "formed L None" "formed L (Some (FormTokenWithChars L e K))" "formed L (Some (FormLiteral L e K))"
  "formed L (Some (FormIdentifier L e))"
  by (auto simp: formed_def FormLiteral_def FormIdentifier_def)

lemma formed_bind: "(\<And>x. formed L (f x)) \<Longrightarrow> formed L (Option.bind m f)"
  and formed_if: "formed L r \<Longrightarrow> formed L r' \<Longrightarrow> formed L (if b then r else r')"
  and formed_prod: "(\<And>a b. formed L (g a b)) \<Longrightarrow> formed L (case z of (a, b) \<Rightarrow> g a b)"
  and formed_option: "formed L r \<Longrightarrow> (\<And>x. formed L (f x)) \<Longrightarrow> formed L (case m of None \<Rightarrow> r | Some x \<Rightarrow> f x)"
  and formed_let: "(\<And>x. formed L (f x)) \<Longrightarrow> formed L (Let c f)"
  by (cases m; auto split: prod.split option.split)+

lemmas formed_intros = formed_simps formed_bind formed_if formed_prod formed_option formed_let

lemma formed_parts:
  "formed L (sharp_finish L p K d)" "formed L (LexNumber L p)" "formed L (LexIdentifier L p c)"
  "formed L (LexStringLiteral L p K' t)"
  unfolding sharp_finish_def LexNumber_def LexIdentifier_def LexStringLiteral_def if_distrib [of Some]
  by (intro formed_intros)+

lemma formed_number_or_identifier: "formed L (LexNumberOrIdentifier L p c)"
  unfolding LexNumberOrIdentifier_def by (intro formed_intros formed_parts)

lemma formed_sharp: "formed L (LexSharpLiteral L p)"
  unfolding LexSharpLiteral_def by (intro formed_intros formed_parts)

text \<open>Whatever the token, its text starts where the buffer pointer stands behind the whitespace.\<close>

lemma Lex_form:
  assumes "Lex L0 = Some (L', t)"
  obtains L p e K where "lex_skip L0 (BufferPtr L0) = Some (L, p)" "(L', t) = FormTokenWithChars L e K"
proof -
  obtain L p where s: "lex_skip L0 (BufferPtr L0) = Some (L, p)"
    using assms by (auto simp: Lex_def bind_eq_Some_conv)
  have "formed L (Lex L0)"
    unfolding Lex_def s bind.bind_lunit prod.case if_distrib [of Some]
    by (intro formed_intros formed_parts formed_sharp formed_number_or_identifier)
  with s that assms show ?thesis by (auto simp: formed_def)
qed

lemma Lex_token_start:
  assumes "lexer_ok n L" "Lex L = Some (L', t)"
  shows "\<exists>b\<le>n. LitBegin t = Some b \<and> LiteralData t = text_range (Buffer L') b (BufferPtr L')"
proof -
  obtain L1 p e K where s: "lex_skip L (BufferPtr L) = Some (L1, p)" and f: "(L', t) = FormTokenWithChars L1 e K"
    using assms(2) by (rule Lex_form)
  have "BufferPtr L1 \<le> n"
    using lex_skip_safe [of "BufferPtr L" n L] assms(1) s by (fastforce simp: lexer_ok_def)
  then show ?thesis using f by (auto simp: FormTokenWithChars_def)
qed

end
