(* ===== verification/LexerText.thy ===== *)
theory LexerText
  imports LexerSafety
begin

text \<open>
  What the lexer reads from written text: every lexeme of the core token classes, behind any
  whitespace and in front of any delimiter, is read back as one token with its kind and its exact
  text, and so is a whole sequence of lexemes. Three inputs show where the text of a token or the
  end of the buffer goes wrong in the code.
\<close>

section \<open>Lexemes\<close>

datatype lexeme =
    LxSymbol string | LxNumber string | LxString string | LxTrue | LxFalse | LxOpen | LxClose
  | LxVector | LxQuote | LxQuasiquote | LxUnquote | LxUnquoteSplicing | LxDatumComment

fun lexeme_text :: "lexeme \<Rightarrow> string" where
  "lexeme_text (LxSymbol s) = s"
| "lexeme_text (LxNumber s) = s"
| "lexeme_text (LxString s) = CHR 0x22 # s @ [CHR 0x22]"
| "lexeme_text LxTrue = ''#t''"
| "lexeme_text LxFalse = ''#f''"
| "lexeme_text LxOpen = ''(''"
| "lexeme_text LxClose = '')''"
| "lexeme_text LxVector = ''#(''"
| "lexeme_text LxQuote = [CHR 0x27]"
| "lexeme_text LxQuasiquote = [CHR 0x60]"
| "lexeme_text LxUnquote = '',''"
| "lexeme_text LxUnquoteSplicing = '',@''"
| "lexeme_text LxDatumComment = ''#;''"

fun lexeme_kind :: "lexeme \<Rightarrow> TokenKind" where
  "lexeme_kind (LxSymbol _) = tok_identifier"
| "lexeme_kind (LxNumber _) = tok_numeric_constant"
| "lexeme_kind (LxString _) = tok_string_literal"
| "lexeme_kind LxTrue = tok_true"
| "lexeme_kind LxFalse = tok_false"
| "lexeme_kind LxOpen = tok_l_paren"
| "lexeme_kind LxClose = tok_r_paren"
| "lexeme_kind LxVector = tok_vector_lparen"
| "lexeme_kind LxQuote = tok_quote"
| "lexeme_kind LxQuasiquote = tok_quasiquote"
| "lexeme_kind LxUnquote = tok_unquote"
| "lexeme_kind LxUnquoteSplicing = tok_unquote_splicing"
| "lexeme_kind LxDatumComment = tok_comment_datum"

fun lexeme_valid :: "lexeme \<Rightarrow> bool" where
  "lexeme_valid (LxSymbol s) \<longleftrightarrow> s \<noteq> [] \<and> isInitialChar (hd s) \<and> list_all isExtendedAlphabet (tl s)"
| "lexeme_valid (LxNumber s) \<longleftrightarrow> s \<noteq> [] \<and> hd s \<in> set digits \<and> list_all (\<lambda>c. \<not> isDelimiter c) s"
| "lexeme_valid (LxString s) \<longleftrightarrow> list_all (\<lambda>c. c \<noteq> CHR 0x22 \<and> c \<noteq> CHR 0x5C \<and> c \<noteq> NUL) s"
| "lexeme_valid _ \<longleftrightarrow> True"

section \<open>Character facts\<close>

lemma initial_plain:
  "isInitialChar c \<Longrightarrow> \<not> isDelimiter c \<and> c \<notin> set digits \<and> c \<notin> set ''+-.#,'' \<and> c \<noteq> CHR 0x27 \<and> c \<noteq> CHR 0x60"
  by (auto simp: isInitialChar_def letters_def digits_def isDelimiter_def whitespace_iff NUL_def)

lemma extended_plain: "isExtendedAlphabet c \<Longrightarrow> \<not> isDelimiter c"
  by (auto simp: isExtendedAlphabet_def letters_def digits_def isDelimiter_def whitespace_iff NUL_def)

lemma digit_plain: "c \<in> set digits \<Longrightarrow> c \<notin> set ''+-.#,;''"
  by (auto simp: digits_def)

lemma not_delimiter_plain:
  "\<not> isDelimiter c \<Longrightarrow> \<not> isWhitespace c \<and> c \<notin> set '';()[]{}|'' \<and> c \<noteq> CHR 0x22 \<and> c \<noteq> NUL"
  by (auto simp: isDelimiter_def)

section \<open>Reading a run of bytes\<close>

lemma rd_mid: "k < length w \<Longrightarrow> rd (pre @ w @ post) (length pre + k) = Some (w ! k)"
  by (simp add: rd_def nth_append)

lemma rd_after: "rd (pre @ d # post) (length pre) = Some d"
  by (simp add: rd_def)

lemma rd_after_mid: "rd (pre @ w @ d # post) (length pre + length w) = Some d"
  using rd_after [of "pre @ w" d post] by simp

lemma SkipUntilDelimiter_run:
  "list_all (\<lambda>c. \<not> isDelimiter c) w \<Longrightarrow> isDelimiter d \<Longrightarrow>
    SkipUntilDelimiter (pre @ w @ d # post) (length pre) = Some (length pre + length w)"
proof (induction w arbitrary: pre)
  case Nil
  then show ?case by (subst SkipUntilDelimiter.simps) (simp add: rd_after)
next
  case (Cons c w)
  then show ?case using Cons.IH [of "pre @ [c]"]
    by (subst SkipUntilDelimiter.simps) (simp add: rd_after)
qed

lemma lex_identifier_loop_run:
  "list_all (\<lambda>c. \<not> isDelimiter c) w \<Longrightarrow> isDelimiter d \<Longrightarrow>
    lex_identifier_loop (pre @ w @ d # post) (length pre) s
      = Some (length pre + length w, s \<and> list_all isExtendedAlphabet w)"
proof (induction w arbitrary: pre s)
  case Nil
  then show ?case by (subst lex_identifier_loop.simps) (simp add: rd_after)
next
  case (Cons c w)
  then show ?case using Cons.IH [of "pre @ [c]" "s \<and> isExtendedAlphabet c"]
    by (subst lex_identifier_loop.simps) (simp add: rd_after conj_assoc)
qed

lemma string_literal_end_run:
  "list_all (\<lambda>c. c \<noteq> t \<and> c \<noteq> CHR 0x5C \<and> c \<noteq> NUL) w \<Longrightarrow> 
    string_literal_end (pre @ w @ t # post) (length pre) t = Some (True, length pre + length w)"
proof (induction w arbitrary: pre)
  case Nil
  then show ?case by (subst string_literal_end.simps) (simp add: rd_after)
next
  case (Cons c w)
  then show ?case using Cons.IH [of "pre @ [c]"]
    by (subst string_literal_end.simps) (simp add: rd_after)
qed

lemma skip_horizontal_run:
  "list_all isHorizontalWhitespace w \<Longrightarrow> \<not> isHorizontalWhitespace c \<Longrightarrow>
    skip_horizontal (pre @ w @ c # post) (length pre) = Some (length pre + length w)"
proof (induction w arbitrary: pre)
  case Nil
  then show ?case by (subst skip_horizontal.simps) (simp add: rd_after)
next
  case (Cons b w)
  then show ?case using Cons.IH [of "pre @ [b]"]
    by (subst skip_horizontal.simps) (simp add: rd_after)
qed

lemma skip_whitespace_run:
  "list_all isWhitespace w \<Longrightarrow> \<not> isWhitespace c \<Longrightarrow>
    skip_whitespace (pre @ w @ c # post) (length pre) = Some (length pre + length w)"
proof (induction "length w" arbitrary: pre w rule: less_induct)
  case less
  let ?h = "takeWhile isHorizontalWhitespace w" and ?r = "dropWhile isHorizontalWhitespace w"
  have w: "w = ?h @ ?r" by simp
  have h: "list_all isHorizontalWhitespace ?h" by (auto simp: list_all_iff dest: set_takeWhileD)
  have c: "\<not> isHorizontalWhitespace c" "\<not> isVerticalWhitespace c"
    using less.prems(2) by (auto simp: whitespace_iff horizontal_iff vertical_iff)
  show ?case
  proof (cases ?r)
    case Nil
    then have "list_all isHorizontalWhitespace w" using h w by (metis append_Nil2)
    then have "skip_horizontal (pre @ w @ c # post) (length pre) = Some (length pre + length w)"
      using c skip_horizontal_run by blast
    then show ?thesis using c rd_after_mid [of pre w c post]
      by (subst skip_whitespace.simps) simp
  next
    case (Cons v r)
    have "v \<in> set w" using Cons w by (metis in_set_conv_decomp)
    then have "isWhitespace v" using less.prems(1) by (auto simp: list_all_iff)
    moreover have nh: "\<not> isHorizontalWhitespace v" using Cons by (metis hd_dropWhile list.distinct(1) list.sel(1))
    ultimately have v: "isVerticalWhitespace v" by (auto simp: whitespace_iff horizontal_iff vertical_iff)
    have ws: "w = ?h @ v # r" using Cons w by simp
    have sh: "skip_horizontal (pre @ w @ c # post) (length pre) = Some (length pre + length ?h)"
      using skip_horizontal_run [OF h nh, of pre "r @ c # post"] ws by (metis append.assoc append_Cons)
    have rv: "rd (pre @ w @ c # post) (length pre + length ?h) = Some v"
      using rd_after_mid [of pre ?h v "r @ c # post"] ws by (metis append.assoc append_Cons)
    have len: "length w = length ?h + 1 + length r" using arg_cong [OF ws, of length] by simp
    have "list_all isWhitespace r" using less.prems(1) ws by (metis list_all_append list.pred_inject(2))
    then have "skip_whitespace ((pre @ ?h @ [v]) @ r @ c # post) (length (pre @ ?h @ [v]))
        = Some (length (pre @ ?h @ [v]) + length r)"
      using len less.hyps [of r "pre @ ?h @ [v]"] less.prems(2) by simp
    moreover have e: "pre @ w @ c # post = (pre @ ?h @ [v]) @ r @ c # post"
      using ws by (metis append.assoc append_Cons append_Nil)
    ultimately have "skip_whitespace (pre @ w @ c # post) (length pre + length ?h + 1)
        = Some (length pre + length w)"
      unfolding e using len by (simp add: add.assoc)
    then show ?thesis using sh rv v by (subst skip_whitespace.simps) simp
  qed
qed

section \<open>One token\<close>

definition starts_token :: "string \<Rightarrow> bool" where
  "starts_token w \<longleftrightarrow> w \<noteq> [] \<and> \<not> isWhitespace (hd w) \<and> hd w \<noteq> CHR '';''
     \<and> \<not> (hd w = CHR ''#'' \<and> (tl w = [] \<or> hd (tl w) = CHR ''|''))"

lemma TryProcessComment_none:
  assumes "Buffer L = pre @ w @ post" and "starts_token w"
  shows "TryProcessComment L (length pre) = Some (False, L, length pre)"
proof -
  obtain c v where w: "w = c # v" using assms(2) by (cases w) (auto simp: starts_token_def)
  have "rd (Buffer L) (length pre) = Some c" using assms(1) w by (simp add: rd_after)
  moreover have "rd (Buffer L) (length pre + 1) = Some (hd v)" if "c = CHR ''#''"
    using assms w that rd_mid [of 1 w pre post] by (cases v) (auto simp: starts_token_def)
  ultimately show ?thesis using assms(2) w by (auto simp: TryProcessComment_def at2_def starts_token_def)
qed

lemma lex_skip_text:
  assumes B: "Buffer L = pre @ ws @ w @ post" and ws: "list_all isWhitespace ws"
    and st: "starts_token w" and ptr: "BufferPtr L = length pre"
  shows "lex_skip L (length pre) = Some (L\<lparr>BufferPtr := length pre + length ws\<rparr>, length pre + length ws)"
proof -
  obtain c v where w: "w = c # v" "\<not> isWhitespace c" using st by (cases w) (auto simp: starts_token_def)
  have "ProcessWhitespace L (length pre)
      = Some (L\<lparr>BufferPtr := length pre + length ws\<rparr>, length pre + length ws)"
  proof (cases ws)
    case Nil
    have "L\<lparr>BufferPtr := length pre\<rparr> = L" using ptr by (cases L) simp
    then show ?thesis using Nil B w by (simp add: ProcessWhitespace_def rd_after)
  next
    case (Cons s t)
    then show ?thesis using B w ws skip_whitespace_run [OF ws w(2), of pre "v @ post"]
      by (simp add: ProcessWhitespace_def rd_after)
  qed
  moreover have "TryProcessComment (L\<lparr>BufferPtr := length pre + length ws\<rparr>) (length (pre @ ws))
      = Some (False, L\<lparr>BufferPtr := length pre + length ws\<rparr>, length (pre @ ws))"
    using B st by (intro TryProcessComment_none [of _ _ w post]) simp_all
  ultimately show ?thesis by (subst lex_skip.simps) simp
qed

text \<open>The result of reading the text \<open>w\<close> that starts at \<open>p\<close>.\<close>

definition token_at :: "lexer \<Rightarrow> nat \<Rightarrow> string \<Rightarrow> TokenKind \<Rightarrow> lexer \<times> token" where
  "token_at L p w K = (L\<lparr>BufferPtr := p + length w\<rparr>,
     \<lparr>Loc = getSourceLocation L p, Kind = K, LitBegin = Some p, LiteralData = w\<rparr>)"

lemma FormToken_text:
  "Buffer L = pre @ w @ post \<Longrightarrow> BufferPtr L = length pre \<Longrightarrow>
    FormTokenWithChars L (length pre + length w) K = token_at L (length pre) w K"
  by (simp add: FormTokenWithChars_def token_at_def text_range_def)

lemma lexeme_starts_token: "lexeme_valid x \<Longrightarrow> starts_token (lexeme_text x)"
proof (cases x)
  case (LxSymbol s)
  assume "lexeme_valid x"
  then show ?thesis using LxSymbol initial_plain [of "hd s"] not_delimiter_plain [of "hd s"]
    by (auto simp: starts_token_def)
next
  case (LxNumber s)
  assume "lexeme_valid x"
  then show ?thesis using LxNumber not_delimiter_plain [of "hd s"] digit_plain [of "hd s"]
    by (auto simp: starts_token_def list_all_iff)
qed (auto simp: starts_token_def whitespace_iff)


section \<open>Every lexeme is read back\<close>

lemma Lex_lexeme_at:
  assumes v: "lexeme_valid x" and d: "isDelimiter d"
    and B: "Buffer L = pre @ lexeme_text x @ d # post" and ptr: "BufferPtr L = length pre"
    and skip: "lex_skip L0 (BufferPtr L0) = Some (L, length pre)"
  shows "Lex L0 = Some (token_at L (length pre) (lexeme_text x) (lexeme_kind x))"
proof -
  note form = FormToken_text [OF B ptr]
  obtain c w where tx: "lexeme_text x = c # w" using lexeme_starts_token [OF v]
    by (cases "lexeme_text x") (auto simp: starts_token_def)
  have B1: "Buffer L = (pre @ [c]) @ w @ d # post" using B tx by simp
  have r: "rd (Buffer L) (length pre) = Some c" using B tx by (simp add: rd_after)
  have r1: "rd (Buffer L) (Suc (length pre)) = Some (if w = [] then d else hd w)"
    unfolding B1 by (cases w) (auto simp: rd_def nth_append)
  have r2: "rd (Buffer L) (Suc (Suc (length pre))) = Some d" if "length w = 1"
    unfolding B1 using that rd_after_mid [of "pre @ [c]" w d post] by simp
  have d_plain: "d \<noteq> CHR ''@''" using d by (auto simp: isDelimiter_def whitespace_iff NUL_def)
  have end_pos: "length (pre @ [c]) + length w = length pre + length (lexeme_text x)"
    using tx by simp
  show ?thesis
  proof (cases x)
    case (LxSymbol s)
    then have s: "s = c # w" and i: "isInitialChar c" and e: "list_all isExtendedAlphabet w"
      using v tx by auto
    have "lex_identifier_loop (Buffer L) (Suc (length pre)) True
        = Some (length pre + length (lexeme_text x), True)"
      using lex_identifier_loop_run [of w d "pre @ [c]" post True] e d extended_plain end_pos B1
      by (simp add: list_all_iff)
    then show ?thesis
      using initial_plain [OF i] i skip r form LxSymbol
      by (auto simp: Lex_def LexIdentifier_def FormIdentifier_def single_char_kind_def isDelimiter_def)
  next
    case (LxNumber s)
    then have s: "s = c # w" and i: "c \<in> set digits" and e: "list_all (\<lambda>c. \<not> isDelimiter c) w"
      using v tx by auto
    have "SkipUntilDelimiter (Buffer L) (Suc (length pre)) = Some (length pre + length (lexeme_text x))"
      using SkipUntilDelimiter_run [OF e d, of "pre @ [c]" post] end_pos B1 by simp
    then show ?thesis using digit_plain [OF i] i skip r form LxNumber
      by (simp add: Lex_def LexNumber_def FormLiteral_def)
  next
    case (LxString s)
    then have s: "c = CHR 0x22" "w = s @ [CHR 0x22]" using tx by auto
    have "string_literal_end (Buffer L) (Suc (length pre)) (CHR 0x22)
        = Some (True, Suc (length pre) + length s)"
      using string_literal_end_run [of "CHR 0x22" s "pre @ [c]" "d # post"] v LxString B1 s by simp
    moreover have "rd (Buffer L) (Suc (Suc (length pre + length s))) = Some d"
      unfolding B1 using s rd_after_mid [of "pre @ [c]" w d post] by simp
    ultimately show ?thesis using skip r form LxString s
      by (simp add: Lex_def LexStringLiteral_def FormLiteral_def digits_def)
  next
    case LxOpen
    then have "c = CHR ''(''" "w = []" using tx by simp_all
    then show ?thesis using skip r form LxOpen by (simp add: Lex_def digits_def NUL_def single_char_kind_def)
  next
    case LxClose
    then have "c = CHR '')''" "w = []" using tx by simp_all
    then show ?thesis using skip r form LxClose by (simp add: Lex_def digits_def NUL_def single_char_kind_def)
  next
    case LxQuote
    then have "c = CHR 0x27" "w = []" using tx by simp_all
    then show ?thesis using skip r form LxQuote by (simp add: Lex_def digits_def NUL_def single_char_kind_def)
  next
    case LxQuasiquote
    then have "c = CHR 0x60" "w = []" using tx by simp_all
    then show ?thesis using skip r form LxQuasiquote by (simp add: Lex_def digits_def NUL_def single_char_kind_def)
  next
    case LxUnquote
    then have "c = CHR '',''" "w = []" using tx by simp_all
    then show ?thesis using skip r r1 form d_plain LxUnquote by (simp add: Lex_def digits_def NUL_def)
  next
    case LxUnquoteSplicing
    then have "c = CHR '',''" "w = ''@''" using tx by simp_all
    then show ?thesis using skip r r1 form LxUnquoteSplicing by (simp add: Lex_def digits_def NUL_def)
  next
    case LxTrue
    then have "c = CHR ''#''" "w = ''t''" using tx by simp_all
    then show ?thesis using skip r r1 r2 d form LxTrue by (simp add: Lex_def digits_def NUL_def LexSharpLiteral_def sharp_finish_def)
  next
    case LxFalse
    then have "c = CHR ''#''" "w = ''f''" using tx by simp_all
    then show ?thesis using skip r r1 r2 d form LxFalse by (simp add: Lex_def digits_def NUL_def LexSharpLiteral_def sharp_finish_def)
  next
    case LxVector
    then have "c = CHR ''#''" "w = ''(''" using tx by simp_all
    then show ?thesis using skip r r1 r2 form LxVector by (simp add: Lex_def digits_def NUL_def LexSharpLiteral_def sharp_finish_def)
  next
    case LxDatumComment
    then have "c = CHR ''#''" "w = '';''" using tx by simp_all
    then show ?thesis using skip r r1 r2 form LxDatumComment by (simp add: Lex_def digits_def NUL_def LexSharpLiteral_def sharp_finish_def)
  qed
qed

lemma Lex_lexeme_text:
  assumes "lexeme_valid x" and "isDelimiter d" and "list_all isWhitespace ws"
    and "Buffer L = pre @ ws @ lexeme_text x @ d # post" and "BufferPtr L = length pre"
  shows "Lex L = Some (token_at L (length pre + length ws) (lexeme_text x) (lexeme_kind x))"
proof -
  let ?L = "L\<lparr>BufferPtr := length pre + length ws\<rparr>"
  have "lex_skip L (BufferPtr L) = Some (?L, length (pre @ ws))"
    using lex_skip_text [OF assms(4,3) lexeme_starts_token [OF assms(1)] assms(5)] assms(5) by simp
  then have "Lex L = Some (token_at ?L (length (pre @ ws)) (lexeme_text x) (lexeme_kind x))"
    using assms by (intro Lex_lexeme_at [where post = post]) simp_all
  then show ?thesis by (simp add: token_at_def getSourceLocation_def)
qed

text \<open>
  A written lexeme is read back: from any position with any amount of whitespace before the
  lexeme and a delimiter behind it, \<open>Lex\<close> returns one token with the lexeme's kind, its location and
  exactly its text, and leaves the buffer pointer right behind it.
\<close>
theorem Lex_lexeme:
  assumes "lexeme_valid x" and "isDelimiter d" and "list_all isWhitespace ws"
    and "Buffer L = pre @ ws @ lexeme_text x @ d # post" and "BufferPtr L = length pre"
  shows "\<exists>t. Lex L = Some (L\<lparr>BufferPtr := length pre + length ws + length (lexeme_text x)\<rparr>, t)
    \<and> Kind t = lexeme_kind x \<and> LiteralData t = lexeme_text x
    \<and> LitBegin t = Some (length pre + length ws)
    \<and> Loc t = getSourceLocation L (length pre + length ws)"
  using Lex_lexeme_text [OF assms] by (simp add: token_at_def)

theorem Lex_lexeme_witness:
  "\<exists>L' t. Lex \<lparr>FileLoc = SourceLocation 7, Buffer = '' foo)'' @ [NUL], BufferPtr = 0,
     IsBlockComment = False\<rparr> = Some (L', t) \<and> LiteralData t = ''foo'' \<and> Kind t = tok_identifier"
proof -
  have "lexeme_valid (LxSymbol ''foo'')" "isDelimiter (CHR '')'')" "list_all isWhitespace '' ''"
    by (simp_all add: isInitialChar_def isExtendedAlphabet_def letters_def isDelimiter_def whitespace_iff)
  from Lex_lexeme [OF this, of "\<lparr>FileLoc = SourceLocation 7, Buffer = '' foo)'' @ [NUL], BufferPtr = 0,
     IsBlockComment = False\<rparr>" "[]" "[NUL]"] show ?thesis by auto
qed

section \<open>Sequences of lexemes\<close>

text \<open>Every lexeme followed by a space, then a newline and the NUL.\<close>

definition render :: "lexeme list \<Rightarrow> string" where
  "render xs = concat (map (\<lambda>x. lexeme_text x @ '' '') xs)"

lemma render_simps [simp]:
  "render [] = []" "render (x # xs) = lexeme_text x @ CHR '' '' # render xs"
  by (simp_all add: render_def)

lemma Lex_end:
  assumes "Buffer L = pre @ ws @ NUL # post" "BufferPtr L = length pre" "list_all isWhitespace ws"
    "\<not> IsBlockComment L"
  shows "Lex L = Some (token_at L (length pre + length ws) [] tok_eof)"
proof -
  let ?L = "L\<lparr>BufferPtr := length pre + length ws\<rparr>"
  have "lex_skip L (BufferPtr L) = Some (?L, length pre + length ws)"
    using lex_skip_text [of L pre ws "[NUL]" post] assms NUL_simps(2)
    by (simp add: starts_token_def) (simp add: NUL_def)
  moreover have "rd (Buffer L) (length pre + length ws) = Some NUL"
    unfolding assms(1) by (rule rd_after_mid)
  ultimately show ?thesis using assms(4)
    by (simp add: Lex_def NUL_def digits_def FormTokenWithChars_def token_at_def text_range_def
        getSourceLocation_def)
qed

lemma lex_all_render:
  assumes "list_all lexeme_valid xs" and "list_all isWhitespace ws" and "\<not> IsBlockComment L"
    and "Buffer L = pre @ ws @ render xs @ CHR 0x0A # NUL # post" and "BufferPtr L = length pre"
  shows "\<exists>ts. lex_all (length xs + 1) L = Some ts
    \<and> map (\<lambda>t. (Kind t, LiteralData t)) ts
      = map (\<lambda>x. (lexeme_kind x, lexeme_text x)) xs @ [(tok_eof, [])]"
  using assms
proof (induction xs arbitrary: L pre ws)
  case Nil
  have "Lex L = Some (token_at L (length pre + length (ws @ [CHR 0x0A])) [] tok_eof)"
    using Nil.prems whitespace_iff [of "CHR 0x0A"] by (intro Lex_end [where post = post]) simp_all
  then show ?case by (simp add: token_at_def eof_kinds_def)
next
  case (Cons x xs)
  let ?L = "L\<lparr>BufferPtr := length pre + length ws + length (lexeme_text x)\<rparr>"
  have "Lex L = Some (token_at L (length pre + length ws) (lexeme_text x) (lexeme_kind x))"
    using Cons.prems whitespace_iff [of "CHR '' ''"] by (intro Lex_lexeme_text [where d = "CHR '' ''"])
      (simp_all add: isDelimiter_def)
  moreover have "lexeme_kind x \<notin> eof_kinds" by (cases x) (simp_all add: eof_kinds_def)
  moreover have "\<exists>ts. lex_all (length xs + 1) ?L = Some ts
    \<and> map (\<lambda>t. (Kind t, LiteralData t)) ts
      = map (\<lambda>x. (lexeme_kind x, lexeme_text x)) xs @ [(tok_eof, [])]"
    using Cons.prems whitespace_iff [of "CHR '' ''"]
    by (intro Cons.IH [of "'' ''" _ "pre @ ws @ lexeme_text x"]) simp_all
  ultimately show ?case by (auto simp: token_at_def)
qed

text \<open>
  C2: Lexing is the inverse of writing: a source made of lexemes, each followed by a space, lexes
  to exactly these lexemes, kind and text, and the end of file.
\<close>
theorem lex_all_roundtrip:
  assumes "list_all lexeme_valid xs"
  shows "\<exists>ts. lex_all (length xs + 1) \<lparr>FileLoc = loc, Buffer = render xs @ [CHR 0x0A, NUL],
      BufferPtr = 0, IsBlockComment = False\<rparr> = Some ts
    \<and> map (\<lambda>t. (Kind t, LiteralData t)) ts
      = map (\<lambda>x. (lexeme_kind x, lexeme_text x)) xs @ [(tok_eof, [])]"
  using lex_all_render [OF assms, of "[]" _ "[]" "[]"] by simp

theorem lex_all_roundtrip_witness:
  "\<exists>ts. lex_all 4 \<lparr>FileLoc = SourceLocation 1, Buffer = ''( #t ) '' @ [CHR 0x0A, NUL],
      BufferPtr = 0, IsBlockComment = False\<rparr> = Some ts
    \<and> map Kind ts = [tok_l_paren, tok_true, tok_r_paren, tok_eof]"
proof -
  have "list_all lexeme_valid [LxOpen, LxTrue, LxClose]" by simp
  from lex_all_roundtrip [OF this, of "SourceLocation 1"] obtain ts where
    "lex_all 4 \<lparr>FileLoc = SourceLocation 1, Buffer = ''( #t ) '' @ [CHR 0x0A, NUL],
      BufferPtr = 0, IsBlockComment = False\<rparr> = Some ts"
    and "map (\<lambda>t. (Kind t, LiteralData t)) ts
      = [(tok_l_paren, ''(''), (tok_true, ''#t''), (tok_r_paren, '')''), (tok_eof, [])]"
    by (auto simp: numeral_eq_Suc)
  moreover from this have "map fst (map (\<lambda>t. (Kind t, LiteralData t)) ts)
      = [tok_l_paren, tok_true, tok_r_paren, tok_eof]" by simp
  ultimately show ?thesis by (auto simp: o_def)
qed

section \<open>Where the code departs\<close>

definition source_lexer :: "string \<Rightarrow> lexer" where
  "source_lexer s = \<lparr>FileLoc = SourceLocation 0, Buffer = s @ [NUL], BufferPtr = 0, IsBlockComment = False\<rparr>"

lemmas lexer_eval = Lex_def lex_skip.simps ProcessWhitespace_def TryProcessComment_def at2_def
  skip_line.simps block_comment.simps LexSharpLiteral_def LexIdentifier_def sharp_finish_def
  SkipUntilDelimiter.simps lex_identifier_loop.simps isPeculiarIdentifierPrefix_def
  source_lexer_def rd_def NUL_def whitespace_iff vertical_iff horizontal_iff isDelimiter_def
  FormTokenWithChars_def FormIdentifier_def FormLiteral_def text_range_def

text \<open>A line comment that ends the file without a newline is read past the end of the buffer.\<close>

lemma line_comment_overread: "Lex (source_lexer '';x'') = None"
  by (simp add: lexer_eval)

text \<open>A block comment right before a token becomes part of the token's text.\<close>

lemma block_comment_in_text:
  "map_option (\<lambda>(L, t). (Kind t, LiteralData t)) (Lex (source_lexer ''#|c|#foo ''))
     = Some (tok_identifier, ''#|c|#foo'')"
  by (simp add: lexer_eval isInitialChar_def isExtendedAlphabet_def letters_def digits_def
      single_char_kind_def)

text \<open>Two nested comments without a byte between them: the outer comment ends too early.\<close>

lemma adjacent_nested_comments:
  "map_option (\<lambda>(L, p). (p, drop p (Buffer L))) (lex_skip (source_lexer ''#|#||##||#|#'') 0)
     = Some (10, ''|#'' @ [NUL])"
  by (simp add: lexer_eval)

end
