(* ===== verification/PrefixCode.thy ===== *)
theory PrefixCode
  imports Prelude
begin

text \<open>
  The contract that the self-delimiting encodings of the program share (UTF-8 code points, name
  segments of mangled names, frame headers): the decoder reads one encoded item from the front of
  any longer input and leaves the rest. A client that writes a sequence of items and reads it back
  needs nothing else; the consequences are proved once here and reached by interpretation.
\<close>

locale prefix_code =
  fixes enc :: "'a \<Rightarrow> 'b list"
    and dec :: "'b list \<Rightarrow> ('a \<times> 'b list) option"
    and valid :: "'a \<Rightarrow> bool"
  assumes dec_enc: "valid x \<Longrightarrow> dec (enc x @ rest) = Some (x, rest)"
    and enc_nonempty: "valid x \<Longrightarrow> enc x \<noteq> []"
begin

fun dec_all :: "nat \<Rightarrow> 'b list \<Rightarrow> 'a list option" where
  "dec_all n [] = Some []"
| "dec_all 0 s = None"
| "dec_all (Suc n) s =
     (case dec s of None \<Rightarrow> None | Some (x, r) \<Rightarrow> map_option ((#) x) (dec_all n r))"

lemma enc_prefix_free:
  assumes "valid x" "valid y" "enc x @ r = enc y @ r'"
  shows "x = y \<and> r = r'"
proof -
  have "Some (x, r) = Some (y, r')"
    unfolding dec_enc [OF assms(1), of r, symmetric] assms(3) by (rule dec_enc [OF assms(2)])
  then show ?thesis by simp
qed

lemma enc_inject: "valid x \<Longrightarrow> valid y \<Longrightarrow> enc x = enc y \<Longrightarrow> x = y"
  using enc_prefix_free [of x y "[]" "[]"] by simp

lemma dec_all_step: "valid x \<Longrightarrow> dec_all (Suc n) (enc x @ s) = map_option ((#) x) (dec_all n s)"
  using enc_nonempty [of x] dec_enc [of x s] by (cases "enc x @ s") auto

lemma dec_all_enc:
  "list_all valid xs \<Longrightarrow> length xs \<le> n \<Longrightarrow> dec_all n (concat (map enc xs)) = Some xs"
proof (induction xs arbitrary: n)
  case (Cons x xs)
  then obtain m where "n = Suc m" by (cases n) auto
  with Cons show ?case by (simp add: dec_all_step del: dec_all.simps)
qed simp

lemma enc_list_inject:
  assumes "list_all valid xs" "list_all valid ys" "concat (map enc xs) = concat (map enc ys)"
  shows "xs = ys"
proof -
  let ?n = "max (length xs) (length ys)"
  have "dec_all ?n (concat (map enc xs)) = Some xs" "dec_all ?n (concat (map enc ys)) = Some ys"
    by (rule dec_all_enc, use assms in simp, simp)+
  then show ?thesis unfolding assms(3) by simp
qed

lemma enc_list_length:
  assumes "list_all valid xs"
  shows "length xs \<le> length (concat (map enc xs))"
  using assms
proof (induction xs)
  case (Cons x xs)
  then show ?case using enc_nonempty [of x] by (cases "enc x") auto
qed simp

lemma dec_all_enc_length:
  assumes "list_all valid xs"
  shows "dec_all (length (concat (map enc xs))) (concat (map enc xs)) = Some xs"
  by (rule dec_all_enc [OF assms enc_list_length [OF assms]])

end

end
