(* ===== verification/Utf8.thy ===== *)
theory Utf8
  imports PrefixCode
begin

text \<open>
  The UTF-8 view and the hexadecimal codes of \<open>schir/lib/Builtins.cpp\<close> (namespace \<open>detail\<close>).
  A \<open>char\<close> stands for a byte; \<open>byte\<close> is its value as the 32-bit word the code computes with.
\<close>

definition byte :: "char \<Rightarrow> u32" where
  "byte c = of_char c"

definition to_char :: "u32 \<Rightarrow> char" where
  "to_char w = char_of (unat w)"

text \<open>
  \<open>Position + k < End\<close> is \<open>k < length s\<close> and the masks test the byte \<open>*(Position + k)\<close>; the
  result \<open>(0, 0)\<close> stands for an invalid sequence.
\<close>

definition byte_at :: "string \<Rightarrow> nat \<Rightarrow> u32" where
  "byte_at s k = byte (s ! k)"

definition continuation :: "string \<Rightarrow> nat \<Rightarrow> bool" where
  "continuation s k = (byte_at s k AND 0xC0 = 0x80)"

definition codepoint2 :: "string \<Rightarrow> u32" where
  "codepoint2 s = push_bit 6 (byte_at s 0 AND 0x1F) OR (byte_at s 1 AND 0x3F)"

definition codepoint3 :: "string \<Rightarrow> u32" where
  "codepoint3 s = push_bit 12 (byte_at s 0 AND 0x0F) OR push_bit 6 (byte_at s 1 AND 0x3F)
     OR (byte_at s 2 AND 0x3F)"

definition codepoint4 :: "string \<Rightarrow> u32" where
  "codepoint4 s = push_bit 18 (byte_at s 0 AND 0x07) OR push_bit 12 (byte_at s 1 AND 0x3F)
     OR push_bit 6 (byte_at s 2 AND 0x3F) OR (byte_at s 3 AND 0x3F)"

definition decode_front :: "string \<Rightarrow> u32 \<times> nat" where
  "decode_front s = (
     if 0 < length s \<and> byte_at s 0 AND 0x80 = 0 then (byte_at s 0, 1)
     else if 1 < length s \<and> byte_at s 0 AND 0xE0 = 0xC0 \<and> continuation s 1 \<and> 0x80 \<le> codepoint2 s
     then (codepoint2 s, 2)
     else if 2 < length s \<and> byte_at s 0 AND 0xF0 = 0xE0 \<and> continuation s 1 \<and> continuation s 2
       \<and> 0x800 \<le> codepoint3 s \<and> (codepoint3 s < 0xD800 \<or> 0xDFFF < codepoint3 s)
     then (codepoint3 s, 3)
     else if 3 < length s \<and> byte_at s 0 AND 0xF8 = 0xF0 \<and> continuation s 1 \<and> continuation s 2 \<and> continuation s 3
       \<and> 0x10000 \<le> codepoint4 s \<and> codepoint4 s \<le> 0x10FFFF
     then (codepoint4 s, 4)
     else (0, 0))"

definition drop_front :: "string \<Rightarrow> (u32 \<times> string) option" where
  "drop_front s = (case decode_front s of (codepoint, len) \<Rightarrow>
     if len = 0 then None else Some (codepoint, drop len s))"

definition encode_utf8 :: "u32 \<Rightarrow> string" where
  "encode_utf8 u = (
     if u \<le> 0x7F then [to_char (u AND 0x7F)]
     else if u \<le> 0x7FF then
       [to_char (0xC0 OR drop_bit 6 (u AND 0x7C0)), to_char (0x80 OR (u AND 0x3F))]
     else if u \<le> 0xFFFF then
       [to_char (0xE0 OR drop_bit 12 (u AND 0xF000)),
        to_char (0x80 OR drop_bit 6 (u AND 0xFC0)), to_char (0x80 OR (u AND 0x3F))]
     else if u \<le> 0x10FFFF then
       [to_char (0xF0 OR drop_bit 18 (u AND 0x1F0000)),
        to_char (0x80 OR drop_bit 12 (u AND 0x3F000)),
        to_char (0x80 OR drop_bit 6 (u AND 0xFC0)), to_char (0x80 OR (u AND 0x3F))]
     else [])"

definition hex_digits :: string where
  "hex_digits = ''0123456789ABCDEF''"

text \<open>The loop of \<open>encode_hex\<close>; \<open>Result\<close> is the output vector, empty when the loop starts.\<close>

definition encode_hex_step :: "u32 \<Rightarrow> nat \<Rightarrow> string \<Rightarrow> string" where
  "encode_hex_step Code i Result = (
     let Digit = unat (drop_bit (4 * (7 - i)) Code) mod 16
     in if 0 < Digit \<or> Result \<noteq> [] \<or> i = 7 then Result @ [hex_digits ! Digit] else Result)"

definition encode_hex :: "u32 \<Rightarrow> string" where
  "encode_hex Code = fold (encode_hex_step Code) [0..<8] []"

definition toUpper :: "char \<Rightarrow> char" where
  "toUpper c = (if of_char c \<in> {97..122::nat} then char_of (of_char c - 32 :: nat) else c)"

fun find_char :: "string \<Rightarrow> char \<Rightarrow> nat option" where
  "find_char [] c = None"
| "find_char (d # ds) c = (if d = c then Some 0 else map_option Suc (find_char ds c))"

text \<open>
  The loop of \<open>from_hex\<close> from the last character on. \<open>Digit << (i * 4)\<close> is on a 64-bit
  \<open>size_t\<close> and the sum is truncated to 32 bits; for \<open>i \<ge> 16\<close> the shift is undefined in C++ (None).
\<close>

definition from_hex_step :: "string \<Rightarrow> nat \<Rightarrow> (u32 \<times> bool) option \<Rightarrow> (u32 \<times> bool) option" where
  "from_hex_step Chars i st = do {
     (Output, err) \<leftarrow> st;
     if err then Some (Output, err)
     else case find_char hex_digits (toUpper (Chars ! (length Chars - i - 1))) of
       None \<Rightarrow> Some (0, True)
     | Some Digit \<Rightarrow>
         if 16 \<le> i then None
         else Some (ucast (ucast Output + push_bit (i * 4) (of_nat Digit :: u64)), False) }"

definition from_hex :: "string \<Rightarrow> (u32 \<times> bool) option" where
  "from_hex Chars = fold (from_hex_step Chars) [0..<length Chars] (Some (0, False))"

section \<open>Bytes\<close>

lemma byte_to_char: "byte (to_char w) = take_bit 8 w"
proof -
  have "byte (to_char w) = of_nat (of_char (char_of (unat w)))"
    unfolding byte_def to_char_def by (simp only: of_nat_of_char)
  also have "\<dots> = of_nat (take_bit 8 (unat w))" by (simp add: take_bit_eq_mod)
  also have "\<dots> = take_bit 8 w" by (simp add: of_nat_take_bit)
  finally show ?thesis .
qed

lemma to_char_byte: "to_char (byte c) = c"
proof -
  have "byte c = of_nat (of_char c)"
    by (simp add: byte_def of_nat_of_char)
  then have "unat (byte c) = of_char c"
    using less_trans [OF nat_of_char_less_256, of 4294967296 c]
    by (simp add: unat_of_nat)
  then show ?thesis by (simp add: to_char_def)
qed

lemma take_byte: "take_bit 8 (byte c) = byte c"
  by (metis byte_to_char to_char_byte)

lemma to_char_eq: "to_char w = c \<longleftrightarrow> take_bit 8 w = byte c"
  by (metis byte_to_char to_char_byte to_char_def)

section \<open>Encoding and decoding\<close>

text \<open>Masks and shifts of known words are decided bit by bit.\<close>

lemmas bit_eval = byte_to_char u32_eq_iff idx32_def bit_simps

lemma encode2:
  assumes "\<not> u \<le> 0x7F" "u \<le> 0x7FF"
  shows "decode_front (encode_utf8 u @ rest) = (u, 2) \<and> length (encode_utf8 u) = 2"
proof -
  have b: "list_all (\<lambda>n. 11 \<le> n \<longrightarrow> \<not> bit u n) idx32"
    by (rule u32_bound [OF assms(2)]) simp_all
  have e: "encode_utf8 u = [to_char (0xC0 OR drop_bit 6 (u AND 0x7C0)), to_char (0x80 OR (u AND 0x3F))]"
    using assms by (simp add: encode_utf8_def)
  have cp: "codepoint2 (encode_utf8 u @ rest) = u"
    unfolding e codepoint2_def byte_at_def using b by (simp add: bit_eval)
  have t: "continuation (encode_utf8 u @ rest) 1" "byte_at (encode_utf8 u @ rest) 0 AND 0xE0 = 0xC0"
     "byte_at (encode_utf8 u @ rest) 0 AND 0x80 \<noteq> 0"
    unfolding e continuation_def byte_at_def using b by (simp_all add: bit_eval)
  have "0x80 \<le> u" using assms(1) by (simp add: word_le_nat_alt)
  then show ?thesis
    unfolding decode_front_def cp using t by (simp add: e)
qed

lemma encode3:
  assumes "\<not> u \<le> 0x7FF" "u \<le> 0xFFFF" "u < 0xD800 \<or> 0xDFFF < u"
  shows "decode_front (encode_utf8 u @ rest) = (u, 3) \<and> length (encode_utf8 u) = 3"
proof -
  have b: "list_all (\<lambda>n. 16 \<le> n \<longrightarrow> \<not> bit u n) idx32"
    by (rule u32_bound [OF assms(2)]) simp_all
  have e: "encode_utf8 u = [to_char (0xE0 OR drop_bit 12 (u AND 0xF000)),
      to_char (0x80 OR drop_bit 6 (u AND 0xFC0)), to_char (0x80 OR (u AND 0x3F))]"
    using assms by (simp add: encode_utf8_def word_le_nat_alt)
  have cp: "codepoint3 (encode_utf8 u @ rest) = u"
    unfolding e codepoint3_def byte_at_def using b by (simp add: bit_eval)
  have t: "continuation (encode_utf8 u @ rest) 1" "continuation (encode_utf8 u @ rest) 2"
     "byte_at (encode_utf8 u @ rest) 0 AND 0xF0 = 0xE0"
     "byte_at (encode_utf8 u @ rest) 0 AND 0xE0 \<noteq> 0xC0"
     "byte_at (encode_utf8 u @ rest) 0 AND 0x80 \<noteq> 0"
    unfolding e continuation_def byte_at_def using b by (simp_all add: bit_eval)
  have "0x800 \<le> u" using assms(1) by (simp add: word_le_nat_alt)
  then show ?thesis
    unfolding decode_front_def cp using t assms(3) by (simp add: e)
qed

lemma encode4:
  assumes "\<not> u \<le> 0xFFFF" "u \<le> 0x10FFFF"
  shows "decode_front (encode_utf8 u @ rest) = (u, 4) \<and> length (encode_utf8 u) = 4"
proof -
  have b: "list_all (\<lambda>n. 21 \<le> n \<longrightarrow> \<not> bit u n) idx32"
    by (rule u32_bound [OF assms(2)]) simp_all
  have e: "encode_utf8 u = [to_char (0xF0 OR drop_bit 18 (u AND 0x1F0000)),
      to_char (0x80 OR drop_bit 12 (u AND 0x3F000)), to_char (0x80 OR drop_bit 6 (u AND 0xFC0)),
      to_char (0x80 OR (u AND 0x3F))]"
    using assms by (simp add: encode_utf8_def word_le_nat_alt)
  have cp: "codepoint4 (encode_utf8 u @ rest) = u"
    unfolding e codepoint4_def byte_at_def using b by (simp add: bit_eval)
  have t: "continuation (encode_utf8 u @ rest) 1" "continuation (encode_utf8 u @ rest) 2" "continuation (encode_utf8 u @ rest) 3"
     "byte_at (encode_utf8 u @ rest) 0 AND 0xF8 = 0xF0"
     "byte_at (encode_utf8 u @ rest) 0 AND 0xF0 \<noteq> 0xE0"
     "byte_at (encode_utf8 u @ rest) 0 AND 0xE0 \<noteq> 0xC0"
     "byte_at (encode_utf8 u @ rest) 0 AND 0x80 \<noteq> 0"
    unfolding e continuation_def byte_at_def using b by (simp_all add: bit_eval)
  have "0x10000 \<le> u" using assms(1) by (simp add: word_le_nat_alt)
  then show ?thesis
    unfolding decode_front_def cp using t assms(2) by (simp add: e)
qed

lemma encode1:
  assumes "u \<le> 0x7F"
  shows "decode_front (encode_utf8 u @ rest) = (u, 1) \<and> length (encode_utf8 u) = 1"
proof -
  have b: "list_all (\<lambda>n. 7 \<le> n \<longrightarrow> \<not> bit u n) idx32"
    by (rule u32_bound [OF assms]) simp_all
  have e: "encode_utf8 u = [to_char (u AND 0x7F)]"
    using assms by (simp add: encode_utf8_def)
  have "byte_at (encode_utf8 u @ rest) 0 = u" "byte_at (encode_utf8 u @ rest) 0 AND 0x80 = 0"
    unfolding e byte_at_def using b by (simp_all add: bit_eval)
  then show ?thesis by (simp add: decode_front_def e)
qed

text \<open>The Unicode scalar values: every code point except the surrogates.\<close>

definition scalar :: "u32 \<Rightarrow> bool" where
  "scalar u \<longleftrightarrow> u \<le> 0x10FFFF \<and> (u < 0xD800 \<or> 0xDFFF < u)"

lemma decode_encode:
  assumes "scalar u"
  shows "drop_front (encode_utf8 u @ rest) = Some (u, rest) \<and> encode_utf8 u \<noteq> []"
proof -
  have "\<exists>k>0. decode_front (encode_utf8 u @ rest) = (u, k) \<and> length (encode_utf8 u) = k"
  proof -
    consider "u \<le> 0x7F" | "\<not> u \<le> 0x7F" "u \<le> 0x7FF" | "\<not> u \<le> 0x7FF" "u \<le> 0xFFFF" | "\<not> u \<le> 0xFFFF"
      by blast
    then show ?thesis
      using assms encode1 [of u rest] encode2 [of u rest] encode3 [of u rest] encode4 [of u rest]
      unfolding scalar_def by cases (metis zero_less_numeral zero_less_one)+
  qed
  then show ?thesis by (auto simp: drop_front_def)
qed

interpretation utf8: prefix_code encode_utf8 drop_front scalar
  by unfold_locales (use decode_encode in auto)

text \<open>
  The converse: an accepted sequence is the encoding of its code point, so overlong forms and
  encoded surrogates are rejected.
\<close>

lemma byte_at_high: "list_all (\<lambda>n. 8 \<le> n \<longrightarrow> \<not> bit (byte_at s k) n) idx32"
  using take_byte [of "s ! k"] by (metis (mono_tags, lifting) bit_take_bit_iff byte_at_def leD list_all_iff)

lemma take_1: "0 < length s \<Longrightarrow> take 1 s = [s ! 0]"
  by (cases s) auto

lemma take_2: "1 < length s \<Longrightarrow> take 2 s = [s ! 0, s ! 1]"
  and take_3: "2 < length s \<Longrightarrow> take 3 s = [s ! 0, s ! 1, s ! 2]"
  and take_4: "3 < length s \<Longrightarrow> take 4 s = [s ! 0, s ! 1, s ! 2, s ! 3]"
  by (simp_all add: take_nths upt_rec eval_nat_numeral)

lemma decode1:
  assumes "0 < length s" "byte_at s 0 AND 0x80 = 0"
  shows "encode_utf8 (byte_at s 0) = take 1 s \<and> byte_at s 0 \<le> 0x7F"
proof -
  have "list_all (\<lambda>n. 7 \<le> n \<longrightarrow> \<not> bit (byte_at s 0) n) idx32"
    using assms(2) byte_at_high [of s 0] by (simp add: u32_eq_iff idx32_def bit_simps)
  from bits_less [OF this] have l: "byte_at s 0 \<le> 0x7F"
    by (simp add: word_le_nat_alt word_less_nat_alt)
  have "to_char (byte_at s 0 AND 0x7F) = s ! 0"
    using assms(2) byte_at_high [of s 0] unfolding to_char_eq byte_at_def [symmetric] 
    by (simp add: u32_eq_iff idx32_def bit_simps)
  then show ?thesis using l by (simp only: encode_utf8_def take_1 [OF assms(1)] if_True simp_thms)
qed

lemma decode2:
  assumes "1 < length s" "byte_at s 0 AND 0xE0 = 0xC0" "continuation s 1" "0x80 \<le> codepoint2 s"
  shows "encode_utf8 (codepoint2 s) = take 2 s \<and> codepoint2 s \<le> 0x7FF"
proof -
  note hi = byte_at_high [of s 0] byte_at_high [of s 1]
  have "list_all (\<lambda>n. 11 \<le> n \<longrightarrow> \<not> bit (codepoint2 s) n) idx32"
    using hi by (simp add: codepoint2_def idx32_def bit_simps)
  from bits_less [OF this] have l: "codepoint2 s \<le> 0x7FF"
    by (simp add: word_le_nat_alt word_less_nat_alt)
  have "to_char (0xC0 OR drop_bit 6 (codepoint2 s AND 0x7C0)) = s ! 0"
       "to_char (0x80 OR (codepoint2 s AND 0x3F)) = s ! 1"
    using hi assms(2,3) unfolding to_char_eq byte_at_def [symmetric] continuation_def codepoint2_def
    by (simp_all add: u32_eq_iff idx32_def bit_simps)
  then show ?thesis using l assms(4) by (simp add: encode_utf8_def take_2 [OF assms(1)] word_le_nat_alt)
qed
lemma decode3:
  assumes "2 < length s" "byte_at s 0 AND 0xF0 = 0xE0" "continuation s 1" "continuation s 2"
    "0x800 \<le> codepoint3 s"
  shows "encode_utf8 (codepoint3 s) = take 3 s \<and> codepoint3 s \<le> 0xFFFF"
proof -
  note hi = byte_at_high [of s 0] byte_at_high [of s 1] byte_at_high [of s 2]
  have "list_all (\<lambda>n. 16 \<le> n \<longrightarrow> \<not> bit (codepoint3 s) n) idx32"
    using hi by (simp add: codepoint3_def idx32_def bit_simps)
  from bits_less [OF this] have l: "codepoint3 s \<le> 0xFFFF"
    by (simp add: word_le_nat_alt word_less_nat_alt)
  have "to_char (0xE0 OR drop_bit 12 (codepoint3 s AND 0xF000)) = s ! 0"
       "to_char (0x80 OR drop_bit 6 (codepoint3 s AND 0xFC0)) = s ! 1"
       "to_char (0x80 OR (codepoint3 s AND 0x3F)) = s ! 2"
    using hi assms(2-4) unfolding to_char_eq byte_at_def [symmetric] continuation_def codepoint3_def
    by (simp_all add: u32_eq_iff idx32_def bit_simps)
  then show ?thesis
    using l assms(5) by (simp add: encode_utf8_def take_3 [OF assms(1)] word_le_nat_alt)
qed

lemma decode4:
  assumes "3 < length s" "byte_at s 0 AND 0xF8 = 0xF0" "continuation s 1" "continuation s 2" "continuation s 3"
    "0x10000 \<le> codepoint4 s" "codepoint4 s \<le> 0x10FFFF"
  shows "encode_utf8 (codepoint4 s) = take 4 s"
proof -
  note hi = byte_at_high [of s 0] byte_at_high [of s 1] byte_at_high [of s 2] byte_at_high [of s 3]
  have "to_char (0xF0 OR drop_bit 18 (codepoint4 s AND 0x1F0000)) = s ! 0"
       "to_char (0x80 OR drop_bit 12 (codepoint4 s AND 0x3F000)) = s ! 1"
       "to_char (0x80 OR drop_bit 6 (codepoint4 s AND 0xFC0)) = s ! 2"
       "to_char (0x80 OR (codepoint4 s AND 0x3F)) = s ! 3"
    using hi assms(2-5) unfolding to_char_eq byte_at_def [symmetric] continuation_def codepoint4_def
    by (simp_all add: u32_eq_iff idx32_def bit_simps)
  then show ?thesis
    using assms(6,7) by (simp add: encode_utf8_def take_4 [OF assms(1)] word_le_nat_alt)
qed

lemma decode_bytes:
  assumes "decode_front s = (c, n)" "0 < n"
  shows "encode_utf8 c = take n s \<and> n \<le> length s \<and> scalar c"
proof -
  have *: "c \<le> 0x7F \<Longrightarrow> scalar c" "c \<le> 0x7FF \<Longrightarrow> scalar c"
    "c \<le> 0xFFFF \<Longrightarrow> c < 0xD800 \<or> 0xDFFF < c \<Longrightarrow> scalar c" 
    "0x10000 \<le> c \<Longrightarrow> c \<le> 0x10FFFF \<Longrightarrow> scalar c"
    by (auto simp: scalar_def word_le_nat_alt word_less_nat_alt)
  show ?thesis
    using assms * decode1 [of s] decode2 [of s] decode3 [of s] decode4 [of s]
    unfolding decode_front_def by (auto split: if_splits simp: Suc_le_eq)
qed

text \<open>
  C6: UTF-8 encoding and decoding are inverse on the scalar values.
\<close>

theorem utf8_roundtrip:
  "drop_front s = Some (c, r) \<longleftrightarrow> scalar c \<and> s = encode_utf8 c @ r"
proof
  assume "drop_front s = Some (c, r)"
  then obtain n where "decode_front s = (c, n)" "0 < n" "r = drop n s"
    by (auto simp: drop_front_def split: prod.splits if_splits)
  then show "scalar c \<and> s = encode_utf8 c @ r" using decode_bytes [of s c n] by auto
next
  assume "scalar c \<and> s = encode_utf8 c @ r"
  then show "drop_front s = Some (c, r)" using decode_encode by blast
qed

text \<open>
  \<open>encode_utf8\<close> does not look for surrogates: it writes a sequence that the decoder refuses, and
  writes nothing at all beyond the last code point.
\<close>

lemma encode_surrogate_rejected:
  "drop_front (encode_utf8 0xD800) = None" "encode_utf8 0x110000 = []"
  by code_simp+

section \<open>Hexadecimal codes\<close>

text \<open>The number a string of hexadecimal digits denotes, of any length.\<close>

fun hex_value :: "string \<Rightarrow> nat option" where
  "hex_value [] = Some 0"
| "hex_value (c # cs) =
     (case hex_value cs of None \<Rightarrow> None
      | Some v \<Rightarrow> map_option (\<lambda>d. d * 16 ^ length cs + v) (find_char hex_digits (toUpper c)))"

lemma hex_value_snoc:
  "hex_value (cs @ [c]) =
     (case hex_value cs of None \<Rightarrow> None
      | Some v \<Rightarrow> map_option (\<lambda>d. 16 * v + d) (find_char hex_digits (toUpper c)))"
  by (induction cs)
    (auto split: option.splits simp: algebra_simps map_option_case)

lemma ucast_of_nat64: "ucast (of_nat n :: u64) = (of_nat n :: u32)"
  by (simp add: unsigned_of_nat of_nat_take_bit take_bit_word_eq_self)

lemma from_hex_add:
  "ucast (ucast (of_nat v :: u32) + push_bit k (of_nat d :: u64)) = (of_nat (d * 2 ^ k + v) :: u32)"
proof -
  have *: "ucast (of_nat v :: u32) + push_bit k (of_nat d :: u64)
      = of_nat (unat (of_nat v :: u32) + d * 2 ^ k)"
    by (simp add: push_bit_eq_mult)
  show ?thesis unfolding * ucast_of_nat64 by simp
qed

lemma find_char_hex: "d < 16 \<Longrightarrow> find_char hex_digits (toUpper (hex_digits ! d)) = Some d"
proof -
  have "list_all (\<lambda>d. find_char hex_digits (toUpper (hex_digits ! d)) = Some d) [0..<16]"
    by code_simp
  then show "d < 16 \<Longrightarrow> ?thesis" by (simp add: list_all_iff)
qed

lemma from_hex_spec:
  assumes "length Chars \<le> 16"
  shows "from_hex Chars = (case hex_value Chars of None \<Rightarrow> Some (0, True)
           | Some v \<Rightarrow> Some (of_nat v, False))"
proof -
  let ?n = "length Chars"
  let ?spec = "\<lambda>cs. case hex_value cs of None \<Rightarrow> Some (0::u32, True) | Some v \<Rightarrow> Some (of_nat v, False)"
  have "fold (from_hex_step Chars) [0..<?n] (Some (0, False)) = ?spec (drop (?n - ?n) Chars)"
  proof (rule fold_upt_invar [where P = "\<lambda>i st. st = ?spec (drop (?n - i) Chars)"])
    fix i st assume i: "i < ?n" and st: "st = ?spec (drop (?n - i) Chars)"
    then have d: "drop (?n - Suc i) Chars = Chars ! (?n - i - 1) # drop (?n - i) Chars"
      by (metis Cons_nth_drop_Suc Suc_diff_Suc diff_Suc_eq_diff_pred diff_less_Suc diff_commute less_imp_diff_less
          diff_less zero_less_Suc length_greater_0_conv list.size(3) not_less_zero)
    have l: "length (drop (?n - i) Chars) = i" "\<not> 16 \<le> i" using i assms by auto
    show "from_hex_step Chars i st = ?spec (drop (?n - Suc i) Chars)"
      unfolding d st from_hex_step_def using l
      by (auto split: option.splits simp: from_hex_add power_mult mult.commute [of i 4])
  qed auto
  then show ?thesis by (simp add: from_hex_def)
qed



lemma encode_hex_value:
  "hex_value (encode_hex Code) = Some (unat Code) \<and> length (encode_hex Code) \<le> 8"
proof -
  let ?v = "unat Code"
  have "hex_value (encode_hex Code) = Some (?v div 16 ^ (8 - 8)) \<and> length (encode_hex Code) \<le> 8"
    unfolding encode_hex_def
  proof (rule fold_upt_invar [where P = "\<lambda>i R. hex_value R = Some (?v div 16 ^ (8 - i)) \<and> length R \<le> i"])
    show "hex_value [] = Some (?v div 16 ^ (8 - 0)) \<and> length [] \<le> 0"
      using unat_less_32 [of Code] by simp
  next
    fix i R assume i: "i < (8::nat)" and P: "hex_value R = Some (?v div 16 ^ (8 - i)) \<and> length R \<le> i"
    define d where "d = ?v div 16 ^ (7 - i) mod 16"
    have e: "8 - i = Suc (7 - i)" using i by simp
    have s: "?v div 16 ^ (8 - Suc i) = 16 * (?v div 16 ^ (8 - i)) + d"
      unfolding e d_def using i by (simp add: div_mult2_eq mult.commute [of 16])
    have D: "unat (drop_bit (4 * (7 - i)) Code) mod 16 = d"
      unfolding unat_drop_bit_eq by (simp add: d_def drop_bit_eq_div power_mult)
    have "d < 16" by (simp add: d_def)
    show "hex_value (encode_hex_step Code i R) = Some (?v div 16 ^ (8 - Suc i))
      \<and> length (encode_hex_step Code i R) \<le> Suc i"
      unfolding encode_hex_step_def D Let_def s
      using P \<open>d < 16\<close> by (auto simp: hex_value_snoc find_char_hex)
  qed simp
  then show ?thesis by simp
qed

lemma from_hex_encode_hex: "from_hex (encode_hex Code) = Some (Code, False)"
  using encode_hex_value [of Code] by (simp add: from_hex_spec)

lemma encode_hex_digits: "set (encode_hex Code) \<subseteq> set hex_digits \<and> encode_hex Code \<noteq> []"
proof -
  have "set (encode_hex Code) \<subseteq> set hex_digits \<and> (8 = (8::nat) \<longrightarrow> encode_hex Code \<noteq> [])"
    unfolding encode_hex_def
  proof (rule fold_upt_invar [where P = "\<lambda>i R. set R \<subseteq> set hex_digits \<and> (i = 8 \<longrightarrow> R \<noteq> [])"])
    fix i R assume i: "i < (8::nat)" and P: "set R \<subseteq> set hex_digits \<and> (i = 8 \<longrightarrow> R \<noteq> [])"
    have "hex_digits ! (d mod 16) \<in> set hex_digits" for d by (rule nth_mem) (simp add: hex_digits_def)
    then show "set (encode_hex_step Code i R) \<subseteq> set hex_digits
      \<and> (Suc i = 8 \<longrightarrow> encode_hex_step Code i R \<noteq> [])"
      using P by (auto simp: encode_hex_step_def Let_def)
  qed simp_all
  then show ?thesis by simp
qed

text \<open>
  Every code written by \<open>encode_hex\<close> is read back by \<open>from_hex\<close>.
\<close>

theorem hex_roundtrip: "from_hex (encode_hex Code) = Some (Code, False)"
  by (rule from_hex_encode_hex)

text \<open>A code of more than eight digits is not refused, it wraps around: this one is the letter A.\<close>

lemma from_hex_wraps: "from_hex ''100000041'' = Some (0x41, False)"
  by code_simp
end
