(* ===== verification/SchemeValue.thy ===== *)
theory SchemeValue
  imports Lexer Utf8 Result
begin

text \<open>
  The values that the reader builds (\<open>schir/include/schir/Value.h\<close>) and their equality
  (\<open>schir/lib/Context.cpp\<close>). Numbers of type \<open>'f\<close> are the LLVM \<open>APFloat\<close>s, which the program only
  uses through the functions of \<open>float_ops\<close>.
\<close>

text \<open>
  \<open>Int\<close>, \<open>Bool\<close>, \<open>Char\<close> and \<open>Empty\<close> are immediate; the others are objects. A \<open>VPair\<close> with a location
  is a \<open>PairWithSource\<close>; without one it is a \<open>Pair\<close>.
\<close>

datatype 'f Value =
    VEmpty | VBool bool | VInt i32 | VChar u32 | VFloat 'f | VString string
  | VSymbol string source_location | VExternName string source_location
  | VPair (Car: "'f Value") (Cdr: "'f Value") (PairLoc: "source_location option")
  | VVector "'f Value list" | VByteVector string

text \<open>The operations of \<open>APFloat\<close> that the code relies on.\<close>

record 'f float_ops =
  convertFromAPInt :: "i32 \<Rightarrow> 'f"
  convertFromString :: "string \<Rightarrow> 'f option"
  getInf :: "bool \<Rightarrow> 'f"
  getNaN :: "bool \<Rightarrow> 'f"
  float_eq :: "'f \<Rightarrow> 'f \<Rightarrow> bool"

text \<open>
  \<open>equal\<close> on two different objects (the reader only compares elements of one list): immediates and
  interned symbols by value, pairs and strings by their content, other objects by identity, and
  vectors not at all (\<open>llvm_unreachable\<close>).
\<close>

fun value_equal :: "'f float_ops \<Rightarrow> 'f Value \<Rightarrow> 'f Value \<Rightarrow> bool result" where
  "value_equal F VEmpty w = Inr (case w of VEmpty \<Rightarrow> True | _ \<Rightarrow> False)"
| "value_equal F (VBool a) w = Inr (case w of VBool b \<Rightarrow> a = b | _ \<Rightarrow> False)"
| "value_equal F (VInt a) w = Inr (case w of VInt b \<Rightarrow> a = b | _ \<Rightarrow> False)"
| "value_equal F (VChar a) w = Inr (case w of VChar b \<Rightarrow> a = b | _ \<Rightarrow> False)"
| "value_equal F (VFloat a) w = Inr (case w of VFloat b \<Rightarrow> float_eq F a b | _ \<Rightarrow> False)"
| "value_equal F (VString a) w = Inr (case w of VString b \<Rightarrow> a = b | _ \<Rightarrow> False)"
| "value_equal F (VSymbol a _) w = Inr (case w of VSymbol b _ \<Rightarrow> a = b | _ \<Rightarrow> False)"
| "value_equal F (VPair a b _) w = (case w of
       VPair c d _ \<Rightarrow>
         andThen (value_equal F a c) (\<lambda>e. if e then value_equal F b d else Inr False)
     | _ \<Rightarrow> Inr False)"
| "value_equal F (VVector _) w = (case w of VVector _ \<Rightarrow> Inl Unreachable | _ \<Rightarrow> Inr False)"
| "value_equal F (VExternName _ _) w = Inr False"
| "value_equal F (VByteVector _) w = Inr False"

text \<open>The list part of a value and its tail.\<close>

fun list_value :: "'f Value list \<Rightarrow> 'f Value \<Rightarrow> 'f Value" where
  "list_value [] t = t"
| "list_value (x # xs) t = VPair x (list_value xs t) None"

fun list_elems :: "'f Value \<Rightarrow> 'f Value list" where
  "list_elems (VPair a d l) = a # list_elems d"
| "list_elems _ = []"

fun list_tail :: "'f Value \<Rightarrow> 'f Value" where
  "list_tail (VPair a d l) = list_tail d"
| "list_tail v = v"

text \<open>A value without its source locations.\<close>

fun strip :: "'f Value \<Rightarrow> 'f Value" where
  "strip (VSymbol s l) = VSymbol s (SourceLocation 0)"
| "strip (VExternName s l) = VExternName s (SourceLocation 0)"
| "strip (VPair a d l) = VPair (strip a) (strip d) None"
| "strip (VVector xs) = VVector (map strip xs)"
| "strip v = v"

text \<open>An instance of the floating point parameter, for examples.\<close>

definition example_floats :: "int float_ops" where
  "example_floats = \<lparr>convertFromAPInt = sint, convertFromString = (\<lambda>_. None), getInf = (\<lambda>_. 0),
     getNaN = (\<lambda>_. 0), float_eq = (=)\<rparr>"

end
