(* ===== verification/ParserLiterals.thy ===== *)
theory ParserLiterals
  imports SchemeValue
begin

text \<open>
  The literals of the reader (\<open>schir/lib/Parser.cpp\<close>): number prefixes, integers, character
  constants and the escapes of string and symbol literals.
\<close>

section \<open>Numbers\<close>

text \<open>
  \<open>parseNumberPrefix\<close> on the pointer \<open>CurPtr\<close>: the result is the error flag and the three variables
  it changes. The pointer is not bounded by the token, only by the buffer.
\<close>

function parseNumberPrefix ::
  "string \<Rightarrow> nat \<Rightarrow> bool option \<Rightarrow> nat option \<Rightarrow> (bool \<times> nat \<times> bool option \<times> nat option) option"
where
  "parseNumberPrefix buf CurPtr IsExact Radix = do {
     h \<leftarrow> rd buf CurPtr;
     if h \<noteq> CHR ''#'' then Some (False, CurPtr, IsExact, Radix)
     else do {
       c \<leftarrow> rd buf (CurPtr + 1);
       let p = CurPtr + 2;
       let exactness = (if c = CHR ''e'' then Some True else if c = CHR ''i'' then Some False else None);
       let radix = (if c = CHR ''b'' then Some 2 else if c = CHR ''o'' then Some 8
                    else if c = CHR ''d'' then Some 10 else if c = CHR ''x'' then Some 16 else None);
       if exactness = None \<and> radix = None then Some (True, p, IsExact, Radix)
       else if exactness \<noteq> None \<and> IsExact \<noteq> None then Some (True, p, IsExact, Radix)
       else if radix \<noteq> None \<and> Radix \<noteq> None then Some (True, p, IsExact, Radix)
       else do {
         let e = (if exactness \<noteq> None then exactness else IsExact);
         let r = (if radix \<noteq> None then radix else Radix);
         if r \<noteq> None \<and> e \<noteq> None then Some (False, p, e, r)
         else parseNumberPrefix buf p e r } } }"
  by pat_completeness auto
termination
  by (relation "measure (\<lambda>(buf, i, e, r). length buf - i)") (auto simp: rd_Some_iff)

declare parseNumberPrefix.simps [simp del]

text \<open>\<open>llvm::hexDigitValue\<close>: all ones for a character that is no hexadecimal digit.\<close>

definition hexDigitValue :: "char \<Rightarrow> u32" where
  "hexDigitValue c =
     (let n = (of_char c :: nat)
      in if n \<in> {48..57} then of_nat (n - 48)
         else if n \<in> {65..70} then of_nat (n - 55)
         else if n \<in> {97..102} then of_nat (n - 87)
         else - 1)"

text \<open>
  The loop of \<open>tryParseInteger\<close> over the digits: \<open>None\<close> is the early return, otherwise the value and
  whether an overflow occurred. \<open>APInt\<close> arithmetic wraps around and \<open>udiv\<close>, \<open>ult\<close> are unsigned.
\<close>

fun integer_loop :: "u32 \<Rightarrow> string \<Rightarrow> u32 \<Rightarrow> bool \<Rightarrow> (u32 \<times> bool) option" where
  "integer_loop RadixVal [] Val OverflowOccurred = Some (Val, OverflowOccurred)"
| "integer_loop RadixVal (c # cs) Val OverflowOccurred = (
     let Digit = hexDigitValue c in
     if RadixVal \<le> Digit then None
     else let OldVal = Val;
              Val = OldVal * RadixVal;
              O1 = OverflowOccurred \<or> Val div RadixVal \<noteq> OldVal;
              Val = Val + Digit
          in integer_loop RadixVal cs Val (O1 \<or> Val < Digit))"

definition tryParseInteger :: "string \<Rightarrow> nat \<Rightarrow> u32 option result" where
  "tryParseInteger TokenSpan Radix =
     (if TokenSpan = [] then Inl AssertionFailed
      else
       let signed = hd TokenSpan = CHR ''+'' \<or> hd TokenSpan = CHR ''-'';
           Negate = hd TokenSpan = CHR ''-'';
           digits = (if signed then tl TokenSpan else TokenSpan)
       in Inr (case integer_loop (of_nat Radix) digits 0 False of
                 None \<Rightarrow> None
               | Some (Val, OverflowOccurred) \<Rightarrow>
                   if OverflowOccurred then None else Some (if Negate then - Val else Val)))"

section \<open>Characters\<close>

text \<open>A lone \<open>char\<close> is converted from a signed byte.\<close>

definition char_value :: "char \<Rightarrow> u32" where
  "char_value c = scast (of_char c :: u8)"

definition char_names :: "(string \<times> u32) list" where
  "char_names = [(''alarm'', 7), (''backspace'', 8), (''delete'', 0x7F), (''escape'', 0x1B),
     (''newline'', 10), (''null'', 0), (''return'', 13), (''space'', 32), (''tab'', 9)]"

text \<open>
  \<open>ParseCharConstant\<close> on the text behind the two characters that introduce it: the character, or the
  message of the error.
\<close>

definition char_constant :: "string \<Rightarrow> (string + u32) result" where
  "char_constant TokData =
     (if length TokData = 1 then Inr (Inr (char_value (hd TokData)))
      else case map_of char_names TokData of
        Some C \<Rightarrow> Inr (Inr C)
      | None \<Rightarrow>
        if TokData \<noteq> [] \<and> hd TokData = CHR ''x'' then
          andThen (of_option Unreachable (from_hex (tl TokData))) (\<lambda>(HexValue, IsError).
            if IsError then Inr (Inl ''invalid hex code'') else Inr (Inr HexValue))
        else case drop_front TokData of
            Some (C, []) \<Rightarrow> Inr (Inr C)
          | _ \<Rightarrow> Inr (Inl ''invalid character constant''))"

section \<open>Strings\<close>

definition simple_escapes :: "(char \<times> char) list" where
  "simple_escapes = [(CHR 0x5C, CHR 0x5C), (CHR 0x22, CHR 0x22), (CHR ''|'', CHR ''|''),
     (CHR ''a'', CHR 0x07), (CHR ''b'', CHR 0x08), (CHR ''t'', CHR 0x09), (CHR ''n'', CHR 0x0A),
     (CHR ''r'', CHR 0x0D)]"

text \<open>
  The loop of \<open>ParseLiteralImpl\<close> over the text between the quotes: the message of an error if there
  is one, and what \<open>LiteralResult\<close> holds then.
\<close>

function literal_loop :: "string \<Rightarrow> string \<Rightarrow> (string option \<times> string) result" where
  "literal_loop [] LiteralResult = Inr (None, LiteralResult)"
| "literal_loop (c # span) LiteralResult =
     (if c = CHR 0x5C then
        (case span of [] \<Rightarrow> Inl AssertionFailed
         | e # rest \<Rightarrow>
           (case map_of simple_escapes e of
              Some d \<Rightarrow> literal_loop rest (LiteralResult @ [d])
            | None \<Rightarrow>
              if e = CHR ''x'' then
                (case find_char rest (CHR '';'') of
                   None \<Rightarrow> Inr (Some ''char hex scalar value missing terminating semicolon'', LiteralResult)
                 | Some SemiColonPos \<Rightarrow>
                   andThen (of_option Unreachable (from_hex (take SemiColonPos rest))) (\<lambda>(HexValue, IsError).
                     if IsError then Inr (Some ''invalid utf8 codepoint'', LiteralResult)
                     else literal_loop (drop (SemiColonPos + 1) rest) (LiteralResult @ encode_utf8 HexValue)))
              else if isWhitespace e then literal_loop (dropWhile isWhitespace span) LiteralResult
              else literal_loop rest (LiteralResult @ [e])))
      else if c = CHR 0x0D \<and> span \<noteq> [] \<and> hd span = CHR 0x0A
      then literal_loop (tl span) (LiteralResult @ [CHR 0x0A])
      else literal_loop span (LiteralResult @ [c]))"
  by pat_completeness auto
termination
  by (relation "measure (\<lambda>(s, r). length s)")
    (auto intro: le_less_trans [OF length_dropWhile_le])

declare literal_loop.simps(2) [simp del]

end
