(* ===== verification/Parser.thy ===== *)
theory Parser
  imports ParserLiterals
begin

text \<open>
  The reader (\<open>schir/lib/Parser.cpp\<close>, \<open>schir/include/schir/Parser.h\<close>): its state, the token
  operations, the literals and the recursive descent over data. A member function takes the state and
  returns its result with the new state, or a fault. The recursion carries fuel, one unit per call.
\<close>

section \<open>State and results\<close>

text \<open>
  \<open>ValueResult\<close>: a null value, the undefined value that stands for an error, or a usable value.
\<close>

datatype 'f ValueResult = NoValue | UndefinedValue | Usable "'f Value"

definition isUsable :: "'f ValueResult \<Rightarrow> bool" where
  "isUsable r \<longleftrightarrow> (case r of Usable _ \<Rightarrow> True | _ \<Rightarrow> False)"

text \<open>\<open>get\<close> asserts that the result is usable.\<close>

definition get_value :: "'f ValueResult \<Rightarrow> ('f Value \<Rightarrow> 'a result) \<Rightarrow> 'a result" where
  "get_value r k = (case r of Usable v \<Rightarrow> k v | _ \<Rightarrow> Inl AssertionFailed)"

record parser =
  TheLexer :: lexer
  Tok :: token
  Terminator :: TokenKind
  IsFinished :: bool
  IsCurlyInfixEnabled :: bool
  IsNeoteric :: bool
  PrevTok :: token
  LiteralResult :: string
  ErrorMsg :: string
  ErrTok :: token
  CurStartTok :: token

definition default_token :: token where
  "default_token = \<lparr>Loc = SourceLocation 0, Kind = tok_unknown, LitBegin = None, LiteralData = []\<rparr>"

definition new_parser :: "lexer \<Rightarrow> parser" where
  "new_parser L = \<lparr>TheLexer = L, Tok = default_token, Terminator = tok_eof, IsFinished = False,
     IsCurlyInfixEnabled = False, IsNeoteric = False, PrevTok = default_token, LiteralResult = [],
     ErrorMsg = [], ErrTok = default_token, CurStartTok = default_token\<rparr>"

definition HasError :: "parser \<Rightarrow> bool" where
  "HasError P \<longleftrightarrow> ErrorMsg P \<noteq> []"

section \<open>Tokens\<close>

text \<open>
  \<open>LexToken\<close>: the loop skips the one known directive. Every turn consumes input, so as many turns
  as the buffer has bytes are enough.
\<close>

primrec lex_directives :: "nat \<Rightarrow> parser \<Rightarrow> parser result" where
  "lex_directives 0 P = Inl OutOfFuel"
| "lex_directives (Suc k) P =
     andThen (of_option BufferOverread (Lex (TheLexer P))) (\<lambda>(L, t).
       let P = P\<lparr>TheLexer := L, Tok := t\<rparr> in
       if Kind t = tok_parser_directive \<and> LiteralData t = ''#!curly-infix''
       then lex_directives k (P\<lparr>IsCurlyInfixEnabled := True\<rparr>)
       else Inr P)"

definition LexToken :: "parser \<Rightarrow> parser result" where
  "LexToken P = lex_directives (length (Buffer (TheLexer P)) + 1) P"

definition ConsumeToken :: "parser \<Rightarrow> parser result" where
  "ConsumeToken P = LexToken (P\<lparr>PrevTok := Tok P\<rparr>)"

definition CheckTerminator :: "parser \<Rightarrow> bool \<times> parser" where
  "CheckTerminator P =
     (let P = (if Kind (Tok P) = Terminator P then P\<lparr>IsFinished := True\<rparr> else P) in (IsFinished P, P))"

definition SetError :: "token \<Rightarrow> string \<Rightarrow> parser \<Rightarrow> ('f ValueResult \<times> parser) result" where
  "SetError ErrorTok Msg P =
     (let P = P\<lparr>ErrTok := ErrorTok, ErrorMsg := Msg\<rparr>;
          P = (if Kind (Tok P) = tok_eof then P\<lparr>IsFinished := True\<rparr> else snd (CheckTerminator P))
      in if \<not> IsFinished P then andThen (ConsumeToken P) (\<lambda>P. Inr (UndefinedValue, P))
         else Inr (UndefinedValue, P))"

definition TryConsumeToken :: "TokenKind \<Rightarrow> string \<Rightarrow> parser \<Rightarrow> (bool \<times> parser) result" where
  "TryConsumeToken Expected ErrMsg P =
     (if Kind (Tok P) \<noteq> Expected
      then andThen (SetError (Tok P) ErrMsg P :: (unit ValueResult \<times> parser) result)
             (\<lambda>(_, P). Inr (False, P))
      else andThen (ConsumeToken P) (\<lambda>P. Inr (True, P)))"

definition PrimeToken :: "TokenKind \<Rightarrow> parser \<Rightarrow> (bool \<times> parser) result" where
  "PrimeToken Term P =
     andThen (LexToken P) (\<lambda>P.
       let P = P\<lparr>Terminator := Term\<rparr> in
       if Term = tok_r_brace then TryConsumeToken tok_l_brace ''expecting {{'' P
       else if Term = tok_r_paren then TryConsumeToken tok_l_paren ''expecting ('' P
       else if Term = tok_r_square then TryConsumeToken tok_l_square ''expecting ['' P
       else Inr (True, P))"

definition isAttached :: "token \<Rightarrow> token \<Rightarrow> bool" where
  "isAttached t prev \<longleftrightarrow>
     (case LitBegin prev of None \<Rightarrow> False
      | Some b \<Rightarrow> LitBegin t = Some (b + length (LiteralData prev)))"

definition getClosingKind :: "token \<Rightarrow> TokenKind \<Rightarrow> TokenKind" where
  "getClosingKind StartTok Term =
     (case Kind StartTok of tok_l_paren \<Rightarrow> tok_r_paren | tok_l_brace \<Rightarrow> tok_r_brace
      | tok_l_square \<Rightarrow> tok_r_square | _ \<Rightarrow> Term)"

section \<open>Literals\<close>

definition ParseCharConstant :: "parser \<Rightarrow> ('f ValueResult \<times> parser) result" where
  "ParseCharConstant P =
     check (take 2 (LiteralData (Tok P)) = [CHR ''#'', CHR 0x5C]) (
       andThen (char_constant (drop 2 (LiteralData (Tok P)))) (\<lambda>r.
         case r of
           Inl Msg \<Rightarrow> SetError (Tok P) Msg P
         | Inr C \<Rightarrow> andThen (ConsumeToken P) (\<lambda>P. Inr (Usable (VChar C), P))))"

definition ParseNumber :: "'f float_ops \<Rightarrow> parser \<Rightarrow> ('f ValueResult \<times> parser) result" where
  "ParseNumber F P =
     (case LitBegin (Tok P) of None \<Rightarrow> Inl BufferOverread
      | Some Begin \<Rightarrow>
        let End = Begin + length (LiteralData (Tok P)) in
        andThen (of_option BufferOverread (parseNumberPrefix (Buffer (TheLexer P)) Begin None None))
          (\<lambda>(bad, Current, IsExactOpt, RadixOpt).
        if bad then SetError (Tok P) ''unsupported number prefix'' P
        else
          let TokenSpan = text_range (Buffer (TheLexer P)) Current End;
              IsExact = (case IsExactOpt of None \<Rightarrow> True | Some b \<Rightarrow> b);
              Radix = (case RadixOpt of None \<Rightarrow> 10 | Some r \<Rightarrow> r)
          in andThen (tryParseInteger TokenSpan Radix) (\<lambda>IntOpt.
        let OrigTok = Tok P in
        andThen (ConsumeToken P) (\<lambda>P.
        case IntOpt of
          Some v \<Rightarrow> Inr (Usable (if IsExact then VInt v else VFloat (convertFromAPInt F v)), P)
        | None \<Rightarrow>
          (case convertFromString F TokenSpan of
             Some x \<Rightarrow> Inr (Usable (VFloat x), P)
           | None \<Rightarrow>
             if LiteralData OrigTok = ''+inf.0'' then Inr (Usable (VFloat (getInf F False)), P)
             else if LiteralData OrigTok = ''-inf.0'' then Inr (Usable (VFloat (getInf F True)), P)
             else if LiteralData OrigTok = ''+nan.0'' then Inr (Usable (VFloat (getNaN F False)), P)
             else if LiteralData OrigTok = ''-nan.0'' then Inr (Usable (VFloat (getNaN F True)), P)
             else SetError OrigTok ''invalid numerical syntax'' P)))))"

text \<open>The result of \<open>ParseLiteralImpl\<close> is true on an error.\<close>

definition ParseLiteralImpl :: "parser \<Rightarrow> (bool \<times> parser) result" where
  "ParseLiteralImpl P =
     (let data = LiteralData (Tok P) in
      check (2 \<le> length data) (
        andThen (literal_loop (take (length data - 2) (drop 1 data)) []) (\<lambda>(err, res).
          let P = P\<lparr>LiteralResult := res\<rparr> in
          case err of
            Some Msg \<Rightarrow> andThen (SetError (Tok P) Msg P :: (unit ValueResult \<times> parser) result)
                          (\<lambda>(_, P). Inr (True, P))
          | None \<Rightarrow> andThen (ConsumeToken P) (\<lambda>P. Inr (False, P)))))"

definition ParseString :: "parser \<Rightarrow> ('f ValueResult \<times> parser) result" where
  "ParseString P = andThen (ParseLiteralImpl P) (\<lambda>(failed, P).
     Inr (if failed then UndefinedValue else Usable (VString (LiteralResult P)), P))"

definition ParseEscapedSymbol :: "parser \<Rightarrow> ('f ValueResult \<times> parser) result" where
  "ParseEscapedSymbol P = andThen (ParseLiteralImpl P) (\<lambda>(failed, P).
     Inr (if failed then UndefinedValue
          else Usable (VSymbol (LiteralResult P) (SourceLocation 0)), P))"

definition ParseSymbol :: "parser \<Rightarrow> ('f ValueResult \<times> parser) result" where
  "ParseSymbol P = (let Str = LiteralData (Tok P); L = Loc (Tok P) in
     andThen (ConsumeToken P) (\<lambda>P. Inr (Usable (VSymbol Str L), P)))"

definition ParseExternName :: "parser \<Rightarrow> ('f ValueResult \<times> parser) result" where
  "ParseExternName P = (let Str = LiteralData (Tok P); L = Loc (Tok P) in
     andThen (ConsumeToken P) (\<lambda>P. Inr (Usable (VExternName Str L), P)))"

section \<open>Curly-infix lists\<close>

text \<open>The loop that compares the operators at the odd positions with the first one.\<close>

function simple_loop :: "'f float_ops \<Rightarrow> 'f Value list \<Rightarrow> nat \<Rightarrow> bool result" where
  "simple_loop F Xs I =
     (if I < length Xs
      then andThen (value_equal F (Xs ! I) (Xs ! 1)) (\<lambda>e. if e then simple_loop F Xs (I + 2) else Inr False)
      else Inr True)"
  by pat_completeness auto
termination by (relation "measure (\<lambda>(F, Xs, I). length Xs - I)") auto

text \<open>The loop that collects the operands at the even positions, from the last to the first.\<close>

fun operand_loop :: "'f Value list \<Rightarrow> source_location \<Rightarrow> nat \<Rightarrow> 'f Value \<Rightarrow> 'f Value" where
  "operand_loop Xs L I Result =
     (if 1 < I then operand_loop Xs L (I - 2) (VPair (Xs ! (I - 2)) Result (Some L)) else Result)"

declare simple_loop.simps [simp del] operand_loop.simps [simp del]

definition is_empty :: "'f Value \<Rightarrow> bool" where
  "is_empty v \<longleftrightarrow> (case v of VEmpty \<Rightarrow> True | _ \<Rightarrow> False)"

definition MapCurlyInfixList ::
  "'f float_ops \<Rightarrow> 'f Value \<Rightarrow> source_location \<Rightarrow> 'f Value result" where
  "MapCurlyInfixList F List L =
     (let Xs = list_elems List; IsProper = is_empty (list_tail List) in
      if IsProper \<and> length Xs < 3 then Inr (if length Xs = 1 then hd Xs else List)
      else andThen (if IsProper \<and> length Xs mod 2 = 1 then simple_loop F Xs 3 else Inr False) (\<lambda>IsSimple.
        Inr (if IsSimple
             then VPair (Xs ! 1) (operand_loop Xs L (length Xs + 1) VEmpty) (Some L)
             else VPair (VSymbol ''$nfx$'' L) List (Some L))))"

text \<open>\<open>CreateByteVector\<close> on the elements of a bytevector literal.\<close>

definition byte_of_value :: "'f Value \<Rightarrow> char" where
  "byte_of_value v = (case v of VInt i \<Rightarrow> to_char i | _ \<Rightarrow> NUL)"

definition valid_byte :: "'f Value \<Rightarrow> bool" where
  "valid_byte v = (case v of VInt i \<Rightarrow> \<not> (sint i < 0 \<or> 255 < sint i) | _ \<Rightarrow> False)"

section \<open>The grammar\<close>

text \<open>
  The mutually recursive members of the parser. Each is a definition over \<open>self\<close>, the parser with one
  unit of fuel less, which it calls through the datatype \<open>call\<close>; \<open>parse\<close> ties the knot. The loop that
  discards commented data, which the source repeats in lists and vectors, is the call
  \<open>CallSkipComments\<close>.
\<close>

datatype 'f call =
    CallExpr token
  | CallDatum token
  | CallExprAbbrev token string
  | CallListStart 
  | CallListBody token
  | CallSkipComments token
  | CallList token
  | CallDottedCdr token
  | CallNeotericExpr token
  | CallNeotericSuffix "'f Value"
  | CallCurlyInfixListStart 
  | CallCurlyInfixList token
  | CallVectorStart bool
  | CallVector token "'f Value list" bool

type_synonym 'f self = "'f call \<Rightarrow> parser \<Rightarrow> ('f ValueResult \<times> parser) result"

definition ParseExpr ::
  "'f self \<Rightarrow> token \<Rightarrow> parser \<Rightarrow> ('f ValueResult \<times> parser) result"
where
  "ParseExpr self StartTok P =
     (if IsNeoteric P then self (CallNeotericExpr StartTok) P else self (CallDatum StartTok) P)"

definition ParseDatum ::
  "'f float_ops \<Rightarrow> 'f self \<Rightarrow> token \<Rightarrow> parser \<Rightarrow> ('f ValueResult \<times> parser) result"
where
  "ParseDatum F self StartTok P =
     (case Kind (Tok P) of
        tok_l_paren \<Rightarrow> self CallListStart P
      | tok_l_brace \<Rightarrow>
          if IsCurlyInfixEnabled P then self CallCurlyInfixListStart P
          else SetError (Tok P) ''curly-infix is not enabled (use #!curly-infix)'' P
      | tok_vector_lparen \<Rightarrow> self (CallVectorStart False) P
      | tok_bytevector_lparen \<Rightarrow> self (CallVectorStart True) (P\<lparr>CurStartTok := Tok P\<rparr>)
      | tok_numeric_constant \<Rightarrow> ParseNumber F P
      | tok_identifier \<Rightarrow> ParseSymbol P
      | tok_relaxed_identifier \<Rightarrow> ParseSymbol P
      | tok_extern_name \<Rightarrow> ParseExternName P
      | tok_char_constant \<Rightarrow> ParseCharConstant P
      | tok_true \<Rightarrow> andThen (ConsumeToken P) (\<lambda>P. Inr (Usable (VBool True), P))
      | tok_false \<Rightarrow> andThen (ConsumeToken P) (\<lambda>P. Inr (Usable (VBool False), P))
      | tok_string_literal \<Rightarrow> ParseString P
      | tok_symbol_literal \<Rightarrow> ParseEscapedSymbol P
      | tok_quote \<Rightarrow> self (CallExprAbbrev StartTok ''quote'') P
      | tok_quasiquote \<Rightarrow> self (CallExprAbbrev StartTok ''quasiquote'') P
      | tok_unquote \<Rightarrow> self (CallExprAbbrev StartTok ''unquote'') P
      | tok_unquote_splicing \<Rightarrow> self (CallExprAbbrev StartTok ''unquote-splicing'') P
      | tok_r_paren \<Rightarrow> SetError (Tok P) ''extraneous closing paren (')')'' P
      | tok_r_square \<Rightarrow> SetError (Tok P) ''extraneous closing bracket (']')'' P
      | tok_r_brace \<Rightarrow> SetError (Tok P) ''extraneous closing brace ('}')'' P
      | tok_comment_datum \<Rightarrow>
          andThen (ConsumeToken P) (\<lambda>P.
          andThen (self (CallExpr StartTok) P) (\<lambda>(_, P).
          if Kind (Tok P) = tok_eof \<or> Kind (Tok P) = Terminator P then Inr (NoValue, P)
          else self (CallExpr StartTok) P))
      | tok_eof \<Rightarrow> SetError StartTok ''unexpected end of file (missing closing parentheses)'' P
      | tok_string_literal_eof \<Rightarrow>
          (let P = P\<lparr>IsFinished := True\<rparr> in SetError (Tok P) ''unterminated string literal'' P)
      | tok_block_comment_eof \<Rightarrow>
          (let P = P\<lparr>IsFinished := True\<rparr> in SetError (Tok P) ''unterminated block comment'' P)
      | tok_parser_directive \<Rightarrow> SetError (Tok P) ''unsupported parser directive'' P
      | _ \<Rightarrow> SetError (Tok P) ''expected expression'' P)"

definition ParseExprAbbrev ::
  "'f self \<Rightarrow> token \<Rightarrow> string \<Rightarrow> parser \<Rightarrow> ('f ValueResult \<times> parser) result"
where
  "ParseExprAbbrev self StartTok Name P =
     (let Abbrev = Tok P in
      andThen (ConsumeToken P) (\<lambda>P.
      andThen (self (CallExpr StartTok) P) (\<lambda>(Result, P).
      if \<not> isUsable Result \<and> \<not> HasError P then SetError Abbrev ''expected expression'' P
      else if \<not> isUsable Result then Inr (Result, P)
      else get_value Result (\<lambda>v.
        let L = Loc Abbrev in
        Inr (Usable (VPair (VSymbol Name L) (VPair v VEmpty None) (Some L)), P)))))"

definition ParseListStart ::
  "'f self \<Rightarrow> parser \<Rightarrow> ('f ValueResult \<times> parser) result"
where
  "ParseListStart self P =
     check (Kind (Tok P) = tok_l_paren) (
       let StartTok = Tok P in
       andThen (ConsumeToken P) (\<lambda>P. self (CallListBody StartTok) P))"

definition ParseListBody ::
  "'f self \<Rightarrow> token \<Rightarrow> parser \<Rightarrow> ('f ValueResult \<times> parser) result"
where
  "ParseListBody self StartTok P =
     (if IsNeoteric P \<and> Kind (Tok P) = tok_period then self (CallDottedCdr StartTok) P
      else self (CallList StartTok) P)"

definition skip_datum_comments ::
  "'f self \<Rightarrow> token \<Rightarrow> parser \<Rightarrow> ('f ValueResult \<times> parser) result"
where
  "skip_datum_comments self StartTok P =
     (if Kind (Tok P) = tok_comment_datum
      then andThen (ConsumeToken P) (\<lambda>P.
           andThen (self (CallExpr StartTok) P) (\<lambda>(_, P). self (CallSkipComments StartTok) P))
      else Inr (NoValue, P))"

definition ParseList ::
  "'f self \<Rightarrow> token \<Rightarrow> parser \<Rightarrow> ('f ValueResult \<times> parser) result"
where
  "ParseList self StartTok P =
     (let CurTok = Tok P in
      andThen (self (CallSkipComments StartTok) P) (\<lambda>(_, P).
      if Kind (Tok P) = getClosingKind StartTok (Terminator P)
      then andThen (ConsumeToken P) (\<lambda>P. Inr (Usable VEmpty, P))
      else
        andThen (self (CallExpr StartTok) P) (\<lambda>(Car, P).
        if \<not> isUsable Car then Inr (Car, P)
        else
          andThen (if Kind (Tok P) = tok_period then self (CallDottedCdr StartTok) P
                   else self (CallList StartTok) P) (\<lambda>(Cdr, P).
          if \<not> isUsable Cdr then Inr (Cdr, P)
          else get_value Car (\<lambda>car. get_value Cdr (\<lambda>cdr.
            Inr (Usable (VPair car cdr (Some (Loc CurTok))), P)))))))"

definition ParseDottedCdr ::
  "'f self \<Rightarrow> token \<Rightarrow> parser \<Rightarrow> ('f ValueResult \<times> parser) result"
where
  "ParseDottedCdr self StartTok P =
     check (Kind (Tok P) = tok_period) (
       andThen (ConsumeToken P) (\<lambda>P.
       let DotTok = Tok P in
       andThen (self (CallExpr StartTok) P) (\<lambda>(Cdr, P).
       if Kind (Tok P) \<noteq> getClosingKind StartTok (Terminator P)
       then SetError DotTok ''invalid dot notation'' P
       else andThen (ConsumeToken P) (\<lambda>P. Inr (Cdr, P)))))"

definition ParseNeotericExpr ::
  "'f self \<Rightarrow> token \<Rightarrow> parser \<Rightarrow> ('f ValueResult \<times> parser) result"
where
  "ParseNeotericExpr self StartTok P =
     andThen (self (CallDatum StartTok) P) (\<lambda>(Result, P).
     if \<not> isUsable Result then Inr (Result, P)
     else get_value Result (\<lambda>v. self (CallNeotericSuffix v) P))"

definition ParseNeotericSuffix ::
  "'f self \<Rightarrow> 'f Value \<Rightarrow> parser \<Rightarrow> ('f ValueResult \<times> parser) result"
where
  "ParseNeotericSuffix self Prefix P =
     (if \<not> isAttached (Tok P) (PrevTok P) then Inr (Usable Prefix, P)
      else let OpenTok = Tok P; L = Loc OpenTok in
        (case Kind OpenTok of
           tok_l_paren \<Rightarrow>
             andThen (ConsumeToken P) (\<lambda>P.
             andThen (self (CallListBody OpenTok) P) (\<lambda>(Args, P).
             if \<not> isUsable Args then Inr (Args, P)
             else get_value Args (\<lambda>args. self (CallNeotericSuffix (VPair Prefix args (Some L))) P)))
         | tok_l_brace \<Rightarrow>
             andThen (ConsumeToken P) (\<lambda>P.
             if Kind (Tok P) = tok_r_brace
             then andThen (ConsumeToken P) (\<lambda>P.
               self (CallNeotericSuffix (VPair Prefix VEmpty (Some L))) P)
             else andThen (self (CallCurlyInfixList OpenTok) P) (\<lambda>(Arg, P).
               if \<not> isUsable Arg then Inr (Arg, P)
               else get_value Arg (\<lambda>arg.
                 self (CallNeotericSuffix (VPair Prefix (VPair arg VEmpty None) (Some L))) P)))
         | tok_l_square \<Rightarrow>
             andThen (ConsumeToken P) (\<lambda>P.
             andThen (self (CallList OpenTok) P) (\<lambda>(Args, P).
             if \<not> isUsable Args then Inr (Args, P)
             else get_value Args (\<lambda>args.
               self (CallNeotericSuffix (VPair (VSymbol ''$bracket-apply$'' L) (VPair Prefix args None) (Some L))) P)))
         | _ \<Rightarrow> Inr (Usable Prefix, P)))"

definition ParseCurlyInfixListStart ::
  "'f self \<Rightarrow> parser \<Rightarrow> ('f ValueResult \<times> parser) result"
where
  "ParseCurlyInfixListStart self P =
     check (Kind (Tok P) = tok_l_brace) (
       let StartTok = Tok P in
       andThen (ConsumeToken P) (\<lambda>P. self (CallCurlyInfixList StartTok) P))"

definition ParseCurlyInfixList ::
  "'f float_ops \<Rightarrow> 'f self \<Rightarrow> token \<Rightarrow> parser \<Rightarrow> ('f ValueResult \<times> parser) result"
where
  "ParseCurlyInfixList F self StartTok P0 =
     (let P = P0\<lparr>IsNeoteric := True\<rparr>;
          restore = (\<lambda>(r, P). Inr (r, P\<lparr>IsNeoteric := IsNeoteric P0\<rparr>))
      in if Kind (Tok P) = tok_period then andThen (self (CallDottedCdr StartTok) P) restore
         else andThen (self (CallList StartTok) P) (\<lambda>(List, P).
           if \<not> isUsable List then restore (List, P)
           else get_value List (\<lambda>list.
             andThen (MapCurlyInfixList F list (Loc StartTok)) (\<lambda>v. restore (Usable v, P)))))"

definition ParseVectorStart ::
  "'f self \<Rightarrow> bool \<Rightarrow> parser \<Rightarrow> ('f ValueResult \<times> parser) result"
where
  "ParseVectorStart self IsByteVector P =
     (let StartTok = Tok P in
      andThen (ConsumeToken P) (\<lambda>P. self (CallVector StartTok [] IsByteVector) P))"

definition ParseVector ::
  "'f self \<Rightarrow> token \<Rightarrow> 'f Value list \<Rightarrow> bool \<Rightarrow> parser \<Rightarrow> ('f ValueResult \<times> parser) result"
where
  "ParseVector self StartTok Xs IsByteVector P =
     andThen (self (CallSkipComments StartTok) P) (\<lambda>(_, P).
     if Kind (Tok P) = tok_r_paren
     then andThen (ConsumeToken P) (\<lambda>P.
       Inr (Usable (if IsByteVector then VByteVector (map byte_of_value Xs) else VVector Xs), P))
     else
       let ExprTok = Tok P in
       andThen (self (CallExpr StartTok) P) (\<lambda>(Result, P).
       if \<not> isUsable Result then Inr (Result, P)
       else get_value Result (\<lambda>v.
         if IsByteVector \<and> \<not> valid_byte v
         then SetError ExprTok ''invalid bytevector byte literal'' P
         else self (CallVector StartTok (Xs @ [v]) IsByteVector) P)))"

primrec parse :: "'f float_ops \<Rightarrow> nat \<Rightarrow> 'f self" where
  "parse F 0 c P = Inl OutOfFuel"
| "parse F (Suc n) c P = (case c of
       CallExpr t \<Rightarrow> ParseExpr (parse F n) t P
     | CallDatum t \<Rightarrow> ParseDatum F (parse F n) t P
     | CallExprAbbrev t Name \<Rightarrow> ParseExprAbbrev (parse F n) t Name P
     | CallListStart \<Rightarrow> ParseListStart (parse F n) P
     | CallListBody t \<Rightarrow> ParseListBody (parse F n) t P
     | CallSkipComments t \<Rightarrow> skip_datum_comments (parse F n) t P
     | CallList t \<Rightarrow> ParseList (parse F n) t P
     | CallDottedCdr t \<Rightarrow> ParseDottedCdr (parse F n) t P
     | CallNeotericExpr t \<Rightarrow> ParseNeotericExpr (parse F n) t P
     | CallNeotericSuffix v \<Rightarrow> ParseNeotericSuffix (parse F n) v P
     | CallCurlyInfixListStart \<Rightarrow> ParseCurlyInfixListStart (parse F n) P
     | CallCurlyInfixList t \<Rightarrow> ParseCurlyInfixList F (parse F n) t P
     | CallVectorStart b \<Rightarrow> ParseVectorStart (parse F n) b P
     | CallVector t Xs b \<Rightarrow> ParseVector (parse F n) t Xs b P)"

text \<open>\<open>Token()\<close> is the start token at the top level; \<open>Parse\<close> passes an end-of-file token.\<close>

definition ParseTopLevelExpr ::
  "'f float_ops \<Rightarrow> nat \<Rightarrow> parser \<Rightarrow> ('f ValueResult \<times> parser) result"
where
  "ParseTopLevelExpr F n P =
     (let (finished, P) = CheckTerminator P in
      if finished then Inr (NoValue, P) else parse F n (CallExpr default_token) P)"

definition Parse ::
  "'f float_ops \<Rightarrow> nat \<Rightarrow> TokenKind \<Rightarrow> parser \<Rightarrow> ('f ValueResult \<times> parser) result"
where
  "Parse F n Term P =
     (let (finished, P) = CheckTerminator P in
      if finished then Inr (NoValue, P)
      else
        andThen (PrimeToken Term P) (\<lambda>(_, P).
        let TempTok = default_token\<lparr>Kind := tok_eof\<rparr> in
        andThen (parse F n (CallList TempTok) P) (\<lambda>(Result, P).
        Inr (Result, P\<lparr>IsFinished := True\<rparr>))))"

end
