(* ===== verification/Mangle.thy ===== *)
theory Mangle
  imports SchemeValue
begin

text \<open>
  Name mangling (\<open>schir/lib/Mangle.cpp\<close>, \<open>schir/include/schir/Mangle.h\<close>): the mangler in its
  continuation passing style and the parsers of mangled names. LLVM's Unicode and hexadecimal
  conversions are not part of the repository; they are the functions of \<open>mangle_lib\<close>.
\<close>

section \<open>Library functions\<close>

text \<open>
  \<open>convertUTF8Sequence s\<close> is the code point at the front of \<open>s\<close> with the number of bytes behind the
  first that it takes, or None for an invalid sequence; \<open>ConvertCodePointToUTF8\<close> is its inverse;
  \<open>utohexstr\<close> writes lower case hexadecimal digits; \<open>getAsInteger16\<close> reads them.
\<close>

record mangle_lib =
  convertUTF8Sequence :: "string \<Rightarrow> (u32 \<times> nat) option"
  ConvertCodePointToUTF8 :: "u32 \<Rightarrow> string option"
  utohexstr :: "u32 \<Rightarrow> string"
  getAsInteger16 :: "string \<Rightarrow> u32 option"

definition isHexDigit :: "char \<Rightarrow> bool" where
  "isHexDigit c \<longleftrightarrow> (of_char c :: nat) \<in> {48..57} \<union> {65..70} \<union> {97..102}"

definition is_digit :: "char \<Rightarrow> bool" where
  "is_digit c \<longleftrightarrow> (of_char c :: nat) \<in> {48..57}"

text \<open>The decimal digits that \<open>Twine\<close> and \<open>std::to_string\<close> write.\<close>

fun decimal :: "nat \<Rightarrow> string" where
  "decimal n = (if n < 10 then [char_of (48 + n)] else decimal (n div 10) @ [char_of (48 + n mod 10)])"

declare decimal.simps [simp del]

section \<open>Mangling\<close>

definition isSpecialChar :: "char \<Rightarrow> bool" where
  "isSpecialChar c \<longleftrightarrow> c \<notin> set letters \<union> set digits \<union> {CHR ''_''}"

definition special_codes :: "(char \<times> string) list" where
  "special_codes =
     [(CHR ''!'', ''nt''), (CHR ''$'', ''dl''), (CHR ''%'', ''rm''), (CHR ''&'', ''ad''),
      (CHR ''*'', ''ml''), (CHR ''+'', ''pl''), (CHR ''-'', ''mi''), (CHR ''.'', ''dt''),
      (CHR ''/'', ''dv''), (CHR '':'', ''cl''), (CHR ''<'', ''lt''), (CHR ''='', ''eq''),
      (CHR ''>'', ''gt''), (CHR ''?'', ''qu''), (CHR ''@'', ''at''), (CHR ''^'', ''eo''),
      (CHR ''~'', ''co'')]"

text \<open>A mangled name, or the message of the error that was raised.\<close>

type_synonym mangled = "string + string"

function (sequential)
  mangleNameSegment :: "mangle_lib \<Rightarrow> (string \<Rightarrow> mangled) \<Rightarrow> string \<Rightarrow> string \<Rightarrow> mangled" and
  mangleSpecialChar :: "mangle_lib \<Rightarrow> (string \<Rightarrow> mangled) \<Rightarrow> string \<Rightarrow> string \<Rightarrow> mangled" and
  mangleCharHexCode :: "mangle_lib \<Rightarrow> (string \<Rightarrow> mangled) \<Rightarrow> string \<Rightarrow> string \<Rightarrow> mangled"
where
  "mangleNameSegment M Cont Prefix Str =
     (if Str = [] then Cont Prefix
      else let NameSegment = takeWhile (\<lambda>c. \<not> isSpecialChar c) Str in
        if NameSegment = [] then mangleSpecialChar M Cont Prefix Str
        else mangleNameSegment M Cont
          (Prefix @ decimal (length NameSegment) @ ''S'' @ NameSegment) (drop (length NameSegment) Str))"
| "mangleSpecialChar M Cont Prefix Str =
     (if Str = [] then Cont Prefix
      else case map_of special_codes (hd Str) of
        None \<Rightarrow> mangleCharHexCode M Cont Prefix Str
      | Some Result \<Rightarrow> mangleNameSegment M Cont (Prefix @ Result) (drop 1 Str))"
| "mangleCharHexCode M Cont Prefix Str =
     (if Str = [] then Inl ''expected valid UTF-8 in name''
      else case convertUTF8Sequence M Str of
        None \<Rightarrow> Inl ''expected valid UTF-8 in name''
      | Some (CodePoint, extra) \<Rightarrow>
          mangleNameSegment M Cont (Prefix @ ''0x'' @ utohexstr M CodePoint @ ''z'') (drop (Suc extra) Str))"
  by pat_completeness auto
termination
  by (relation "measure (\<lambda>x. case x of
        Inl (M, C, P, s) \<Rightarrow> 3 * length s + 2
      | Inr (Inl (M, C, P, s)) \<Rightarrow> 3 * length s + 1
      | Inr (Inr (M, C, P, s)) \<Rightarrow> 3 * length s)")
    (auto simp: neq_Nil_conv)

declare mangleNameSegment.simps [simp del] mangleSpecialChar.simps [simp del]
  mangleCharHexCode.simps [simp del]

definition mangleName :: "mangle_lib \<Rightarrow> (string \<Rightarrow> mangled) \<Rightarrow> string \<Rightarrow> string \<Rightarrow> mangled" where
  "mangleName M Cont Prefix Str =
     (if Str = [] then Inr (Prefix @ ''N'') else mangleNameSegment M Cont Prefix Str)"

text \<open>The overload for values: symbols, strings and non-negative integers have names.\<close>

definition mangleName_value ::
  "mangle_lib \<Rightarrow> (string \<Rightarrow> mangled) \<Rightarrow> string \<Rightarrow> 'f Value \<Rightarrow> mangled"
where
  "mangleName_value M Cont Prefix Name = (case Name of
     VSymbol s _ \<Rightarrow> mangleName M Cont Prefix s
   | VString s \<Rightarrow> mangleName M Cont Prefix s
   | VInt i \<Rightarrow>
       if 0 \<le> sint i then mangleName M Cont Prefix (decimal (nat (sint i)))
       else Inl ''expected identifier or unsigned integer for name''
   | _ \<Rightarrow> Inl ''expected identifier or unsigned integer for name'')"

fun mangleModule :: "mangle_lib \<Rightarrow> string \<Rightarrow> 'f Value \<Rightarrow> mangled" where
  "mangleModule M Prefix VEmpty = Inr Prefix"
| "mangleModule M Prefix (VPair car cdr _) =
     mangleName_value M (\<lambda>Result. mangleModule M Result cdr) (Prefix @ ''L'') car"
| "mangleModule M Prefix _ = Inl ''expected library name''"

definition mangleEntity_value :: "mangle_lib \<Rightarrow> string \<Rightarrow> string \<Rightarrow> 'f Value \<Rightarrow> mangled" where
  "mangleEntity_value M EntityPrefix ModulePrefix Name =
     mangleName_value M Inr (ModulePrefix @ EntityPrefix) Name"

definition mangleEntity :: "mangle_lib \<Rightarrow> string \<Rightarrow> string \<Rightarrow> string \<Rightarrow> mangled" where
  "mangleEntity M EntityPrefix ModulePrefix Name =
     mangleName M Inr (ModulePrefix @ EntityPrefix) Name"

definition mangleVariable :: "mangle_lib \<Rightarrow> string \<Rightarrow> string \<Rightarrow> mangled" where
  "mangleVariable M ModulePrefix Name = mangleEntity M ''V'' ModulePrefix Name"

definition mangleFunction :: "mangle_lib \<Rightarrow> string \<Rightarrow> string \<Rightarrow> mangled" where
  "mangleFunction M ModulePrefix Name = mangleEntity M ''F'' ModulePrefix Name"

definition mangleAnonymousId :: "mangle_lib \<Rightarrow> string \<Rightarrow> i32 \<Rightarrow> mangled" where
  "mangleAnonymousId M ModulePrefix i = mangleEntity_value M ''A'' ModulePrefix (VInt i :: unit Value)"

definition mangleSpecialName :: "string \<Rightarrow> string \<Rightarrow> string result" where
  "mangleSpecialName ModulePrefix Name =
     check (list_all (\<lambda>c. \<not> isSpecialChar c) Name) (Inr (ModulePrefix @ ''_'' @ Name))"

definition ManglePrefix :: string where
  "ManglePrefix = ''_SCHIR''"

section \<open>Parsing\<close>

definition parseSpecialChar :: "string \<Rightarrow> char" where
  "parseSpecialChar Buf =
     (if length Buf < 2 then NUL
      else case map_of (map (\<lambda>(c, s). (s, c)) special_codes) (take 2 Buf) of
        Some c \<Rightarrow> c | None \<Rightarrow> NUL)"

definition parseCharHexCode :: "mangle_lib \<Rightarrow> string \<Rightarrow> (string \<times> u32) option" where
  "parseCharHexCode M Buf =
     (if take 2 Buf \<noteq> ''0x'' then None
      else let HexCode = takeWhile isHexDigit (drop 2 Buf);
               Input = drop (length HexCode) (drop 2 Buf)
        in if HexCode = [] \<or> Input = [] \<or> hd Input \<noteq> CHR ''z'' then None
           else case getAsInteger16 M HexCode of None \<Rightarrow> None
             | Some CodePoint \<Rightarrow> Some (tl Input, CodePoint))"

text \<open>The loop that reads a length.\<close>

fun parse_length :: "string \<Rightarrow> u64 \<Rightarrow> u64 \<times> string" where
  "parse_length [] Length = (Length, [])"
| "parse_length (c # Buf) Length =
     (if is_digit c then parse_length Buf (Length * 10 + of_nat (of_char c - 48)) else (Length, c # Buf))"

text \<open>
  \<open>consumeNameSegment\<close> and \<open>parseNameSegment\<close>: None is the result false. \<open>Buf[0]\<close> on an empty
  reference and \<open>drop_front\<close> beyond the end are failing assertions.
\<close>

definition consumeNameSegment :: "mangle_lib \<Rightarrow> string \<Rightarrow> string option result" where
  "consumeNameSegment M Buf =
     (if length Buf < 2 then Inr None
      else let c = hd Buf in
      if c = CHR ''0'' then Inr (map_option fst (parseCharHexCode M Buf))
      else if of_char c \<in> {97..122::nat} then Inr (Some (drop 2 Buf))
      else if of_char c \<in> {49..57::nat} then
        (case parse_length Buf 0 of (Length, Buf) \<Rightarrow>
          if Buf = [] then Inl AssertionFailed
          else if hd Buf \<noteq> CHR ''S'' then Inr None
          else check (unat Length \<le> length (tl Buf)) (Inr (Some (drop (unat Length) (tl Buf)))))
      else Inr (Some Buf))"

definition parseNameSegment ::
  "mangle_lib \<Rightarrow> string \<Rightarrow> string \<Rightarrow> (string \<times> string) option result"
where
  "parseNameSegment M Input Output =
     (if length Input < 2 then Inr None
      else let c = hd Input in
      if c = CHR ''0'' then
        (case parseCharHexCode M Input of None \<Rightarrow> Inr None
         | Some (Rest, CodePoint) \<Rightarrow>
           (case ConvertCodePointToUTF8 M CodePoint of None \<Rightarrow> Inr None
            | Some Buf \<Rightarrow> Inr (Some (Rest, Output @ Buf))))
      else if of_char c \<in> {97..122::nat} then Inr (Some (drop 2 Input, Output @ [parseSpecialChar Input]))
      else if of_char c \<in> {49..57::nat} then
        (case parse_length Input 0 of (Length, Input) \<Rightarrow>
          if Input = [] then Inl AssertionFailed
          else if hd Input \<noteq> CHR ''S'' then Inr None
          else check (unat Length \<le> length (tl Input))
            (Inr (Some (drop (unat Length) (tl Input), Output @ take (unat Length) (tl Input)))))
      else Inr (Some (Input, Output)))"

text \<open>The loop of \<open>parseModuleNameNode\<close>, with fuel: a segment can be accepted without progress.\<close>

primrec parse_segments :: "mangle_lib \<Rightarrow> nat \<Rightarrow> string \<Rightarrow> string \<Rightarrow> (string \<times> string) option result" where
  "parse_segments M 0 Input Output = Inl OutOfFuel"
| "parse_segments M (Suc n) Input Output =
     (if Input \<noteq> [] \<and> hd Input \<noteq> CHR ''L''
      then andThen (parseNameSegment M Input Output) (\<lambda>r.
        case r of None \<Rightarrow> Inr None
        | Some (Input, Output) \<Rightarrow> parse_segments M n Input Output)
      else Inr (Some (Input, Output)))"

definition parseModuleNameNode ::
  "mangle_lib \<Rightarrow> nat \<Rightarrow> string \<Rightarrow> string \<Rightarrow> (string \<times> string) option result"
where
  "parseModuleNameNode M n Input Output =
     (if Input = [] \<or> hd Input \<noteq> CHR ''L'' then Inr None
      else parse_segments M n (tl Input) Output)"

text \<open>
  The loop of \<open>parseModulePrefix\<close>: the ending at which it stops, or None where the code returns an
  empty reference. \<open>PrevEndingSize\<close> guards the progress.
\<close>

definition module_file :: string where
  "module_file = ''__module_file''"

lemma parse_length_le: "length (snd (parse_length s v)) \<le> length s"
  by (induction s v rule: parse_length.induct) (simp_all add: le_SucI)

lemma parseCharHexCode_le: "parseCharHexCode M s = Some (r, c) \<Longrightarrow> length r < length s"
proof -
  have "length (drop k s) \<le> length s" for k by simp
  then show "parseCharHexCode M s = Some (r, c) \<Longrightarrow> length r < length s"
    by (auto simp: parseCharHexCode_def Let_def split: if_splits option.splits)
qed

lemma consumeNameSegment_le: "consumeNameSegment M s = Inr (Some r) \<Longrightarrow> length r \<le> length s"
  using parse_length_le [of s 0]
  by (auto simp: consumeNameSegment_def Let_def dest: parseCharHexCode_le split: if_splits prod.splits)

function parse_prefix_loop :: "mangle_lib \<Rightarrow> string \<Rightarrow> nat \<Rightarrow> string option result" where
  "parse_prefix_loop M Ending PrevEndingSize =
     (if Ending = [] then Inr (Some [])
      else if length Ending = PrevEndingSize then Inr None
      else let c = hd Ending in
        if c = CHR ''V'' \<or> c = CHR ''F'' \<or> c = CHR ''A'' then Inr (Some Ending)
        else if c = CHR ''L'' then parse_prefix_loop M (tl Ending) (length Ending)
        else if c = CHR ''_'' then
          parse_prefix_loop M
            (if take (length module_file) Ending = module_file
             then drop (length module_file) Ending else Ending) (length Ending)
        else (case consumeNameSegment M Ending of
                Inl e \<Rightarrow> Inl e
              | Inr None \<Rightarrow> Inr None
              | Inr (Some Rest) \<Rightarrow> parse_prefix_loop M Rest (length Ending)))"
  by pat_completeness auto
termination
proof (relation "measure (\<lambda>(M, s, k). 2 * length s + (if length s = k then 0 else 1))", goal_cases)
  case (4 M Ending PrevEndingSize c r rest)
  then show ?case using consumeNameSegment_le [of M Ending rest] by auto
qed (auto simp: module_file_def)

declare parse_prefix_loop.simps [simp del]

text \<open>The result is the prefix of \<open>Name\<close>, empty when the name is invalid.\<close>

definition parseModulePrefix :: "mangle_lib \<Rightarrow> string \<Rightarrow> string \<Rightarrow> string result" where
  "parseModulePrefix M Name Prefix =
     check (length Prefix \<le> length Name) (
       andThen (parse_prefix_loop M (drop (length Prefix) Name) 0) (\<lambda>r.
         Inr (case r of None \<Rightarrow> [] | Some Ending \<Rightarrow> take (length Name - length Ending) Name)))"

definition isExternalVariable :: "mangle_lib \<Rightarrow> string \<Rightarrow> string \<Rightarrow> string \<Rightarrow> bool result" where
  "isExternalVariable M Prefix ModulePrefix VarName =
     (if take (length ModulePrefix) VarName \<noteq> ModulePrefix then Inr True
      else andThen (parseModulePrefix M VarName Prefix) (\<lambda>Result. Inr (Result \<noteq> ModulePrefix)))"

section \<open>Module paths\<close>

text \<open>
  The client of the module name parser, \<open>getModulePath\<close> in \<open>schir/lib/Context.cpp\<close>: the file path
  of a library. None is a raised error; the final normalisation of LLVM is the parameter
  \<open>remove_dots\<close>.
\<close>

definition checkPortableFilename :: "string \<Rightarrow> bool" where
  "checkPortableFilename Filename \<longleftrightarrow>
     list_all (\<lambda>c. of_char c \<in> {97..122::nat} \<or> of_char c \<in> {48..57::nat}
       \<or> c = CHR ''.'' \<or> c = CHR ''_'' \<or> c = CHR ''-'') Filename"

primrec module_path_loop :: "mangle_lib \<Rightarrow> nat \<Rightarrow> nat \<Rightarrow> string \<Rightarrow> string \<Rightarrow> string option result" where
  "module_path_loop M n 0 Input Output = Inl OutOfFuel"
| "module_path_loop M n (Suc k) Input Output =
     (if Input = [] then Inr (Some Output)
      else andThen (parseModuleNameNode M n Input Output) (\<lambda>r. case r of
          None \<Rightarrow> Inr None
        | Some (Input, Output') \<Rightarrow>
            if \<not> checkPortableFilename (drop (length Output) Output') then Inr None
            else module_path_loop M n k Input (Output' @ ''/'')))"

definition getModulePath :: "mangle_lib \<Rightarrow> (string \<Rightarrow> string) \<Rightarrow> nat \<Rightarrow> string \<Rightarrow> string option result" where
  "getModulePath M remove_dots n MangledName =
     (let Input = (if take (length ManglePrefix) MangledName = ManglePrefix
                   then drop (length ManglePrefix) MangledName else MangledName)
      in andThen (module_path_loop M n n Input []) (\<lambda>r. Inr (map_option remove_dots r)))"

end
