(* ===== verification/Writer.thy ===== *)
theory Writer
  imports LexerText Parser Mangle
begin

text \<open>
  The writer of values (class \<open>Writer\<close> of \<open>schir/lib/Context.cpp\<close>), on the values that the reader
  builds. What a visitor sends to the stream is its result. The Unicode classes of LLVM and the
  digits of \<open>APFloat\<close> are parameters.
\<close>

section \<open>Output\<close>

record unicode_classes =
  isPrintable :: "u32 \<Rightarrow> bool"
  isFormatting :: "u32 \<Rightarrow> bool"

record 'f float_text =
  isInfinity :: "'f \<Rightarrow> bool"
  isNaN :: "'f \<Rightarrow> bool"
  isNegative :: "'f \<Rightarrow> bool"
  toString :: "'f \<Rightarrow> string"

text \<open>One output after another; the first fault ends the writer.\<close>

definition cat :: "string result \<Rightarrow> string result \<Rightarrow> string result" where
  "cat a b = andThen a (\<lambda>s. andThen b (\<lambda>t. Inr (s @ t)))"

lemma cat_simps [simp]: "cat (Inr s) (Inr t) = Inr (s @ t)" "cat (Inl e) b = Inl e"
  by (simp_all add: cat_def)

section \<open>Atoms\<close>

text \<open>
  \<open>isIdentifier\<close> runs the lexer on the text of the symbol, which ends with the NUL that every
  string object has, without a newline before it.
\<close>

definition isIdentifier :: "string \<Rightarrow> bool result" where
  "isIdentifier Str =
     andThen (of_option BufferOverread
        (Lex \<lparr>FileLoc = SourceLocation 0, Buffer = Str @ [NUL], BufferPtr = 0, IsBlockComment = False\<rparr>))
       (\<lambda>(_, Tok). Inr (Kind Tok = tok_identifier \<and> length (LiteralData Tok) = length Str))"

text \<open>
  The escape of the first character of \<open>Str\<close> and how many bytes it consumes. A printable character
  of no bytes would never be consumed, so the loop would not end (\<open>OutOfFuel\<close>).
\<close>

definition write_escape :: "unicode_classes \<Rightarrow> char \<Rightarrow> string \<Rightarrow> string \<times> nat" where
  "write_escape U Delimiter Str =
     (let c = hd Str in
      if c = CHR 0x07 then ([CHR 0x5C, CHR ''a''], 1)
      else if c = CHR 0x08 then ([CHR 0x5C, CHR ''b''], 1)
      else if c = CHR 0x09 then ([CHR 0x5C, CHR ''t''], 1)
      else if c = CHR 0x0A then ([CHR 0x5C, CHR ''n''], 1)
      else if c = CHR 0x0D then ([CHR 0x5C, CHR ''r''], 1)
      else if c = CHR 0x22 then (if Delimiter = CHR 0x22 then [CHR 0x5C, CHR 0x22] else [CHR 0x22], 1)
      else if c = CHR 0x5C then ([CHR 0x5C, CHR 0x5C], 1)
      else if c = CHR ''|'' then (if Delimiter = CHR ''|'' then [CHR 0x5C, CHR ''|''] else ''|'', 1)
      else case decode_front Str of (Decoded, Length) \<Rightarrow>
        if isPrintable U Decoded then (take Length Str, Length)
        else (CHR 0x5C # CHR ''x'' # encode_hex Decoded @ '';'', 1))"

function write_literal_loop :: "unicode_classes \<Rightarrow> char \<Rightarrow> string \<Rightarrow> string result" where
  "write_literal_loop U Delimiter Str =
     (if Str = [] then Inr []
      else case write_escape U Delimiter Str of (out, ConsumeLen) \<Rightarrow>
        if ConsumeLen = 0 then Inl OutOfFuel
        else cat (Inr out) (write_literal_loop U Delimiter (drop ConsumeLen Str)))"
  by pat_completeness auto
termination
  by (relation "measure (\<lambda>(U, d, s). length s)") auto

declare write_literal_loop.simps [simp del]

definition WriteLiteral :: "unicode_classes \<Rightarrow> string \<Rightarrow> char \<Rightarrow> string result" where
  "WriteLiteral U Str Delimiter =
     cat (Inr [Delimiter]) (cat (write_literal_loop U Delimiter Str) (Inr [Delimiter]))"

definition VisitSymbol :: "unicode_classes \<Rightarrow> string \<Rightarrow> string result" where
  "VisitSymbol U Str = andThen (isIdentifier Str)
     (\<lambda>raw. if raw then Inr Str else WriteLiteral U Str (CHR ''|''))"

definition VisitString :: "unicode_classes \<Rightarrow> string \<Rightarrow> string result" where
  "VisitString U Str = WriteLiteral U Str (CHR 0x22)"

text \<open>The switch is on the code point converted to a \<open>char\<close>.\<close>

definition written_char_names :: "(char \<times> string) list" where
  "written_char_names = [(CHR 0x00, ''null''), (CHR 0x07, ''alarm''), (CHR 0x08, ''backspace''),
     (CHR 0x7F, ''delete''), (CHR 0x1B, ''escape''), (CHR 0x0A, ''newline''), (CHR 0x0D, ''return''),
     (CHR '' '', ''space''), (CHR 0x09, ''tab'')]"

definition VisitChar :: "unicode_classes \<Rightarrow> u32 \<Rightarrow> string" where
  "VisitChar U C = [CHR ''#'', CHR 0x5C] @
     (case map_of written_char_names (to_char C) of
        Some Name \<Rightarrow> Name
      | None \<Rightarrow>
        if isPrintable U C \<and> \<not> isFormatting U C then encode_utf8 C
        else CHR ''x'' # encode_hex C)"

definition VisitBool :: "bool \<Rightarrow> string" where
  "VisitBool V = (if V then ''#t'' else ''#f'')"

definition VisitInt :: "i32 \<Rightarrow> string" where
  "VisitInt V = (if sint V < 0 then CHR ''-'' # decimal (nat (- sint V)) else decimal (nat (sint V)))"

text \<open>A byte is written with two hexadecimal digits.\<close>

definition write_byte :: "char \<Rightarrow> string" where
  "write_byte c = (let HexCode = encode_hex (byte c)
     in ''#x'' @ (if length HexCode = 1 then CHR ''0'' # HexCode else HexCode))"

definition VisitByteVector :: "string \<Rightarrow> string" where
  "VisitByteVector Bytes = ''#u8('' @
     (case Bytes of [] \<Rightarrow> [] | c # cs \<Rightarrow> write_byte c @ concat (map (\<lambda>c. CHR '' '' # write_byte c) cs))
     @ '')''"

definition toLower :: "char \<Rightarrow> char" where
  "toLower c = (if of_char c \<in> {65..90::nat} then char_of (of_char c + 32 :: nat) else c)"

definition VisitFloat :: "'f float_text \<Rightarrow> 'f \<Rightarrow> string" where
  "VisitFloat T Val =
     (if \<not> isInfinity T Val \<and> \<not> isNaN T Val
      then let Buf = map toLower (toString T Val)
           in if CHR ''.'' \<notin> set Buf \<and> CHR ''e'' \<notin> set Buf then Buf @ ''.0'' else Buf
      else if isInfinity T Val \<and> \<not> isNegative T Val then ''+inf.0''
      else if isInfinity T Val then ''-inf.0''
      else if isNegative T Val then ''-nan.0''
      else ''+nan.0'')"

definition VisitExternName :: "string \<Rightarrow> string" where
  "VisitExternName Name = ''#_'' @ Name"

section \<open>Compound values\<close>

text \<open>\<open>VisitVector\<close>: the elements with a space between them.\<close>

fun cat_spaced :: "string result list \<Rightarrow> string result" where
  "cat_spaced [] = Inr []"
| "cat_spaced [x] = x"
| "cat_spaced (x # y # xs) = cat x (cat (Inr '' '') (cat_spaced (y # xs)))"

function Visit :: "unicode_classes \<Rightarrow> 'f float_text \<Rightarrow> 'f Value \<Rightarrow> string result"
  and VisitCdr :: "unicode_classes \<Rightarrow> 'f float_text \<Rightarrow> 'f Value \<Rightarrow> string result" where
  "Visit U T V = (case V of
       VEmpty \<Rightarrow> Inr ''()''
     | VBool b \<Rightarrow> Inr (VisitBool b)
     | VInt i \<Rightarrow> Inr (VisitInt i)
     | VChar c \<Rightarrow> Inr (VisitChar U c)
     | VFloat f \<Rightarrow> Inr (VisitFloat T f)
     | VString s \<Rightarrow> VisitString U s
     | VSymbol s _ \<Rightarrow> VisitSymbol U s
     | VExternName s _ \<Rightarrow> Inr (VisitExternName s)
     | VPair a d _ \<Rightarrow> cat (Inr ''('') (cat (Visit U T a) (VisitCdr U T d))
     | VVector Xs \<Rightarrow> cat (Inr ''#('') (cat (cat_spaced (map (Visit U T) Xs)) (Inr '')''))
     | VByteVector s \<Rightarrow> Inr (VisitByteVector s))"
| "VisitCdr U T V = (case V of
       VPair a d _ \<Rightarrow> cat (Inr '' '') (cat (Visit U T a) (VisitCdr U T d))
     | VEmpty \<Rightarrow> Inr '')''
     | _ \<Rightarrow> cat (Inr '' . '') (cat (Visit U T V) (Inr '')'')))"
  by pat_completeness auto
lemma vector_element_size: "x \<in> set xs \<Longrightarrow> size x \<le> size_list size xs"
  by (rule size_list_estimation' [of x xs "size x" size]) simp_all

termination Visit
proof (relation "measure (\<lambda>x. case x of Inl (U, T, V) \<Rightarrow> 2 * size V | Inr (U, T, V) \<Rightarrow> 2 * size V + 1)")
qed (auto dest: vector_element_size)

declare Visit.simps [simp del] VisitCdr.simps [simp del]

definition write_value :: "unicode_classes \<Rightarrow> 'f float_text \<Rightarrow> 'f Value \<Rightarrow> string result" where
  "write_value U T V = Visit U T V"

end
