(* ===== verification/WriterLex.thy ===== *)
theory WriterLex
  imports Writer
begin

text \<open>
  How the lexer reads what the writer writes: each written atom is one token, in front of any
  delimiter, with its kind and its exact text, and so are the parentheses of lists and vectors.
\<close>

section \<open>Texts that begin with a token\<close>

text \<open>
  The rest \<open>w\<close> of a buffer begins with the token \<open>u\<close> of kind \<open>K\<close>: \<open>Lex\<close> returns it from any
  position in front of it and any whitespace.
\<close>

definition begins :: "string \<Rightarrow> string \<Rightarrow> TokenKind \<Rightarrow> bool" where
  "begins w u K \<longleftrightarrow> (\<exists>r. w = u @ r) \<and> (\<forall>(L :: lexer) pre ws. list_all isWhitespace ws \<longrightarrow>
     Buffer L = pre @ ws @ w \<longrightarrow> BufferPtr L = length pre \<longrightarrow>
     Lex L = Some (token_at L (length pre + length ws) u K))"

lemma begins_Lex:
  "begins w u K \<Longrightarrow> list_all isWhitespace ws \<Longrightarrow> Buffer L = pre @ ws @ w \<Longrightarrow> BufferPtr L = length pre \<Longrightarrow>
    Lex L = Some (token_at L (length pre + length ws) u K)"
  by (simp add: begins_def)

lemma begins_unique:
  assumes "begins w u K" and "begins w v K'"
  shows "u = v \<and> K = K'"
  using begins_Lex [OF assms(1), of "[]" "\<lparr>FileLoc = l, Buffer = w, BufferPtr = 0, IsBlockComment = b\<rparr>" "[]" for l b]
    begins_Lex [OF assms(2), of "[]" "\<lparr>FileLoc = l, Buffer = w, BufferPtr = 0, IsBlockComment = b\<rparr>" "[]" for l b]
  by (auto simp: token_at_def)

lemma beginsI:
  assumes "w = u @ r" and "starts_token u"
    and "\<And>L L0 pre. Buffer L = pre @ w \<Longrightarrow> BufferPtr L = length pre \<Longrightarrow>
      lex_skip L0 (BufferPtr L0) = Some (L, length pre) \<Longrightarrow> Lex L0 = Some (token_at L (length pre) u K)"
  shows "begins w u K"
  unfolding begins_def
proof (intro conjI allI impI)
  fix L :: lexer and pre ws
  assume L: "list_all isWhitespace ws" "Buffer L = pre @ ws @ w" "BufferPtr L = length pre"
  let ?L = "L\<lparr>BufferPtr := length pre + length ws\<rparr>"
  have "lex_skip L (BufferPtr L) = Some (?L, length (pre @ ws))"
    using lex_skip_text [OF _ L(1) assms(2) L(3), of r] L(2,3) assms(1) by simp
  then have "Lex L = Some (token_at ?L (length (pre @ ws)) u K)"
    using L by (intro assms(3)) simp_all
  then show "Lex L = Some (token_at L (length pre + length ws) u K)"
    by (simp add: token_at_def getSourceLocation_def)
qed (use assms(1) in blast)

lemma begins_lexeme:
  assumes "lexeme_valid x" and "isDelimiter d"
  shows "begins (lexeme_text x @ d # r) (lexeme_text x) (lexeme_kind x)"
  by (rule beginsI [OF refl lexeme_starts_token [OF assms(1)]]) (rule Lex_lexeme_at [OF assms]; simp)

section \<open>Parentheses\<close>

lemma Lex_unfold:
  assumes "Buffer L = pre @ c # w" and "lex_skip L0 (BufferPtr L0) = Some (L, length pre)"
  shows "lex_skip L0 (BufferPtr L0) = Some (L, length pre)" and "rd (Buffer L) (length pre) = Some c"
    and "rd (Buffer L) (Suc (length pre)) = (case w of [] \<Rightarrow> None | a # _ \<Rightarrow> Some a)"
    and "rd (Buffer L) (Suc (Suc (length pre))) = (case w of _ # b # _ \<Rightarrow> Some b | _ \<Rightarrow> None)"
    and "rd (Buffer L) (Suc (Suc (Suc (length pre)))) = (case w of _ # _ # e # _ \<Rightarrow> Some e | _ \<Rightarrow> None)"
  using assms(2) unfolding assms(1)
  by (auto simp: rd_def nth_append Suc_diff_le split: list.splits)

lemma begins_parens:
  shows begins_open: "begins (CHR ''('' # r) ''('' tok_l_paren"
    and begins_close: "begins (CHR '')'' # r) '')'' tok_r_paren"
    and begins_vector: "begins (CHR ''#'' # CHR ''('' # r) ''#('' tok_vector_lparen"
    and begins_bytevector:
      "begins (CHR ''#'' # CHR ''u'' # CHR ''8'' # CHR ''('' # r) ''#u8('' tok_bytevector_lparen"
proof -
  show "begins (CHR ''('' # r) ''('' tok_l_paren"
  proof (rule beginsI [of _ _ r])
    fix L L0 pre
    assume L: "Buffer L = pre @ CHR ''('' # r" "BufferPtr L = length pre"
      "lex_skip L0 (BufferPtr L0) = Some (L, length pre)"
    note r = Lex_unfold [OF L(1,3)]
    have f: "FormTokenWithChars L (length pre + length ''('') tok_l_paren = token_at L (length pre) ''('' tok_l_paren"
      by (rule FormToken_text [of _ _ _ r]) (simp_all add: L)
    show "Lex L0 = Some (token_at L (length pre) ''('' tok_l_paren)"
      by (simp add: Lex_def r f [simplified] digits_def NUL_def single_char_kind_def)
  qed (simp_all add: starts_token_def whitespace_iff)
  show "begins (CHR '')'' # r) '')'' tok_r_paren"
  proof (rule beginsI [of _ _ r])
    fix L L0 pre
    assume L: "Buffer L = pre @ CHR '')'' # r" "BufferPtr L = length pre"
      "lex_skip L0 (BufferPtr L0) = Some (L, length pre)"
    note r = Lex_unfold [OF L(1,3)]
    have f: "FormTokenWithChars L (length pre + length '')'') tok_r_paren = token_at L (length pre) '')'' tok_r_paren"
      by (rule FormToken_text [of _ _ _ r]) (simp_all add: L)
    show "Lex L0 = Some (token_at L (length pre) '')'' tok_r_paren)"
      by (simp add: Lex_def r f [simplified] digits_def NUL_def single_char_kind_def)
  qed (simp_all add: starts_token_def whitespace_iff)
  show "begins (CHR ''#'' # CHR ''('' # r) ''#('' tok_vector_lparen"
  proof (rule beginsI [of _ _ r])
    fix L L0 pre
    assume L: "Buffer L = pre @ CHR ''#'' # CHR ''('' # r" "BufferPtr L = length pre"
      "lex_skip L0 (BufferPtr L0) = Some (L, length pre)"
    note r = Lex_unfold [OF L(1,3)]
    have f: "FormTokenWithChars L (length pre + length ''#('') tok_vector_lparen = token_at L (length pre) ''#('' tok_vector_lparen"
      by (rule FormToken_text [of _ _ _ r]) (simp_all add: L)
    show "Lex L0 = Some (token_at L (length pre) ''#('' tok_vector_lparen)"
      by (simp add: Lex_def r f [simplified] digits_def NUL_def LexSharpLiteral_def sharp_finish_def)
  qed (simp_all add: starts_token_def whitespace_iff)
  show "begins (CHR ''#'' # CHR ''u'' # CHR ''8'' # CHR ''('' # r) ''#u8('' tok_bytevector_lparen"
  proof (rule beginsI [of _ _ r])
    fix L L0 pre
    assume L: "Buffer L = pre @ CHR ''#'' # CHR ''u'' # CHR ''8'' # CHR ''('' # r" "BufferPtr L = length pre"
      "lex_skip L0 (BufferPtr L0) = Some (L, length pre)"
    note r = Lex_unfold [OF L(1,3)]
    have f: "FormTokenWithChars L (length pre + length ''#u8('') tok_bytevector_lparen = token_at L (length pre) ''#u8('' tok_bytevector_lparen"
      by (rule FormToken_text [of _ _ _ r]) (simp_all add: L)
    show "Lex L0 = Some (token_at L (length pre) ''#u8('' tok_bytevector_lparen)"
      by (simp add: Lex_def r f [simplified] digits_def NUL_def LexSharpLiteral_def sharp_finish_def
          at2_def)
  qed (simp_all add: starts_token_def whitespace_iff)
qed

section \<open>Literals\<close>

text \<open>The text between two delimiters \<open>T\<close>: after a backslash any character, else neither \<open>T\<close> nor NUL.\<close>

fun escaped :: "char \<Rightarrow> string \<Rightarrow> bool" where
  "escaped T [] = True"
| "escaped T (c # w) = (if c = CHR 0x5C then (case w of [] \<Rightarrow> False | _ # v \<Rightarrow> escaped T v)
     else c \<noteq> T \<and> c \<noteq> NUL \<and> escaped T w)"

lemma string_literal_end_escaped:
  "escaped T w \<Longrightarrow> T \<noteq> CHR 0x5C \<Longrightarrow>
    string_literal_end (pre @ w @ T # post) (length pre) T = Some (True, length pre + length w)"
proof (induction "length w" arbitrary: pre w rule: less_induct)
  case less
  show ?case
  proof (cases w)
    case Nil
    then show ?thesis by (subst string_literal_end.simps) (simp add: rd_after)
  next
    case (Cons c v)
    show ?thesis
    proof (cases "c = CHR 0x5C")
      case True
      then obtain e v' where v: "v = e # v'" "escaped T v'"
        using less.prems Cons by (cases v) auto
      have "rd (pre @ w @ T # post) (length pre + 1) = Some e"
        using rd_mid [of 1 w pre "T # post"] Cons v by simp
      moreover have "string_literal_end ((pre @ [c, e]) @ v' @ T # post) (length (pre @ [c, e])) T
          = Some (True, length (pre @ [c, e]) + length v')"
        using less.hyps [of v' "pre @ [c, e]"] less.prems v Cons by simp
      ultimately show ?thesis using True less.prems Cons v
        by (subst string_literal_end.simps) (simp add: rd_after)
    next
      case False
      then have "string_literal_end ((pre @ [c]) @ v @ T # post) (length (pre @ [c])) T
          = Some (True, length (pre @ [c]) + length v)"
        using less.hyps [of v "pre @ [c]"] less.prems Cons by simp
      then show ?thesis using False less.prems Cons
        by (subst string_literal_end.simps) (simp add: rd_after)
    qed
  qed
qed

lemma begins_literal:
  assumes "escaped T w" and "(T, K) \<in> {(CHR 0x22, tok_string_literal), (CHR ''|'', tok_symbol_literal)}"
  shows "begins (T # w @ T # d # r) (T # w @ [T]) K"
proof (rule beginsI [of _ _ "d # r"])
  fix L L0 pre
  assume L: "Buffer L = pre @ T # w @ T # d # r" "BufferPtr L = length pre"
    "lex_skip L0 (BufferPtr L0) = Some (L, length pre)"
  have T: "T \<noteq> CHR 0x5C" using assms(2) by auto
  note u = Lex_unfold [OF L(1,3)]
  have f: "FormTokenWithChars L (length pre + length (T # w @ [T])) K = token_at L (length pre) (T # w @ [T]) K"
    by (rule FormToken_text [of _ _ _ "d # r"]) (simp_all add: L)
  have e: "string_literal_end (Buffer L) (Suc (length pre)) T = Some (True, Suc (length pre) + length w)"
    using string_literal_end_escaped [OF assms(1) T, of "pre @ [T]" "d # r"] L(1) by simp
  have "rd (Buffer L) (length (pre @ T # w @ [T])) = Some d"
    unfolding L(1) using rd_after [of "pre @ T # w @ [T]" d r] by simp
  then have n: "rd (Buffer L) (Suc (Suc (length pre + length w))) = Some d" by simp
  show "Lex L0 = Some (token_at L (length pre) (T # w @ [T]) K)"
    using assms(2) u(1,2) e n f
    by (auto simp: Lex_def LexStringLiteral_def FormLiteral_def digits_def NUL_def)
qed (use assms(2) in \<open>auto simp: starts_token_def whitespace_iff\<close>)

section \<open>Numbers and characters\<close>

lemma digit_not_delimiter: "c \<in> set digits \<Longrightarrow> \<not> isDelimiter c"
  by (auto simp: digits_def isDelimiter_def whitespace_iff NUL_def)

lemma digit_not_sign_subsequent:
  "c \<in> set digits \<Longrightarrow> \<not> isSignSubsequent c \<and> c \<notin> set ''in.'' \<and> c \<noteq> NUL"
  by (auto simp: digits_def isSignSubsequent_def isInitialChar_def letters_def isExplicitSign_def NUL_def)

lemma begins_negative:
  assumes "ds \<noteq> []" and "list_all (\<lambda>c. c \<in> set digits) ds" and "isDelimiter d" and "NUL \<in> set (d # r)"
  shows "begins (CHR ''-'' # ds @ d # r) (CHR ''-'' # ds) tok_numeric_constant"
proof (rule beginsI [of _ _ "d # r"])
  fix L L0 pre
  assume L: "Buffer L = pre @ CHR ''-'' # ds @ d # r" "BufferPtr L = length pre"
    "lex_skip L0 (BufferPtr L0) = Some (L, length pre)"
  obtain c cs where c: "ds = c # cs" "c \<in> set digits" using assms(1,2) by (cases ds) auto
  note u = Lex_unfold [OF L(1,3)]
  have f: "FormTokenWithChars L (length pre + length (CHR ''-'' # ds)) tok_numeric_constant
      = token_at L (length pre) (CHR ''-'' # ds) tok_numeric_constant"
    by (rule FormToken_text [of _ _ _ "d # r"]) (simp_all add: L)
  have "list_all (\<lambda>c. \<not> isDelimiter c) ds" using assms(2) digit_not_delimiter by (simp add: list_all_iff)
  then have e: "SkipUntilDelimiter (Buffer L) (Suc (length pre)) = Some (Suc (length pre) + length ds)"
    using SkipUntilDelimiter_run [of ds d "pre @ [CHR ''-'']" r] assms(3) L(1) by simp
  have "isPeculiarIdentifierPrefix (CHR ''-'') (Buffer L) (Suc (length pre)) = Some False"
  proof -
    have "\<exists>n. rd (Buffer L) (Suc (Suc (length pre))) = Some n \<and>
        (n \<noteq> NUL \<longrightarrow> (\<exists>m. rd (Buffer L) (Suc (Suc (Suc (length pre)))) = Some m))"
      using assms(4) u(4,5) c(1) by (cases cs; cases "tl cs"; cases r) auto
    then show ?thesis using u(3) c digit_not_sign_subsequent [OF c(2)] digit_not_delimiter [OF c(2)]
      by (auto simp: isPeculiarIdentifierPrefix_def)
  qed
  then show "Lex L0 = Some (token_at L (length pre) (CHR ''-'' # ds) tok_numeric_constant)"
    using u(1,2) e f by (simp add: Lex_def LexNumberOrIdentifier_def LexNumber_def FormLiteral_def)
qed (simp_all add: starts_token_def whitespace_iff)

lemma begins_radix:
  assumes "list_all (\<lambda>c. \<not> isDelimiter c) ds" and "isDelimiter d"
  shows "begins (CHR ''#'' # CHR ''x'' # ds @ d # r) (CHR ''#'' # CHR ''x'' # ds) tok_numeric_constant"
proof (rule beginsI [of _ _ "d # r"])
  fix L L0 pre
  let ?w = "CHR ''#'' # CHR ''x'' # ds"
  assume L: "Buffer L = pre @ CHR ''#'' # CHR ''x'' # ds @ d # r" "BufferPtr L = length pre"
    "lex_skip L0 (BufferPtr L0) = Some (L, length pre)"
  note u = Lex_unfold [OF L(1,3)]
  have f: "FormTokenWithChars L (length pre + length ?w) tok_numeric_constant
      = token_at L (length pre) ?w tok_numeric_constant"
    by (rule FormToken_text [of _ _ _ "d # r"]) (simp_all add: L)
  have e: "SkipUntilDelimiter (Buffer L) (Suc (Suc (length pre))) = Some (Suc (Suc (length pre)) + length ds)"
    using SkipUntilDelimiter_run [OF assms, of "pre @ [CHR ''#'', CHR ''x'']" r] L(1) by simp
  show "Lex L0 = Some (token_at L (length pre) ?w tok_numeric_constant)"
    using u(1-3) e f by (simp add: Lex_def LexSharpLiteral_def LexNumber_def FormLiteral_def digits_def)
qed (simp_all add: starts_token_def whitespace_iff)

lemma begins_char:
  assumes "list_all (\<lambda>c. \<not> isDelimiter c) cs" and "isDelimiter d"
  shows "begins (CHR ''#'' # CHR 0x5C # c # cs @ d # r) (CHR ''#'' # CHR 0x5C # c # cs) tok_char_constant"
proof (rule beginsI [of _ _ "d # r"])
  fix L L0 pre
  let ?w = "CHR ''#'' # CHR 0x5C # c # cs"
  assume L: "Buffer L = pre @ CHR ''#'' # CHR 0x5C # c # cs @ d # r" "BufferPtr L = length pre"
    "lex_skip L0 (BufferPtr L0) = Some (L, length pre)"
  note u = Lex_unfold [OF L(1,3)]
  have f: "FormTokenWithChars L (length pre + length ?w) tok_char_constant
      = token_at L (length pre) ?w tok_char_constant"
    by (rule FormToken_text [of _ _ _ "d # r"]) (simp_all add: L)
  have e: "SkipUntilDelimiter (Buffer L) (Suc (Suc (Suc (length pre)))) = Some (Suc (Suc (Suc (length pre))) + length cs)"
    using SkipUntilDelimiter_run [OF assms, of "pre @ [CHR ''#'', CHR 0x5C, c]" r] L(1) by simp
  show "Lex L0 = Some (token_at L (length pre) ?w tok_char_constant)"
    using u(1-3) e f by (simp add: Lex_def LexSharpLiteral_def FormLiteral_def digits_def isDelimiter_def
        whitespace_iff NUL_def)
qed (simp_all add: starts_token_def whitespace_iff)

section \<open>Identifiers\<close>

text \<open>The peculiar identifiers that have a fixed text.\<close>

lemma begins_sign:
  assumes "c = CHR ''+'' \<or> c = CHR ''-''" and "isDelimiter d" and "NUL \<in> set (d # r)"
  shows "begins (c # d # r) [c] tok_identifier"
proof (rule beginsI [of _ _ "d # r"])
  fix L L0 pre
  assume L: "Buffer L = pre @ c # d # r" "BufferPtr L = length pre"
    "lex_skip L0 (BufferPtr L0) = Some (L, length pre)"
  note u = Lex_unfold [OF L(1,3)]
  have f: "FormTokenWithChars L (length pre + length [c]) tok_identifier
      = token_at L (length pre) [c] tok_identifier"
    by (rule FormToken_text [of _ _ _ "d # r"]) (simp_all add: L)
  have e: "lex_identifier_loop (Buffer L) (Suc (length pre)) b = Some (Suc (length pre), b)" for b
    using lex_identifier_loop_run [of "[]" d "pre @ [c]" r b] assms(2) L(1) by simp
  have p: "isPeculiarIdentifierPrefix c (Buffer L) (Suc (length pre)) = Some True"
  proof -
    have "d \<noteq> NUL \<longrightarrow> (\<exists>n. rd (Buffer L) (Suc (Suc (length pre))) = Some n \<and>
        (n \<noteq> NUL \<longrightarrow> (\<exists>m. rd (Buffer L) (Suc (Suc (Suc (length pre)))) = Some m)))"
      using assms(3) u(4,5) by (cases r; cases "tl r") auto
    moreover have "d \<noteq> CHR ''i'' \<and> d \<noteq> CHR ''n''"
      using assms(2) by (auto simp: isDelimiter_def whitespace_iff NUL_def)
    ultimately show ?thesis using u(3) assms(1,2)
      by (auto simp: isPeculiarIdentifierPrefix_def isExplicitSign_def)
  qed
  show "Lex L0 = Some (token_at L (length pre) [c] tok_identifier)"
    using assms(1) u(1,2) p e f
    by (auto simp: Lex_def LexNumberOrIdentifier_def LexIdentifier_def FormIdentifier_def isInitialChar_def letters_def)
qed (use assms(1) in \<open>auto simp: starts_token_def whitespace_iff\<close>)

lemma begins_ellipsis:
  assumes "isDelimiter d"
  shows "begins (CHR ''.'' # CHR ''.'' # CHR ''.'' # d # r) ''...'' tok_identifier"
proof (rule beginsI [of _ _ "d # r"])
  fix L L0 pre
  assume L: "Buffer L = pre @ CHR ''.'' # CHR ''.'' # CHR ''.'' # d # r" "BufferPtr L = length pre"
    "lex_skip L0 (BufferPtr L0) = Some (L, length pre)"
  note u = Lex_unfold [OF L(1,3)]
  have f: "FormTokenWithChars L (length pre + length ''...'') tok_identifier
      = token_at L (length pre) ''...'' tok_identifier"
    by (rule FormToken_text [of _ _ _ "d # r"]) (simp_all add: L)
  have e: "lex_identifier_loop (Buffer L) (Suc (length pre)) True = Some (Suc (Suc (Suc (length pre))), True)"
    using lex_identifier_loop_run [of "''..''" d "pre @ ''.''" r True] assms L(1)
    by (simp add: isDelimiter_def whitespace_iff NUL_def isExtendedAlphabet_def)
  have p: "isPeculiarIdentifierPrefix (CHR ''.'') (Buffer L) (Suc (length pre)) = Some True"
    using u(3-5) by (simp add: isPeculiarIdentifierPrefix_def isDotSubsequent_def isSubsequent_def
        isSignSubsequent_def isExplicitSign_def NUL_def isDelimiter_def whitespace_iff)
  show "Lex L0 = Some (token_at L (length pre) ''...'' tok_identifier)"
    using u(1-3) p e f
    by (simp add: Lex_def LexNumberOrIdentifier_def LexIdentifier_def FormIdentifier_def isInitialChar_def
        letters_def isDelimiter_def whitespace_iff NUL_def)
qed (simp_all add: starts_token_def whitespace_iff)

lemma begins_period:
  assumes "isDelimiter d"
  shows "begins (CHR ''.'' # d # r) ''.'' tok_period"
proof (rule beginsI [of _ _ "d # r"])
  fix L L0 pre
  assume L: "Buffer L = pre @ CHR ''.'' # d # r" "BufferPtr L = length pre"
    "lex_skip L0 (BufferPtr L0) = Some (L, length pre)"
  note u = Lex_unfold [OF L(1,3)]
  have f: "FormTokenWithChars L (length pre + length ''.'') tok_period = token_at L (length pre) ''.'' tok_period"
    by (rule FormToken_text [of _ _ _ "d # r"]) (simp_all add: L)
  show "Lex L0 = Some (token_at L (length pre) ''.'' tok_period)"
    using u(1-3) f assms by (simp add: Lex_def)
qed (simp_all add: starts_token_def whitespace_iff)

end
