(* ===== verification/MangleText.thy ===== *)
theory MangleText
  imports Mangle Utf8
begin

text \<open>
  Mangled names are read back: every name is written as a sequence of items (an identifier segment
  with its length, a special character code, or a hexadecimal code), each item is self-delimiting,
  and so the parsers recover names, module paths and module prefixes.
\<close>

section \<open>The items of a mangled name\<close>

definition mbind :: "mangled \<Rightarrow> (string \<Rightarrow> mangled) \<Rightarrow> mangled" where
  "mbind m f = (case m of Inl e \<Rightarrow> Inl e | Inr x \<Rightarrow> f x)"

lemma mbind_simps [simp]: "mbind (Inl e) f = Inl e" "mbind (Inr x) f = f x"
  "mbind (mbind m f) g = mbind m (\<lambda>x. mbind (f x) g)"
  by (cases m; simp add: mbind_def)+

text \<open>The mangled text of a name, without the prefix and the continuation.\<close>

definition enc :: "mangle_lib \<Rightarrow> string \<Rightarrow> mangled" where
  "enc M s = mangleNameSegment M Inr [] s"

text \<open>One item of a mangled name: the bytes \<open>w\<close> of the name and their code \<open>x\<close>.\<close>

definition item :: "mangle_lib \<Rightarrow> string \<Rightarrow> string \<Rightarrow> bool" where
  "item M w x \<longleftrightarrow>
     (w \<noteq> [] \<and> list_all (\<lambda>c. \<not> isSpecialChar c) w \<and> x = decimal (length w) @ ''S'' @ w)
     \<or> (\<exists>c. w = [c] \<and> map_of special_codes c = Some x)
     \<or> (\<exists>c k s. convertUTF8Sequence M s = Some (c, k) \<and> w = take (Suc k) s \<and> s \<noteq> []
          \<and> x = ''0x'' @ utohexstr M c @ ''z'')"

text \<open>A name is empty, refused, or one item followed by a shorter name.\<close>

lemma mangle_cases:
  assumes "s \<noteq> []"
  obtains (bad) e where "\<And>C P. mangleNameSegment M C P s = Inl e"
  | (item) w x where "w \<noteq> []" "s = w @ drop (length w) s" "item M w x"
      "\<And>C P. mangleNameSegment M C P s = mangleNameSegment M C (P @ x) (drop (length w) s)"
proof -
  let ?seg = "takeWhile (\<lambda>c. \<not> isSpecialChar c) s"
  show ?thesis
  proof (cases "?seg = []")
    case False
    have "item M ?seg (decimal (length ?seg) @ ''S'' @ ?seg)"
      using False by (auto simp: item_def list_all_iff dest: set_takeWhileD)
    moreover have "s = ?seg @ drop (length ?seg) s"
      by (metis dropWhile_eq_drop takeWhile_dropWhile_id)
    moreover have "mangleNameSegment M C P s
        = mangleNameSegment M C (P @ decimal (length ?seg) @ ''S'' @ ?seg) (drop (length ?seg) s)" for C P
      using assms False by (subst mangleNameSegment.simps) (simp add: Let_def)
    ultimately show ?thesis using that(2) False by blast
  next
    case True
    then have sp: "mangleNameSegment M C P s = mangleSpecialChar M C P s" for C P
      using assms by (subst mangleNameSegment.simps) (simp add: Let_def)
    show ?thesis
    proof (cases "map_of special_codes (hd s)")
      case (Some x)
      have "item M [hd s] x" using Some by (simp add: item_def)
      moreover have "s = [hd s] @ drop (length [hd s]) s" using assms by (cases s) auto
      moreover have "mangleNameSegment M C P s = mangleNameSegment M C (P @ x) (drop (length [hd s]) s)" for C P
        unfolding sp using Some assms by (subst mangleSpecialChar.simps) simp
      ultimately show ?thesis using that(2) by blast
    next
      case None
      then have hx: "mangleNameSegment M C P s = mangleCharHexCode M C P s" for C P
        unfolding sp using assms by (subst mangleSpecialChar.simps) simp
      show ?thesis
      proof (cases "convertUTF8Sequence M s")
        case None
        then show ?thesis using that(1) unfolding hx using assms by (subst (asm) mangleCharHexCode.simps) simp
      next
        case (Some p)
        obtain c k where p: "p = (c, k)" by (cases p)
        let ?w = "take (Suc k) s"
        have "item M ?w (''0x'' @ utohexstr M c @ ''z'')" using Some p assms by (auto simp: item_def)
        moreover have "drop (length ?w) s = drop (Suc k) s" by (simp add: min_def)
        moreover have "mangleNameSegment M C P s
            = mangleNameSegment M C (P @ ''0x'' @ utohexstr M c @ ''z'') (drop (Suc k) s)" for C P
          unfolding hx using Some p assms by (subst mangleCharHexCode.simps) simp
        ultimately show ?thesis using that(2) [of ?w] assms by simp
      qed
    qed
  qed
qed

lemma mangle_Nil: "mangleNameSegment M C P [] = C P"
  by (subst mangleNameSegment.simps) simp

lemma mangle_enc: "mangleNameSegment M C P s = mbind (enc M s) (\<lambda>e. C (P @ e))"
proof (induction s arbitrary: C P rule: length_induct)
  case (1 s)
  show ?case
  proof (cases "s = []")
    case True
    then show ?thesis by (simp add: enc_def mangle_Nil)
  next
    case False
    then show ?thesis
    proof (cases rule: mangle_cases [of s M])
      case (bad e)
      then show ?thesis by (simp add: enc_def)
    next
      case (item w x)
      have "length (drop (length w) s) < length s" using item(1) False by simp
      then have IH: "mangleNameSegment M C' P' (drop (length w) s)
          = mbind (enc M (drop (length w) s)) (\<lambda>e. C' (P' @ e))" for C' P'
        using 1 by blast
      have "enc M s = mbind (enc M (drop (length w) s)) (\<lambda>e. Inr (x @ e))"
        using item(4) [of Inr "[]"] IH [of Inr x] by (simp add: enc_def)
      then show ?thesis unfolding item(4) IH by simp
    qed
  qed
qed

lemma enc_cases:
  assumes "enc M s = Inr e" "s \<noteq> []"
  obtains w x t e' where "w \<noteq> []" "s = w @ t" "item M w x" "enc M t = Inr e'" "e = x @ e'"
  using assms(2)
proof (cases rule: mangle_cases [of s M])
  case (bad e)
  then show ?thesis using assms(1) by (simp add: enc_def)
next
  case (item w x)
  have "enc M s = mbind (enc M (drop (length w) s)) (\<lambda>e. Inr (x @ e))"
    using item(4) [of Inr "[]"] mangle_enc [of M Inr x "drop (length w) s"] by (simp add: enc_def)
  then obtain e' where "enc M (drop (length w) s) = Inr e'" "e = x @ e'"
    using assms(1) by (cases "enc M (drop (length w) s)") auto
  then show ?thesis using item that by blast
qed

lemma enc_Nil [simp]: "enc M [] = Inr []"
  by (simp add: enc_def mangle_Nil)

section \<open>Numbers\<close>

lemma is_digit_char: "d < 10 \<Longrightarrow> is_digit (char_of (48 + d)) \<and> of_char (char_of (48 + d)) = (48 + d :: nat)"
  by (simp add: is_digit_def)

lemma parse_length_append:
  "list_all is_digit ds \<Longrightarrow> parse_length (ds @ r) v = parse_length r (fst (parse_length ds v))"
  by (induction ds arbitrary: v) auto

lemma decimal_digits: "list_all is_digit (decimal n)"
proof (induction n rule: decimal.induct)
  case (1 n)
  then show ?case by (subst decimal.simps) (auto simp: is_digit_char)
qed

lemma parse_decimal_from: "fst (parse_length (decimal n) 0) = of_nat n"
proof (induction n rule: decimal.induct)
  case (1 n)
  show ?case
  proof (cases "n < 10")
    case True
    then show ?thesis using is_digit_char [of n] by (subst decimal.simps) simp
  next
    case False
    have d: "n mod 10 < 10" by simp
    have "of_nat n = (of_nat (n div 10 * 10 + n mod 10) :: u64)" by simp
    then have "of_nat n = (of_nat (n div 10) * 10 + of_nat (n mod 10) :: u64)"
      by (simp only: of_nat_add of_nat_mult of_nat_numeral)
    then show ?thesis
      using 1 [OF False] False is_digit_char [OF d] decimal_digits [of "n div 10"]
      by (subst decimal.simps) (simp add: parse_length_append)
  qed
qed

lemma parse_decimal: "\<not> is_digit c \<Longrightarrow> parse_length (decimal n @ c # r) 0 = (of_nat n, c # r)"
  by (simp add: parse_length_append [OF decimal_digits] parse_decimal_from)

lemma decimal_hd: "0 < n \<Longrightarrow> decimal n \<noteq> [] \<and> of_char (hd (decimal n)) \<in> {49..57::nat}"
proof (induction n rule: decimal.induct)
  case (1 n)
  show ?case
  proof (cases "n < 10")
    case True
    then show ?thesis using 1 is_digit_char [of n] by (subst (1 2) decimal.simps) simp
  next
    case False
    then show ?thesis using 1 by (subst (1 2) decimal.simps) simp
  qed
qed

section \<open>Items are self-delimiting\<close>

text \<open>
  The documented behaviour of the LLVM conversions: a decoded sequence lies in the input and encoding
  its code point gives it back; hexadecimal text is read back.
\<close>

definition lib_ok :: "mangle_lib \<Rightarrow> bool" where
  "lib_ok M \<longleftrightarrow>
     (\<forall>s c k. convertUTF8Sequence M s = Some (c, k) \<longrightarrow>
        Suc k \<le> length s \<and> ConvertCodePointToUTF8 M c = Some (take (Suc k) s))
   \<and> (\<forall>c. utohexstr M c \<noteq> [] \<and> list_all isHexDigit (utohexstr M c)
        \<and> getAsInteger16 M (utohexstr M c) = Some c)"

lemma parseCharHexCode_item:
  assumes "lib_ok M"
  shows "parseCharHexCode M (''0x'' @ utohexstr M c @ ''z'' @ r) = Some (r, c)"
proof -
  have h: "utohexstr M c \<noteq> []" "list_all isHexDigit (utohexstr M c)"
    "getAsInteger16 M (utohexstr M c) = Some c"
    using assms by (auto simp: lib_ok_def)
  have "takeWhile isHexDigit (utohexstr M c @ CHR ''z'' # r) = utohexstr M c"
    using h(2) by (induction "utohexstr M c") (auto simp: list_all_iff isHexDigit_def takeWhile_append)
  then show ?thesis using h by (simp add: parseCharHexCode_def Let_def)
qed

lemma special_code_cases:
  assumes "map_of special_codes c = Some x"
  shows "\<exists>a b. x = [a, b] \<and> of_char a \<in> {97..122::nat} \<and> (\<forall>r. parseSpecialChar (a # b # r) = c)"
proof -
  have "list_all (\<lambda>(c, x). case x of [a, b] \<Rightarrow> of_char a \<in> {97..122::nat}
      \<and> map_of (map (\<lambda>(c, s). (s, c)) special_codes) [a, b] = Some c | _ \<Rightarrow> False) special_codes"
    by code_simp
  then show ?thesis using map_of_SomeD [OF assms]
    by (fastforce simp: list_all_iff parseSpecialChar_def split: list.splits)
qed

lemma of_char_cases:
  assumes "of_char c \<in> set ns"
  shows "c \<in> char_of ` set (ns :: nat list)"
proof -
  have "char_of (of_char c :: nat) \<in> char_of ` set ns" using assms by (rule imageI)
  then show ?thesis by simp
qed

lemma digit_cases: "of_char c \<in> {49..57::nat} \<Longrightarrow> c \<in> set ''123456789''"
proof -
  assume "of_char c \<in> {49..57::nat}"
  then have "of_char c \<in> {49..<58::nat}" by simp
  then have "of_char c \<in> set [49..<58::nat]" by (simp only: set_upt)
  then have "c \<in> char_of ` set [49..<58::nat]" by (rule of_char_cases)
  also have "char_of ` set [49..<58::nat] = set ''123456789''" by code_simp
  finally show ?thesis .
qed

lemma letter_hd:
  "of_char c \<in> {49..57::nat} \<Longrightarrow> c \<noteq> CHR ''0'' \<and> of_char c \<notin> {97..122::nat} \<and> c \<notin> set ''LVFAN_'' \<and> is_digit c"
  "of_char c \<in> {97..122::nat} \<Longrightarrow> c \<noteq> CHR ''0'' \<and> c \<notin> set ''LVFAN_''"
  by (drule digit_cases, auto simp: is_digit_def)

lemma item_parse:
  assumes "item M w x" "lib_ok M" "length w < 2 ^ 64"
  shows "parseNameSegment M (x @ r) out = Inr (Some (r, out @ w))"
    and "consumeNameSegment M (x @ r) = Inr (Some r)" and "x \<noteq> []" and "hd x \<notin> set ''LVFAN_''"
proof -
  have "parseNameSegment M (x @ r) out = Inr (Some (r, out @ w)) \<and>
    consumeNameSegment M (x @ r) = Inr (Some r) \<and> x \<noteq> [] \<and> hd x \<notin> set ''LVFAN_''"
    using assms(1) unfolding item_def
  proof (elim disjE exE conjE)
    assume w: "w \<noteq> []" and x: "x = decimal (length w) @ ''S'' @ w"
    have d: "decimal (length w) \<noteq> []" "of_char (hd (decimal (length w))) \<in> {49..57::nat}"
      using decimal_hd [of "length w"] w by simp_all
    then obtain a as where a: "decimal (length w) = a # as" "of_char a \<in> {49..57::nat}"
      by (cases "decimal (length w)") auto
    have p: "parse_length (a # as @ CHR ''S'' # w @ r) 0 = (of_nat (length w), CHR ''S'' # w @ r)"
      using parse_decimal [of "CHR ''S''" "length w" "w @ r"] a by (simp add: is_digit_def)
    have u: "unat (of_nat (length w) :: u64) = length w"
      using assms(3) by (simp add: unat_of_nat)
    show ?thesis
      using letter_hd(1) [OF a(2)] p u a
      by (simp add: x parseNameSegment_def consumeNameSegment_def check_def)
  next
    fix c assume w: "w = [c]" and "map_of special_codes c = Some x"
    then obtain a b where x: "x = [a, b]" "of_char a \<in> {97..122::nat}" "\<And>r. parseSpecialChar (a # b # r) = c"
      using special_code_cases by blast
    show ?thesis using letter_hd(2) [OF x(2)] x w
      by (simp add: parseNameSegment_def consumeNameSegment_def)
  next
    fix c k s assume "convertUTF8Sequence M s = Some (c, k)" and w: "w = take (Suc k) s" and "s \<noteq> []"
      and x: "x = ''0x'' @ utohexstr M c @ ''z''"
    then have u: "ConvertCodePointToUTF8 M c = Some w" using assms(2) by (auto simp: lib_ok_def)
    show ?thesis using u parseCharHexCode_item [OF assms(2), of c r]
      by (simp add: x parseNameSegment_def consumeNameSegment_def)
  qed
  then show "parseNameSegment M (x @ r) out = Inr (Some (r, out @ w))"
    and "consumeNameSegment M (x @ r) = Inr (Some r)" and "x \<noteq> []" and "hd x \<notin> set ''LVFAN_''"
    by blast+
qed

text \<open>A whole name, in front of a byte that starts no segment.\<close>

lemma parse_segments_enc:
  "enc M s = Inr e \<Longrightarrow> lib_ok M \<Longrightarrow> length s < 2 ^ 64 \<Longrightarrow> r = [] \<or> hd r = CHR ''L'' \<Longrightarrow> length s < n \<Longrightarrow>
    parse_segments M n (e @ r) out = Inr (Some (r, out @ s))"
proof (induction s arbitrary: e n out rule: length_induct)
  case (1 s)
  obtain m where n: "n = Suc m" using "1.prems"(5) by (cases n) auto
  show ?case
  proof (cases "s = []")
    case True
    then have "e = []" using "1.prems"(1) by simp
    then show ?thesis using "1.prems"(4) True n by auto
  next
    case False
    obtain w x t e' where c: "w \<noteq> []" "s = w @ t" "item M w x" "enc M t = Inr e'" "e = x @ e'"
      by (rule enc_cases [OF "1.prems"(1) False])
    have l: "length s = length w + length t" "0 < length w" using c(1,2) by simp_all
    have lw: "length w < 2 ^ 64" "length t < 2 ^ 64"
      by (rule le_less_trans [OF _ "1.prems"(3)], simp add: l)+
    have lt: "length t < length s" "length t < m" using l "1.prems"(5) n by linarith+
    note i = item_parse [OF c(3) "1.prems"(2) lw(1)]
    have "parse_segments M m (e' @ r) (out @ w) = Inr (Some (r, (out @ w) @ t))"
      using "1.IH" lw lt c(4) "1.prems"(2,4) by blast
    moreover obtain a as where x: "x = a # as" "a \<noteq> CHR ''L''" using i(3,4) by (cases x) auto
    ultimately show ?thesis using i(1) [of "e' @ r" out] c(2,5) n by simp
  qed
qed

lemma parse_prefix_enc:
  "enc M s = Inr e \<Longrightarrow> lib_ok M \<Longrightarrow> length s < 2 ^ 64 \<Longrightarrow> s \<noteq> [] \<Longrightarrow> 
    k \<noteq> length (e @ r) \<Longrightarrow> \<exists>k'. k' \<noteq> length r \<and> parse_prefix_loop M (e @ r) k = parse_prefix_loop M r k'"
proof (induction s arbitrary: e k rule: length_induct)
  case (1 s)
  obtain w x t e' where c: "w \<noteq> []" "s = w @ t" "item M w x" "enc M t = Inr e'" "e = x @ e'"
    by (rule enc_cases [OF "1.prems"(1,4)])
  have l: "length s = length w + length t" "0 < length w" using c(1,2) by simp_all
  have lw: "length w < 2 ^ 64" "length t < 2 ^ 64"
    by (rule le_less_trans [OF _ "1.prems"(3)], simp add: l)+
  have lt: "length t < length s" using l by linarith
  note i = item_parse [OF c(3) "1.prems"(2) lw(1)]
  obtain a as where x: "x = a # as" "a \<notin> set ''LVFAN_''" using i(3,4) by (cases x) auto
  have step: "parse_prefix_loop M (e @ r) k = parse_prefix_loop M (e' @ r) (length (e @ r))"
    using i(2) [of "e' @ r"] x c(5) "1.prems"(5)
    by (subst parse_prefix_loop.simps) (simp add: Let_def)
  have ne: "length (e @ r) \<noteq> length (e' @ r)" using c(5) x by simp
  show ?case
  proof (cases "t = []")
    case True
    then have "e' = []" using c(4) by simp
    then show ?thesis using step ne by (intro exI [of _ "length (e @ r)"]) simp
  next
    case False
    then show ?thesis using "1.IH" lw lt c(4) "1.prems"(2) ne unfolding step by blast
  qed
qed

section \<open>Libraries and their variables\<close>

text \<open>The parts of a library name, as texts.\<close>

fun name_text :: "'f Value \<Rightarrow> string option" where
  "name_text (VSymbol s _) = Some s"
| "name_text (VString s) = Some s"
| "name_text (VInt i) = (if 0 \<le> sint i then Some (decimal (nat (sint i))) else None)"
| "name_text _ = None"

fun library_names :: "'f Value \<Rightarrow> string list option" where
  "library_names VEmpty = Some []"
| "library_names (VPair car cdr _) =
     (case name_text car of None \<Rightarrow> None | Some s \<Rightarrow> map_option ((#) s) (library_names cdr))"
| "library_names _ = None"

definition plain_name :: "string \<Rightarrow> bool" where
  "plain_name s \<longleftrightarrow> s \<noteq> [] \<and> length s < 2 ^ 64"

lemma mangleName_value_text:
  "name_text v = Some s \<Longrightarrow> mangleName_value M C P v = mangleName M C P s"
  by (cases v) (auto simp: mangleName_value_def split: if_splits)

lemma mangleModule_codes:
  "library_names spec = Some names \<Longrightarrow> list_all plain_name names \<Longrightarrow> mangleModule M P spec = Inr m \<Longrightarrow>
    \<exists>es. list_all2 (\<lambda>s e. enc M s = Inr e) names es \<and> m = P @ concat (map ((#) CHR ''L'') es)"
proof (induction M P spec arbitrary: names rule: mangleModule.induct)
  case (2 M P car cdr l)
  obtain s rest where n: "name_text car = Some s" "library_names cdr = Some rest" "names = s # rest"
    using "2.prems"(1) by (auto split: option.splits)
  have "s \<noteq> []" using "2.prems"(2) n by (simp add: plain_name_def)
  then have "mbind (enc M s) (\<lambda>e. mangleModule M ((P @ ''L'') @ e) cdr) = Inr m"
    using "2.prems"(3) by (simp add: mangleName_value_text [OF n(1)] mangleName_def mangle_enc)
  then obtain e where e: "enc M s = Inr e" "mangleModule M (P @ ''L'' @ e) cdr = Inr m"
    by (cases "enc M s") auto
  obtain es where "list_all2 (\<lambda>s e. enc M s = Inr e) rest es" "m = (P @ ''L'' @ e) @ concat (map ((#) CHR ''L'') es)"
    using "2.IH" [OF n(2) _ e(2)] "2.prems"(2) n(3) by auto
  then show ?case using e(1) n(3) by (intro exI [of _ "e # es"]) simp
qed auto

lemma module_path_codes:
  assumes "lib_ok M"
  shows "list_all2 (\<lambda>s e. enc M s = Inr e) names es \<Longrightarrow>
    list_all (\<lambda>s. plain_name s \<and> checkPortableFilename s \<and> length s < n) names \<Longrightarrow> length names < k \<Longrightarrow>
    module_path_loop M n k (concat (map ((#) CHR ''L'') es)) out
      = Inr (Some (out @ concat (map (\<lambda>s. s @ ''/'') names)))"
proof (induction names es arbitrary: out k rule: list_all2_induct)
  case Nil
  then show ?case by (cases k) simp_all
next
  case (Cons s names e es)
  then obtain j where k: "k = Suc j" "length names < j" by (cases k) auto
  let ?r = "concat (map ((#) CHR ''L'') es)"
  have r: "?r = [] \<or> hd ?r = CHR ''L''" by (cases es) simp_all
  have "parse_segments M n (e @ ?r) out = Inr (Some (?r, out @ s))"
    using Cons r assms by (intro parse_segments_enc) (auto simp: plain_name_def)
  then show ?case
    using Cons.IH [OF _ k(2), of "out @ s @ ''/''"] Cons.prems k by (simp add: parseModuleNameNode_def)
qed

lemma prefix_loop_codes:
  assumes "lib_ok M"
  shows "list_all2 (\<lambda>s e. enc M s = Inr e) names es \<Longrightarrow> list_all plain_name names \<Longrightarrow>
    k \<noteq> length (concat (map ((#) CHR ''L'') es) @ CHR ''V'' # r) \<Longrightarrow>
    parse_prefix_loop M (concat (map ((#) CHR ''L'') es) @ CHR ''V'' # r) k = Inr (Some (CHR ''V'' # r))"
proof (induction names es arbitrary: k rule: list_all2_induct)
  case Nil
  then show ?case by (subst parse_prefix_loop.simps) simp
next
  case (Cons s names e es)
  let ?r = "concat (map ((#) CHR ''L'') es) @ CHR ''V'' # r"
  have "parse_prefix_loop M (CHR ''L'' # e @ ?r) k = parse_prefix_loop M (e @ ?r) (Suc (length (e @ ?r)))"
    using Cons.prems(2) by (subst parse_prefix_loop.simps) (simp add: Let_def)
  moreover obtain k' where "k' \<noteq> length ?r" "parse_prefix_loop M (e @ ?r) (Suc (length (e @ ?r))) = parse_prefix_loop M ?r k'"
    using parse_prefix_enc [OF Cons(1) assms, of "Suc (length (e @ ?r))" ?r] Cons.prems(1)
    by (auto simp: plain_name_def)
  ultimately show ?case using Cons.IH [of k'] Cons.prems(1) by simp
qed

lemma enc_hd:
  assumes "enc M s = Inr e" "lib_ok M" "length s < 2 ^ 64" "s \<noteq> []"
  shows "e \<noteq> [] \<and> hd e \<noteq> CHR ''N''"
proof -
  obtain w x t e' where c: "w \<noteq> []" "s = w @ t" "item M w x" "enc M t = Inr e'" "e = x @ e'"
    by (rule enc_cases [OF assms(1,4)])
  have "length w < 2 ^ 64" by (rule le_less_trans [OF _ assms(3)]) (simp add: c)
  from item_parse(3,4) [OF c(3) assms(2) this] show ?thesis using c(5) by (cases x) auto
qed

lemma enc_injective:
  assumes "enc M s = Inr e" "enc M t = Inr e" "lib_ok M" "length s < 2 ^ 64" "length t < 2 ^ 64"
  shows "s = t"
proof -
  let ?n = "Suc (max (length s) (length t))"
  have "parse_segments M ?n (e @ []) [] = Inr (Some ([], [] @ s))"
    "parse_segments M ?n (e @ []) [] = Inr (Some ([], [] @ t))"
    using assms by (intro parse_segments_enc; simp add: less_Suc_eq_le)+
  then show ?thesis by simp
qed

text \<open>
  C10: The path of a library is recovered from its mangled name: for every library name with
  non-empty portable parts, reading the mangled name back part by part gives the parts, each followed
  by a slash.
\<close>

theorem module_path_roundtrip:
  assumes "lib_ok M" and "library_names spec = Some names"
    and "list_all (\<lambda>s. plain_name s \<and> checkPortableFilename s \<and> length s < n) names"
    and "length names < n" and "mangleModule M ManglePrefix spec = Inr m"
  shows "getModulePath M remove_dots n m = Inr (Some (remove_dots (concat (map (\<lambda>s. s @ ''/'') names))))"
proof -
  have "list_all plain_name names" using assms(3) by (simp add: list_all_iff)
  then obtain es where es: "list_all2 (\<lambda>s e. enc M s = Inr e) names es"
    and m: "m = ManglePrefix @ concat (map ((#) CHR ''L'') es)"
    using mangleModule_codes [OF assms(2) _ assms(5)] by blast
  show ?thesis
    using module_path_codes [OF assms(1) es assms(3,4), of "[]"] by (simp add: getModulePath_def m)
qed


text \<open>
  C12: Mangling is injective: two names with the same mangled text in a module are the same name,
  the empty name included.
\<close>

theorem mangleVariable_inject:
  assumes "lib_ok M" and "length s < 2 ^ 64" and "length t < 2 ^ 64"
    and "mangleVariable M p s = Inr x" and "mangleVariable M p t = Inr x"
  shows "s = t"
proof -
  have shape: "\<exists>e. x = p @ ''V'' @ e \<and> (if u = [] then e = ''N'' else enc M u = Inr e)"
    if "mangleVariable M p u = Inr x" for u
    using that unfolding mangleVariable_def mangleEntity_def mangleName_def mangle_enc
    by (cases "enc M u") (auto split: if_splits)
  obtain e where e: "if s = [] then e = ''N'' else enc M s = Inr e" "if t = [] then e = ''N'' else enc M t = Inr e"
    using shape [OF assms(4)] shape [OF assms(5)] by auto
  have "s = [] \<longleftrightarrow> t = []"
    using e enc_hd [OF _ assms(1,2)] enc_hd [OF _ assms(1,3)] by (metis list.sel(1))
  then show ?thesis
    using e enc_injective [OF _ _ assms(1-3)] by metis
qed

section \<open>A concrete library\<close>

text \<open>The conversions of the program itself have the documented behaviour of the LLVM ones.\<close>

definition own_lib :: mangle_lib where
  "own_lib = \<lparr>convertUTF8Sequence = (\<lambda>s. case decode_front s of (c, k) \<Rightarrow>
        if k = 0 then None else Some (c, k - 1)),
     ConvertCodePointToUTF8 = (\<lambda>c. Some (encode_utf8 c)), utohexstr = encode_hex,
     getAsInteger16 = (\<lambda>s. case from_hex s of Some (c, False) \<Rightarrow> Some c | _ \<Rightarrow> None)\<rparr>"

lemma hex_digit_char: "d < 16 \<Longrightarrow> isHexDigit (hex_digits ! d)"
proof -
  have "list_all (\<lambda>d. isHexDigit (hex_digits ! d)) [0..<16]" by code_simp
  then show "d < 16 \<Longrightarrow> ?thesis" by (simp add: list_all_iff)
qed

lemma encode_hex_isHexDigit: "encode_hex c \<noteq> [] \<and> list_all isHexDigit (encode_hex c)"
proof -
  have "list_all isHexDigit (encode_hex c)"
    unfolding encode_hex_def
    by (rule fold_upt_invar [where P = "\<lambda>i R. list_all isHexDigit R"])
      (auto simp: encode_hex_step_def Let_def hex_digit_char)
  moreover have "encode_hex c = encode_hex_step c 7 (fold (encode_hex_step c) [0..<7] [])"
    unfolding encode_hex_def using fold_upt_Suc [of 0 7 "encode_hex_step c" "[]"] by simp
  ultimately show ?thesis by (simp add: encode_hex_step_def Let_def)
qed

lemma own_lib_ok: "lib_ok own_lib"
proof -
  have "Suc k \<le> length s \<and> encode_utf8 c = take (Suc k) s"
    if "convertUTF8Sequence own_lib s = Some (c, k)" for s c k
  proof -
    obtain c' n where d: "decode_front s = (c', n)" by (cases "decode_front s")
    have n: "n = Suc k" "c' = c" using that d by (auto simp: own_lib_def split: if_splits)
    show ?thesis using decode_bytes [OF d] n by simp
  qed
  then show ?thesis
    using encode_hex_isHexDigit by (auto simp: lib_ok_def own_lib_def from_hex_encode_hex)
qed

definition example_library :: "unit Value" where
  "example_library = VPair (VSymbol ''foo'' (SourceLocation 0))
     (VPair (VSymbol ''b-2'' (SourceLocation 0)) VEmpty None) None"

definition example_mangled :: string where
  "example_mangled = ''_SCHIRL3SfooL1Sbmi1S2''"

lemma example_library_mangled:
  "library_names example_library = Some [''foo'', ''b-2'']"
  "mangleModule own_lib ManglePrefix example_library = Inr example_mangled"
  by code_simp+

theorem module_path_roundtrip_witness:
  "getModulePath own_lib id 9 example_mangled = Inr (Some ''foo/b-2/'')"
proof -
  have "list_all (\<lambda>s. plain_name s \<and> checkPortableFilename s \<and> length s < 9) [''foo'', ''b-2'']"
    by (simp add: plain_name_def checkPortableFilename_def)
  from module_path_roundtrip [OF own_lib_ok example_library_mangled(1) this _ example_library_mangled(2), of id]
  show ?thesis by simp
qed


theorem mangleVariable_inject_witness:
  "{t. length t < 2 ^ 64 \<and> mangleVariable own_lib [] t = Inr ''V1Sapl''} = {''a+''}"
proof -
  have m: "mangleVariable own_lib [] ''a+'' = Inr ''V1Sapl''" by code_simp
  have "t = ''a+''" if "length t < 2 ^ 64" "mangleVariable own_lib [] t = Inr ''V1Sapl''" for t
    using mangleVariable_inject [OF own_lib_ok that(1) _ that(2) m] by simp
  moreover have "length ''a+'' < 2 ^ 64" by simp
  ultimately show ?thesis using m by blast
qed

section \<open>Where the code departs\<close>

text \<open>
  An empty part of a library name does not call the continuation: the parts behind it are lost, so
  different libraries get one name, and the path of such a library is refused.
\<close>

lemma empty_part_collides:
  "mangleModule M P (VPair (VSymbol ''foo'' l) (VPair (VString []) rest None) None)
    = mangleModule M P (VPair (VSymbol ''foo'' l) (VPair (VString []) rest' None) None)"
proof -
  have "mangleModule M Q (VPair (VString []) rest None) = Inr (Q @ ''LN'')" for Q and rest :: "'f Value"
    by (simp add: mangleName_value_def mangleName_def)
  then show ?thesis by (simp add: mangleName_value_def mangleName_def mangle_enc)
qed

lemma empty_part_refused: "parseModuleNameNode M (Suc n) ''LN'' out = Inr None"
  by (simp add: parseModuleNameNode_def parseNameSegment_def)

text \<open>A byte that starts no segment is accepted without progress: the parser does not return.\<close>

lemma uppercase_diverges: "parseModuleNameNode M n ''LXy'' out = Inl OutOfFuel"
proof -
  have "parse_segments M n ''Xy'' out = Inl OutOfFuel"
    by (induction n) (simp_all add: parseNameSegment_def)
  then show ?thesis by (simp add: parseModuleNameNode_def)
qed

end
