(* ===== verification/WriterAtoms.thy ===== *)
theory WriterAtoms
  imports WriterLex MangleText
begin

text \<open>
  The reader's literals are the inverse of the writer's: strings and escaped symbols, integers,
  bytes and characters.
\<close>

section \<open>Strings\<close>

text \<open>
  The strings that can be written: valid UTF-8 in which every character that is not a single byte
  is printable.
\<close>

function writable_text :: "unicode_classes \<Rightarrow> string \<Rightarrow> bool" where
  "writable_text U s =
     (if s = [] then True
      else case decode_front s of (Decoded, Length) \<Rightarrow>
        if Length > 0 then (Length = 1 \<or> isPrintable U Decoded) \<and> writable_text U (drop Length s)
        else False)"
  by pat_completeness auto
termination
  by (relation "measure (\<lambda>(U, s). length s)") auto

declare writable_text.simps [simp del]

text \<open>Characters that the reader copies.\<close>

lemma literal_loop_plain:
  "list_all (\<lambda>c. c \<noteq> CHR 0x5C \<and> c \<noteq> CHR 0x0D) w \<Longrightarrow>
    literal_loop (w @ r) acc = literal_loop r (acc @ w)"
proof (induction w arbitrary: acc)
  case (Cons c w)
  then show ?case using Cons.IH [of "acc @ [c]"] by (simp add: literal_loop.simps(2))
qed simp

lemma escaped_plain:
  "list_all (\<lambda>c. c \<noteq> CHR 0x5C \<and> c \<noteq> T \<and> c \<noteq> NUL) w \<Longrightarrow> escaped T (w @ r) = escaped T r"
  by (induction w) auto

lemma decode_front_ascii:
  "s \<noteq> [] \<Longrightarrow> byte (hd s) AND 0x80 = 0 \<Longrightarrow> decode_front s = (byte (hd s), 1)"
  by (cases s) (simp_all add: decode_front_def byte_at_def)

text \<open>The bytes of a character: one below 128, or several of 128 and more.\<close>

lemma decode_front_bytes:
  assumes "decode_front s = (c, n)" and "0 < n"
  shows "if n = 1 then byte (hd s) AND 0x80 = 0 \<and> c = byte (hd s) \<and> take n s = [hd s]
    else 1 < n \<and> list_all (\<lambda>b. byte b AND 0x80 = 0x80) (take n s)"
proof -
  have cont: "byte_at s k AND 0x80 = 0x80" if "continuation s k" for k
    using that unfolding continuation_def by (simp add: u32_eq_iff idx32_def bit_simps)
  have lead: "byte_at s 0 AND 0x80 = 0x80"
    if "byte_at s 0 AND 0xE0 = 0xC0 \<or> byte_at s 0 AND 0xF0 = 0xE0 \<or> byte_at s 0 AND 0xF8 = 0xF0"
    using that by (elim disjE) (simp_all add: u32_eq_iff idx32_def bit_simps)
  have h: "hd s = s ! 0" using assms by (intro hd_conv_nth) (auto simp: decode_front_def)
  consider "0 < length s" "byte_at s 0 AND 0x80 = 0" "c = byte_at s 0" "n = 1"
    | "1 < length s" "byte_at s 0 AND 0xE0 = 0xC0" "continuation s 1" "n = 2"
    | "2 < length s" "byte_at s 0 AND 0xF0 = 0xE0" "continuation s 1" "continuation s 2" "n = 3"
    | "3 < length s" "byte_at s 0 AND 0xF8 = 0xF0" "continuation s 1" "continuation s 2" "continuation s 3" "n = 4"
    using assms unfolding decode_front_def by (auto split: if_splits)
  then show ?thesis
    by cases (use lead cont [of 1] cont [of 2] cont [of 3] take_1 [of s] take_2 [of s] take_3 [of s]
      take_4 [of s] in \<open>simp_all add: byte_at_def h\<close>)
qed

lemma find_char_hex_end:
  "CHR '';'' \<notin> set w \<Longrightarrow> find_char (w @ CHR '';'' # r) (CHR '';'') = Some (length w)"
  by (induction w) auto

lemma hex_text_plain: "set (encode_hex c) \<subseteq> set hex_digits"
  and hex_digits_plain: "CHR '';'' \<notin> set hex_digits" "CHR 0x5C \<notin> set hex_digits" "NUL \<notin> set hex_digits"
    "CHR 0x22 \<notin> set hex_digits" "CHR ''|'' \<notin> set hex_digits"
  using encode_hex_digits by (auto simp: hex_digits_def NUL_def)

lemma encode_ascii: "byte c AND 0x80 = 0 \<Longrightarrow> encode_utf8 (byte c) = [c]"
  using decode1 [of "[c]"] by (simp add: byte_at_def)

text \<open>One turn of the writer's loop, and how the reader and the lexer read its output.\<close>

definition delimiter_of_literal :: "char \<Rightarrow> bool" where
  "delimiter_of_literal T \<longleftrightarrow> T = CHR 0x22 \<or> T = CHR ''|''"

lemma hex_escape_read:
  assumes "byte c AND 0x80 = 0" and "delimiter_of_literal T"
  shows "literal_loop ((CHR 0x5C # CHR ''x'' # encode_hex (byte c) @ '';'') @ r) acc = literal_loop r (acc @ [c])"
    and "escaped T ((CHR 0x5C # CHR ''x'' # encode_hex (byte c) @ '';'') @ r) = escaped T r"
proof -
  let ?h = "encode_hex (byte c)"
  have p: "CHR '';'' \<notin> set ?h" "list_all (\<lambda>c. c \<noteq> CHR 0x5C \<and> c \<noteq> T \<and> c \<noteq> NUL) (?h @ '';'')"
    using hex_text_plain [of "byte c"] hex_digits_plain assms(2)
    by (auto simp: list_all_iff delimiter_of_literal_def NUL_def)
  have m: "map_of simple_escapes CHR ''x'' = None" by (simp add: simple_escapes_def)
  show "literal_loop ((CHR 0x5C # CHR ''x'' # ?h @ '';'') @ r) acc = literal_loop r (acc @ [c])"
    using find_char_hex_end [OF p(1), of r] m
    by (simp add: literal_loop.simps(2) from_hex_encode_hex encode_ascii [OF assms(1)])
  show "escaped T ((CHR 0x5C # CHR ''x'' # ?h @ '';'') @ r) = escaped T r"
    using escaped_plain [OF p(2), of r] by simp
qed

lemma write_escape_read:
  assumes "s \<noteq> []" and d: "decode_front s = (c, n)" "0 < n" "n = 1 \<or> isPrintable U c"
    and U: "\<not> isPrintable U 0" and T: "delimiter_of_literal T"
  shows "\<exists>out. write_escape U T s = (out, n) \<and> literal_loop (out @ r) acc = literal_loop r (acc @ take n s)
    \<and> escaped T (out @ r) = escaped T r"
proof -
  obtain b v where s: "s = b # v" using assms(1) by (cases s) auto
  note bytes = decode_front_bytes [OF d(1,2)]
  show ?thesis
  proof (cases "b \<in> {CHR 0x07, CHR 0x08, CHR 0x09, CHR 0x0A, CHR 0x0D, CHR 0x22, CHR 0x5C, CHR ''|''}")
    case True
    then have "byte b AND 0x80 = 0" by (elim insertE emptyE) (simp_all add: byte_def)
    then have "n = 1" using decode_front_ascii [of s] s d(1) by simp
    then show ?thesis using True T s
      by (elim insertE emptyE)
        (auto simp: write_escape_def literal_loop.simps(2) simple_escapes_def delimiter_of_literal_def NUL_def Let_def)
  next
    case False
    then have w: "write_escape U T s = (if isPrintable U c then (take n s, n)
        else (CHR 0x5C # CHR ''x'' # encode_hex c @ '';'', 1))"
      using s d(1) by (simp add: write_escape_def)
    show ?thesis
    proof (cases "isPrintable U c")
      case True
      have "list_all (\<lambda>x. x \<noteq> CHR 0x5C \<and> x \<noteq> CHR 0x0D \<and> x \<noteq> T \<and> x \<noteq> NUL) (take n s)"
      proof (cases "n = 1")
        case True
        then have "b \<noteq> NUL" using bytes U \<open>isPrintable U c\<close> s by (auto simp: NUL_def byte_def)
        then show ?thesis using bytes True s False \<open>b \<notin> _\<close> T by (auto simp: delimiter_of_literal_def)
      next
        case False
        then have "list_all (\<lambda>b. byte b AND 0x80 = 0x80) (take n s)" using bytes by simp
        moreover have "byte x AND 0x80 = 0x80 \<Longrightarrow> x \<noteq> CHR 0x5C \<and> x \<noteq> CHR 0x0D \<and> x \<noteq> T \<and> x \<noteq> NUL" for x
          using T by (auto simp: delimiter_of_literal_def byte_def NUL_def)
        ultimately show ?thesis by (auto simp: list_all_iff)
      qed
      then show ?thesis using w True
        by (intro exI [of _ "take n s"]) (auto simp: literal_loop_plain escaped_plain list_all_iff)
    next
      case False
      then have "n = 1" using d(3) by simp
      then show ?thesis using w False bytes s hex_escape_read(1) [of b T r acc]
          hex_escape_read(2) [of b T r] T by auto
    qed
  qed
qed

lemma write_literal_read:
  "writable_text U s \<Longrightarrow> \<not> isPrintable U 0 \<Longrightarrow> delimiter_of_literal T \<Longrightarrow>
    \<exists>w. write_literal_loop U T s = Inr w \<and> escaped T w
      \<and> (\<forall>acc. literal_loop w acc = Inr (None, acc @ s))"
proof (induction "length s" arbitrary: s rule: less_induct)
  case less
  show ?case
  proof (cases "s = []")
    case True
    then show ?thesis by (intro exI [of _ "[]"]) (simp add: write_literal_loop.simps)
  next
    case False
    obtain c n where d: "decode_front s = (c, n)" by (cases "decode_front s")
    then have n: "0 < n" "n = 1 \<or> isPrintable U c" "writable_text U (drop n s)"
      using less.prems(1) False by (auto simp: writable_text.simps [of U s] split: if_splits)
    have "length (drop n s) < length s" using n(1) False by simp
    from less.hyps [OF this n(3) less.prems(2,3)] obtain w where w:
      "write_literal_loop U T (drop n s) = Inr w" "escaped T w"
      "\<And>acc. literal_loop w acc = Inr (None, acc @ drop n s)" by blast
    have e: "\<exists>out. write_escape U T s = (out, n) \<and> literal_loop (out @ w) acc = literal_loop w (acc @ take n s)
      \<and> escaped T (out @ w) = escaped T w" for acc
      using False d n(1,2) less.prems(2,3) by (intro write_escape_read) simp_all
    then obtain out where out: "write_escape U T s = (out, n)" "escaped T (out @ w) = escaped T w" by blast
    have "literal_loop (out @ w) acc = literal_loop w (acc @ take n s)" for acc
      using e [of acc] out(1) by auto
    then show ?thesis using out w n(1) False
      by (intro exI [of _ "out @ w"]) (simp add: write_literal_loop.simps [of U T s])
  qed
qed

section \<open>Integers\<close>

lemma integer_loop_append:
  "integer_loop R (xs @ ys) v b = (case integer_loop R xs v b of None \<Rightarrow> None
     | Some (v', b') \<Rightarrow> integer_loop R ys v' b')"
  by (induction R xs v b rule: integer_loop.induct) (simp_all add: Let_def)

lemma of_nat_less_32: "n < 2 ^ 32 \<Longrightarrow> unat (of_nat n :: u32) = n"
  by (simp add: unsigned_of_nat take_bit_nat_eq_self)

text \<open>One more digit does not overflow when the number fits.\<close>

lemma integer_digit:
  assumes "hexDigitValue c = of_nat d" and "d < R" and "R \<le> 16" and "q * R + d < 2 ^ 32"
  shows "integer_loop (of_nat R) [c] (of_nat q) False = Some (of_nat (q * R + d), False)"
proof -
  have "q \<le> q * R + d" using assms(2) by (cases R) simp_all
  then have r: "unat (of_nat R :: u32) = R" "unat (of_nat d :: u32) = d" "unat (of_nat q :: u32) = q"
    using assms(2-4) by (simp_all add: of_nat_less_32)
  have m: "unat ((of_nat q :: u32) * of_nat R) = q * R"
    using of_nat_less_32 [of "q * R"] assms(4) by simp
  have s: "unat ((of_nat q :: u32) * of_nat R + of_nat d) = q * R + d"
    using of_nat_less_32 [of "q * R + d"] assms(4) by simp
  have "(of_nat q :: u32) * of_nat R div of_nat R = of_nat q"
    by (rule word_unat_eq_iff [THEN iffD2]) (use assms(2) in \<open>simp add: unat_div m r\<close>)
  moreover have "\<not> (of_nat R :: u32) \<le> of_nat d"
    using assms(2) r by (simp add: word_le_nat_alt)
  moreover have "\<not> (of_nat q * of_nat R + of_nat d :: u32) < of_nat d"
    using s r by (simp add: word_less_nat_alt)
  ultimately show ?thesis by (simp add: assms(1) Let_def)
qed

lemma hexDigitValue_decimal: "d < 10 \<Longrightarrow> hexDigitValue (char_of (48 + d)) = of_nat d"
proof -
  have "list_all (\<lambda>d. hexDigitValue (char_of (48 + d)) = of_nat d) [0..<10]" by code_simp
  then show "d < 10 \<Longrightarrow> ?thesis" by (simp add: list_all_iff)
qed

lemma integer_loop_decimal:
  "n < 2 ^ 32 \<Longrightarrow> integer_loop 10 (decimal n) 0 False = Some (of_nat n, False)"
proof (induction n rule: decimal.induct)
  case (1 n)
  have d: "hexDigitValue (char_of (48 + n mod 10)) = of_nat (n mod 10)"
    by (rule hexDigitValue_decimal) simp
  show ?case
  proof (cases "n < 10")
    case True
    then show ?thesis using integer_digit [OF hexDigitValue_decimal [OF True], of 10 0]
      by (subst decimal.simps) simp
  next
    case False
    then have "integer_loop 10 (decimal (n div 10)) 0 False = Some (of_nat (n div 10), False)"
      using 1 by simp
    then show ?thesis
      using False integer_digit [OF d, of 10 "n div 10"] 1(2)
      by (subst decimal.simps) (simp add: integer_loop_append)
  qed
qed

lemma decimal_in_digits: "list_all (\<lambda>c. c \<in> set digits) (decimal n) \<and> decimal n \<noteq> []"
proof (induction n rule: decimal.induct)
  case (1 n)
  have "list_all (\<lambda>d. char_of (48 + d) \<in> set digits) [0..<10]" by code_simp
  then have "char_of (48 + d) \<in> set digits" if "d < 10" for d :: nat
    using that by (simp add: list_all_iff)
  then show ?case using 1 by (subst (1 2) decimal.simps) simp
qed

lemma sint_magnitude: "nat (- sint (i :: i32)) < 2 ^ 32" "nat (sint i) < 2 ^ 32"
  using sint_ge [of i] sint_lt [of i] by auto

lemma tryParseInteger_written: "tryParseInteger (VisitInt i) 10 = Inr (Some i)"
proof (cases "sint i < 0")
  case True
  then have "- (of_nat (nat (- sint i))) = i" by (simp add: of_nat_nat)
  then show ?thesis using True integer_loop_decimal [OF sint_magnitude(1) [of i]]
    by (simp add: VisitInt_def tryParseInteger_def)
next
  case False
  have d: "hd (decimal (nat (sint i))) \<noteq> CHR ''+'' \<and> hd (decimal (nat (sint i))) \<noteq> CHR ''-''"
    using decimal_in_digits [of "nat (sint i)"] by (cases "decimal (nat (sint i))") (auto simp: digits_def)
  have "of_nat (nat (sint i)) = i" using False by (simp add: of_nat_nat)
  then show ?thesis using False d integer_loop_decimal [OF sint_magnitude(2) [of i]] decimal_in_digits [of "nat (sint i)"]
    by (simp add: VisitInt_def tryParseInteger_def)
qed

section \<open>Bytes\<close>

text \<open>The two digits of a byte.\<close>

lemma encode_hex_byte:
  assumes "unat Code = n" and "n < 256"
  shows "encode_hex Code =
    (if n div 16 = 0 then [hex_digits ! (n mod 16)] else [hex_digits ! (n div 16), hex_digits ! (n mod 16)])"
proof -
  have e: "unat (drop_bit k Code) = n div 2 ^ k" for k
    unfolding unat_drop_bit_eq by (simp add: drop_bit_eq_div assms(1))
  have d: "unat (drop_bit (4 * (7 - i)) Code) mod 16 = (if i \<le> 5 then 0 else if i = 6 then n div 16 else n mod 16)"
    if i: "i < 8" for i
  proof (cases "i \<le> 5")
    case True
    have "256 \<le> (2::nat) ^ (4 * (7 - i))" using True power_increasing [of 8 "4 * (7 - i)" "2::nat"] by simp
    then show ?thesis using True assms by (simp add: e)
  next
    case False
    then consider "i = 6" | "i = 7" using i by linarith
    then show ?thesis using assms by cases (simp_all add: e)
  qed
  have s5: "encode_hex_step Code i [] = []" if "i \<le> 5" for i
    using that d [of i] by (simp add: encode_hex_step_def Let_def)
  have s6: "encode_hex_step Code 6 [] = (if n div 16 = 0 then [] else [hex_digits ! (n div 16)])"
    using d [of 6] by (simp add: encode_hex_step_def Let_def)
  have s7: "encode_hex_step Code 7 R = R @ [hex_digits ! (n mod 16)]" for R
    using d [of 7] by (simp add: encode_hex_step_def Let_def)
  have u: "[0..<8] = [0, 1, 2, 3, 4, 5, 6, 7]" by (simp add: upt_rec)
  show ?thesis
    unfolding encode_hex_def u using s6 s7 by (simp add: s5)
qed

lemma hexDigitValue_hex: "d < 16 \<Longrightarrow> hexDigitValue (hex_digits ! d) = of_nat d"
proof -
  have "list_all (\<lambda>d. hexDigitValue (hex_digits ! d) = of_nat d) [0..<16]" by code_simp
  then show "d < 16 \<Longrightarrow> ?thesis" by (simp add: list_all_iff)
qed

lemma write_byte_digits:
  "\<exists>a b. write_byte c = [CHR ''#'', CHR ''x'', a, b] \<and> a \<in> set hex_digits \<and> b \<in> set hex_digits
    \<and> integer_loop 16 [a, b] 0 False = Some (byte c, False)"
proof -
  define n where "n = unat (byte c)"
  have "byte c < 256" using bits_less [OF byte_at_high [of "[c]" 0, unfolded byte_at_def]] by simp
  then have n: "n < 256" unfolding n_def by (simp add: word_less_nat_alt)
  have w: "write_byte c = [CHR ''#'', CHR ''x'', hex_digits ! (n div 16), hex_digits ! (n mod 16)]"
    using encode_hex_byte [OF _ n, of "byte c"] n by (auto simp: write_byte_def n_def [symmetric] Let_def)
      (simp add: hex_digits_def)
  have h: "n div 16 < 16" using n by simp
  then have "integer_loop 16 [hex_digits ! (n div 16)] 0 False = Some (of_nat (n div 16), False)"
    using integer_digit [OF hexDigitValue_hex, of "n div 16" 16 0] by simp
  moreover have "integer_loop 16 [hex_digits ! (n mod 16)] (of_nat (n div 16)) False = Some (of_nat n, False)"
    using integer_digit [OF hexDigitValue_hex, of "n mod 16" 16 "n div 16"] n by simp
  ultimately have "integer_loop 16 ([hex_digits ! (n div 16)] @ [hex_digits ! (n mod 16)]) 0 False = Some (of_nat n, False)"
    unfolding integer_loop_append by simp
  moreover have "hex_digits ! d \<in> set hex_digits" if "d < 16" for d
    using that by (intro nth_mem) (simp add: hex_digits_def)
  ultimately show ?thesis using w h by (simp add: n_def)
qed

section \<open>Characters\<close>

text \<open>
  The characters that can be written: the code of a named character is not the low byte of another
  one, and what is written as itself is a Unicode scalar value.
\<close>

definition writable_char :: "unicode_classes \<Rightarrow> u32 \<Rightarrow> bool" where
  "writable_char U C \<longleftrightarrow> (map_of written_char_names (to_char C) \<noteq> None \<longrightarrow> C \<le> 0x7F)
     \<and> (isPrintable U C \<and> \<not> isFormatting U C \<longrightarrow> scalar C)"

lemma high_byte_plain: "byte b AND 0x80 = 0x80 \<Longrightarrow> \<not> isDelimiter b \<and> b \<noteq> CHR ''x'' \<and> (\<forall>n w v. (n, v) \<in> set char_names \<longrightarrow> n \<noteq> b # w)"
  by (auto simp: isDelimiter_def whitespace_iff NUL_def byte_def char_names_def)

lemma hex_not_delimiter: "c \<in> set hex_digits \<Longrightarrow> \<not> isDelimiter c"
  by (auto simp: hex_digits_def isDelimiter_def whitespace_iff NUL_def)

lemma ascii_byte: "C \<le> 0x7F \<Longrightarrow> byte (to_char C) = C \<and> byte (to_char C) AND 0x80 = 0"
proof -
  assume "C \<le> 0x7F"
  then have "list_all (\<lambda>n. 7 \<le> n \<longrightarrow> \<not> bit C n) idx32" by (rule u32_bound) simp_all
  then show ?thesis by (simp add: bit_eval)
qed

lemma char_value_ascii: "byte c AND 0x80 = 0 \<Longrightarrow> char_value c = byte c"
proof -
  assume "byte c AND 0x80 = 0"
  then have l: "byte c \<le> 0x7F" using decode1 [of "[c]"] by (simp add: byte_at_def)
  have "ucast (of_nat n :: u32) = (of_nat n :: u8)" for n
    by (simp add: unsigned_of_nat of_nat_take_bit take_bit_take_bit flip: take_bit_eq_mod)
      (simp add: take_bit_word_eq_self of_nat_take_bit)
  from this [of "of_char c"] have u: "(of_char c :: u8) = ucast (byte c)"
    by (simp only: byte_def of_nat_of_char)
  have "scast (ucast w :: u8) = w" if "w \<le> 0x7F" for w :: u32
  proof -
    have "list_all (\<lambda>n. 7 \<le> n \<longrightarrow> \<not> bit w n) idx32" using that by (rule u32_bound) simp_all
    then show ?thesis by (simp add: u32_eq_iff idx32_def bit_simps)
  qed
  then show ?thesis using l by (simp add: char_value_def u)
qed

lemma VisitChar_read:
  assumes "writable_char U C"
  shows "\<exists>c cs. VisitChar U C = CHR ''#'' # CHR 0x5C # c # cs \<and> list_all (\<lambda>c. \<not> isDelimiter c) cs
    \<and> char_constant (c # cs) = Inr (Inr C)"
proof (cases "map_of written_char_names (to_char C)")
  case (Some nm)
  then have "C \<le> 0x7F" using assms by (simp add: writable_char_def)
  then have "C = byte (to_char C)" using ascii_byte by simp
  moreover have "(to_char C, nm) \<in> set written_char_names" using Some by (rule map_of_SomeD)
  moreover have "list_all (\<lambda>(k, nm). nm \<noteq> [] \<and> list_all (\<lambda>c. \<not> isDelimiter c) (tl nm)
      \<and> char_constant nm = Inr (Inr (byte k))) written_char_names" by code_simp
  ultimately have "nm \<noteq> []" "list_all (\<lambda>c. \<not> isDelimiter c) (tl nm)" "char_constant nm = Inr (Inr C)"
    by (auto simp: list_all_iff)
  moreover have "VisitChar U C = CHR ''#'' # CHR 0x5C # nm" using Some by (simp add: VisitChar_def)
  ultimately show ?thesis by (intro exI [of _ "hd nm"] exI [of _ "tl nm"]) simp
next
  case None
  show ?thesis
  proof (cases "isPrintable U C \<and> \<not> isFormatting U C")
    case True
    then have sc: "scalar C" using assms by (simp add: writable_char_def)
    have d: "drop_front (encode_utf8 C) = Some (C, [])" "encode_utf8 C \<noteq> []"
      using decode_encode [OF sc, of "[]"] by simp_all
    then obtain n where n: "decode_front (encode_utf8 C) = (C, n)" "0 < n" "drop n (encode_utf8 C) = []"
      by (auto simp: drop_front_def split: prod.splits if_splits)
    have v: "VisitChar U C = [CHR ''#'', CHR 0x5C] @ encode_utf8 C"
      using None True by (simp add: VisitChar_def)
    have t: "take n (encode_utf8 C) = encode_utf8 C" using n(3) by simp
    note bytes = decode_front_bytes [OF n(1,2), unfolded t]
    obtain c cs where c: "encode_utf8 C = c # cs" using d(2) by (cases "encode_utf8 C") auto
    show ?thesis
    proof (cases "n = 1")
      case True
      then have "byte c AND 0x80 = 0" "C = byte c" "cs = []" using bytes c by simp_all
      then show ?thesis using v c char_value_ascii [of c] by (simp add: char_constant_def)
    next
      case False
      then have hi: "list_all (\<lambda>b. byte b AND 0x80 = 0x80) (c # cs)" using bytes c by simp
      have "1 < n" using bytes False by simp
      moreover have "n \<le> length (encode_utf8 C)" using decode_bytes [OF n(1,2)] by simp
      ultimately have "cs \<noteq> []" using c by auto
      moreover have "map_of char_names (c # cs) = None"
        using hi high_byte_plain [of c] by (fastforce simp: map_of_eq_None_iff)
      ultimately show ?thesis using v c d(1) hi high_byte_plain
        by (auto simp: char_constant_def list_all_iff)
    qed
  next
    case False
    have h: "encode_hex C \<noteq> []" "list_all (\<lambda>c. \<not> isDelimiter c) (encode_hex C)"
      using encode_hex_digits [of C] hex_not_delimiter by (auto simp: list_all_iff)
    moreover have "map_of char_names (CHR ''x'' # encode_hex C) = None" by (simp add: char_names_def)
    moreover have "VisitChar U C = CHR ''#'' # CHR 0x5C # CHR ''x'' # encode_hex C"
      using None False by (auto simp: VisitChar_def)
    ultimately show ?thesis
      by (intro exI [of _ "CHR ''x''"] exI [of _ "encode_hex C"])
        (simp add: char_constant_def from_hex_encode_hex)
  qed
qed

end
