(* ===== verification/ReadWrite.thy ===== *)
theory ReadWrite
  imports WriterAtoms
begin

text \<open>
  Reading what was written: the reader (\<open>schir/lib/Parser.cpp\<close>) gives back the value that the writer
  (\<open>schir/lib/Context.cpp\<close>) wrote, up to source locations.
\<close>

section \<open>The state of the reader in front of a text\<close>

text \<open>
  The parser has read the first token \<open>u\<close> of the rest \<open>w\<close> of its buffer, which is behind \<open>pre\<close>.
\<close>

definition ahead :: "parser \<Rightarrow> string \<Rightarrow> string \<Rightarrow> string \<Rightarrow> TokenKind \<Rightarrow> bool" where
  "ahead P pre w u K \<longleftrightarrow> begins w u K \<and> Buffer (TheLexer P) = pre @ w
     \<and> Kind (Tok P) = K \<and> LiteralData (Tok P) = u \<and> LitBegin (Tok P) = Some (length pre)
     \<and> BufferPtr (TheLexer P) = length pre + length u \<and> \<not> IsNeoteric P"

text \<open>The parser \<open>Q\<close> is \<open>P\<close> with its lexer at \<open>q\<close>.\<close>

definition moved :: "parser \<Rightarrow> nat \<Rightarrow> parser \<Rightarrow> bool" where
  "moved P q Q \<longleftrightarrow> TheLexer Q = (TheLexer P)\<lparr>BufferPtr := q\<rparr> \<and> IsNeoteric Q = IsNeoteric P"

lemma moved_trans: "moved P q Q \<Longrightarrow> moved Q r R \<Longrightarrow> moved P r R"
  by (simp add: moved_def)

lemma LexToken_ahead:
  assumes "begins w u K" and "K \<noteq> tok_parser_directive" and "list_all isWhitespace ws"
    and "Buffer (TheLexer Q) = pre @ ws @ w" and "BufferPtr (TheLexer Q) = length pre" and "\<not> IsNeoteric Q"
  shows "\<exists>P. LexToken Q = Inr P \<and> ahead P (pre @ ws) w u K \<and> LiteralResult P = LiteralResult Q
    \<and> (\<forall>q R. moved P q R \<longrightarrow> moved Q q R)"
  using begins_Lex [OF assms(1,3,4,5)] assms
  by (simp add: LexToken_def Let_def ahead_def moved_def token_at_def)

lemma ahead_ConsumeToken:
  "ahead P pre w u K \<Longrightarrow> ConsumeToken P = LexToken (P\<lparr>PrevTok := Tok P\<rparr>)
    \<and> moved P (length pre + length u) (P\<lparr>PrevTok := Tok P\<rparr>)"
  by (simp add: ahead_def ConsumeToken_def moved_def)

text \<open>The next token behind the text \<open>w\<close> that has been read.\<close>

lemma next_token:
  assumes "moved P (length pre + length w) Q" and "Buffer (TheLexer P) = pre @ w @ ws @ r"
    and "\<not> IsNeoteric P" and "begins r u K" and "K \<noteq> tok_parser_directive" and "list_all isWhitespace ws"
  obtains P' where "LexToken Q = Inr P'" and "ahead P' (pre @ w @ ws) r u K"
    and "LiteralResult P' = LiteralResult Q" and "\<And>q R. moved P' q R \<Longrightarrow> moved P q R"
proof -
  have "\<exists>P'. LexToken Q = Inr P' \<and> ahead P' ((pre @ w) @ ws) r u K \<and> LiteralResult P' = LiteralResult Q
      \<and> (\<forall>q R. moved P' q R \<longrightarrow> moved Q q R)"
    using assms by (intro LexToken_ahead) (simp_all add: moved_def)
  then show ?thesis using that moved_trans [OF assms(1)] by auto
qed

section \<open>Reading an expression\<close>

definition start_kinds :: "TokenKind set" where
  "start_kinds = {tok_l_paren, tok_vector_lparen, tok_bytevector_lparen, tok_numeric_constant,
     tok_identifier, tok_char_constant, tok_true, tok_false, tok_string_literal, tok_symbol_literal}"

text \<open>
  The text \<open>w\<close> is read as the value \<open>v\<close>: it starts with a token that starts an expression, and with
  enough fuel the reader returns the value, up to locations, and goes on behind the text.
\<close>

definition returns :: "'f Value \<Rightarrow> parser \<Rightarrow> nat \<Rightarrow> ('f ValueResult \<times> parser) result \<Rightarrow> bool" where
  "returns v P q m \<longleftrightarrow> (\<exists>v' Q. strip v' = strip v \<and> moved P q Q
     \<and> m = andThen (LexToken Q) (\<lambda>P'. Inr (Usable v', P')))"

definition reads :: "'f float_ops \<Rightarrow> 'f Value \<Rightarrow> string \<Rightarrow> bool" where
  "reads F v w \<longleftrightarrow> (\<forall>d post. isDelimiter d \<longrightarrow> NUL \<in> set (d # post) \<longrightarrow>
     (\<exists>u K. begins (w @ d # post) u K \<and> K \<in> start_kinds)
     \<and> (\<exists>N. \<forall>n\<ge>N. \<forall>P pre u K t. ahead P pre (w @ d # post) u K \<longrightarrow>
          returns v P (length pre + length w) (parse F n (CallExpr t) P)))"

lemma returnsI:
  "moved P q Q \<Longrightarrow> strip v' = strip v \<Longrightarrow> m = andThen (LexToken Q) (\<lambda>P'. Inr (Usable v', P')) \<Longrightarrow>
    returns v P q m"
  unfolding returns_def by blast

lemma readsI_atom:
  assumes "\<And>d post. isDelimiter d \<Longrightarrow> NUL \<in> set (d # post) \<Longrightarrow> begins (w @ d # post) w K"
    and "K \<in> start_kinds"
    and "\<And>self t P pre r. ahead P pre (w @ r) w K \<Longrightarrow>
      returns v P (length pre + length w) (ParseDatum F self t P)"
  shows "reads F v w"
  unfolding reads_def
proof (intro allI impI conjI)
  fix d post assume d: "isDelimiter d" "NUL \<in> set (d # post)"
  show "\<exists>u K. begins (w @ d # post) u K \<and> K \<in> start_kinds" using assms(1) [OF d] assms(2) by blast
  show "\<exists>N. \<forall>n\<ge>N. \<forall>P pre u K t. ahead P pre (w @ d # post) u K \<longrightarrow>
      returns v P (length pre + length w) (parse F n (CallExpr t) P)"
  proof (rule exI [of _ 2], intro allI impI)
    fix n :: nat and P pre u K' t assume n: "2 \<le> n" and a: "ahead P pre (w @ d # post) u K'"
    have "u = w \<and> K' = K" using begins_unique [OF _ assms(1) [OF d]] a by (auto simp: ahead_def)
    then have a': "ahead P pre (w @ d # post) w K" using a by simp
    obtain m where m: "n = Suc (Suc m)" using n by (metis Suc_le_D numeral_2_eq_2 Suc_le_mono)
    have "parse F n (CallExpr t) P = ParseDatum F (parse F m) t P"
      using a' by (simp add: m ParseExpr_def ahead_def)
    then show "returns v P (length pre + length w) (parse F n (CallExpr t) P)" using assms(3) [OF a'] by simp
  qed
qed

lemma returns_ConsumeToken:
  "ahead P pre w u K \<Longrightarrow> strip v' = strip v \<Longrightarrow>
    returns v P (length pre + length u) (andThen (ConsumeToken P) (\<lambda>P. Inr (Usable v', P)))"
  using ahead_ConsumeToken unfolding returns_def by metis

section \<open>Atoms\<close>

lemma lex_directives_LiteralResult:
  "lex_directives k P = Inr Q \<Longrightarrow> LiteralResult Q = LiteralResult P"
proof (induction k arbitrary: P)
  case (Suc k)
  obtain L t where "Lex (TheLexer P) = Some (L, t)"
    using Suc.prems by (cases "Lex (TheLexer P)") auto
  then show ?case using Suc by (auto simp: Let_def split: if_splits)
qed simp

lemma LexToken_LiteralResult: "LexToken P = Inr Q \<Longrightarrow> LiteralResult Q = LiteralResult P"
  unfolding LexToken_def by (rule lex_directives_LiteralResult)

text \<open>A literal: its characters are kept in the state until the next token has been read.\<close>

lemma ParseLiteralImpl_ahead:
  assumes "ahead P pre (T # w @ T # r) (T # w @ [T]) K" and "literal_loop w [] = Inr (None, s)"
    and "strip (f s) = strip v"
  shows "returns v P (length pre + length (T # w @ [T])) (andThen (ParseLiteralImpl P)
    (\<lambda>(failed, P). Inr (if failed then UndefinedValue else Usable (f (LiteralResult P)), P)))"
proof -
  let ?Q = "P\<lparr>LiteralResult := s, PrevTok := Tok P\<rparr>"
  have d: "LiteralData (Tok P) = T # w @ [T]" using assms(1) by (simp add: ahead_def)
  have i: "ParseLiteralImpl P = andThen (LexToken ?Q) (\<lambda>P. Inr (False, P))"
    using assms(2) d by (simp add: ParseLiteralImpl_def ConsumeToken_def Let_def)
  have "andThen (ParseLiteralImpl P) (\<lambda>(failed, P). Inr (if failed then UndefinedValue else Usable (f (LiteralResult P)), P))
      = andThen (LexToken ?Q) (\<lambda>P'. Inr (Usable (f s), P'))"
  proof (cases "LexToken ?Q")
    case (Inr P')
    then have "LiteralResult P' = s" using LexToken_LiteralResult [OF Inr] by simp
    then show ?thesis using Inr by (simp add: i)
  qed (simp add: i)
  then show ?thesis using assms(1,3) by (intro returnsI [of _ _ ?Q "f s"]) (simp_all add: ahead_def moved_def)
qed

lemma reads_string:
  assumes "escaped (CHR 0x22) w" and "literal_loop w [] = Inr (None, s)"
  shows "reads F (VString s) (CHR 0x22 # w @ [CHR 0x22])"
proof (rule readsI_atom [where K = tok_string_literal])
  show "begins ((CHR 0x22 # w @ [CHR 0x22]) @ d # post) (CHR 0x22 # w @ [CHR 0x22]) tok_string_literal" for d post
    using begins_literal [OF assms(1), of tok_string_literal d post] by simp
next
  fix self t P pre r
  assume a: "ahead P pre ((CHR 0x22 # w @ [CHR 0x22]) @ r) (CHR 0x22 # w @ [CHR 0x22]) tok_string_literal"
  then show "returns (VString s) P (length pre + length (CHR 0x22 # w @ [CHR 0x22])) (ParseDatum F self t P)"
    using ParseLiteralImpl_ahead [of P pre "CHR 0x22" w r tok_string_literal s VString "VString s"] assms(2)
    by (simp add: ParseDatum_def ParseString_def ahead_def)
qed (simp add: start_kinds_def)

lemma reads_escaped_symbol:
  assumes "escaped (CHR ''|'') w" and "literal_loop w [] = Inr (None, s)"
  shows "reads F (VSymbol s l) (CHR ''|'' # w @ ''|'')"
proof (rule readsI_atom [where K = tok_symbol_literal])
  show "begins ((CHR ''|'' # w @ ''|'') @ d # post) (CHR ''|'' # w @ ''|'') tok_symbol_literal" for d post
    using begins_literal [OF assms(1), of tok_symbol_literal d post] by simp
next
  fix self t P pre r
  assume a: "ahead P pre ((CHR ''|'' # w @ ''|'') @ r) (CHR ''|'' # w @ ''|'') tok_symbol_literal"
  then show "returns (VSymbol s l) P (length pre + length (CHR ''|'' # w @ ''|'')) (ParseDatum F self t P)"
    using ParseLiteralImpl_ahead [of P pre "CHR ''|''" w r tok_symbol_literal s
        "\<lambda>s. VSymbol s (SourceLocation 0)" "VSymbol s l"] assms(2)
    by (simp add: ParseDatum_def ParseEscapedSymbol_def ahead_def)
qed (simp add: start_kinds_def)

lemma reads_identifier:
  assumes "\<And>d post. isDelimiter d \<Longrightarrow> NUL \<in> set (d # post) \<Longrightarrow> begins (s @ d # post) s tok_identifier"
  shows "reads F (VSymbol s l) s"
  by (rule readsI_atom [OF assms])
    (auto simp: start_kinds_def ParseDatum_def ParseSymbol_def Let_def ahead_def intro!: returns_ConsumeToken)

lemma reads_bool: "reads F (VBool b) (VisitBool b)"
proof (rule readsI_atom [where K = "if b then tok_true else tok_false"])
  fix d post assume "isDelimiter d"
  then show "begins (VisitBool b @ d # post) (VisitBool b) (if b then tok_true else tok_false)"
    using begins_lexeme [of LxTrue d post] begins_lexeme [of LxFalse d post] by (simp add: VisitBool_def)
next
  fix self t P pre r
  assume a: "ahead P pre (VisitBool b @ r) (VisitBool b) (if b then tok_true else tok_false)"
  then have "ParseDatum F self t P = andThen (ConsumeToken P) (\<lambda>P. Inr (Usable (VBool b), P))"
    by (simp add: ParseDatum_def ahead_def split: if_splits)
  then show "returns (VBool b) P (length pre + length (VisitBool b)) (ParseDatum F self t P)"
    using returns_ConsumeToken [OF a refl] by simp
qed (simp add: start_kinds_def)

lemma parseNumberPrefix_none:
  "c \<noteq> CHR ''#'' \<Longrightarrow> parseNumberPrefix (pre @ c # w) (length pre) e r = Some (False, length pre, e, r)"
  by (subst parseNumberPrefix.simps) (simp add: rd_after)

lemma parseNumberPrefix_hex:
  assumes "c \<noteq> CHR ''#''"
  shows "parseNumberPrefix (pre @ CHR ''#'' # CHR ''x'' # c # w) (length pre) None None
    = Some (False, length pre + 2, None, Some 16)"
proof -
  have "rd (pre @ CHR ''#'' # CHR ''x'' # c # w) (length pre + 1) = Some (CHR ''x'')"
    by (simp add: rd_def nth_append)
  then show ?thesis
    using parseNumberPrefix_none [OF assms, of "pre @ ''#x''" w None "Some 16"]
    by (subst parseNumberPrefix.simps) (simp add: rd_after Let_def)
qed

lemma text_range_ahead: "text_range (pre @ w @ r) (length pre) (length pre + length w) = w"
  by (simp add: text_range_def)

lemma reads_number:
  assumes "\<And>d post. isDelimiter d \<Longrightarrow> NUL \<in> set (d # post) \<Longrightarrow> begins ((p @ w) @ d # post) (p @ w) tok_numeric_constant"
    and "\<And>pre r. parseNumberPrefix (pre @ p @ w @ r) (length pre) None None = Some (False, length pre + length p, None, R)"
    and "tryParseInteger w (case R of None \<Rightarrow> 10 | Some r \<Rightarrow> r) = Inr (Some i)"
  shows "reads F (VInt i) (p @ w)"
proof (rule readsI_atom [OF assms(1)])
  fix self t P pre r
  assume a: "ahead P pre ((p @ w) @ r) (p @ w) tok_numeric_constant"
  have B: "Buffer (TheLexer P) = pre @ p @ w @ r" using a by (simp add: ahead_def)
  have "text_range (pre @ p @ w @ r) (length pre + length p) (length pre + length (p @ w)) = w"
    using text_range_ahead [of "pre @ p" w r] by (simp add: add.assoc)
  then have "ParseDatum F self t P = andThen (ConsumeToken P) (\<lambda>P. Inr (Usable (VInt i), P))"
    using a assms(2) [of pre r] assms(3)
    by (simp add: ParseDatum_def ahead_def ParseNumber_def B Let_def)
  then show "returns (VInt i) P (length pre + length (p @ w)) (ParseDatum F self t P)"
    using returns_ConsumeToken [OF a refl] by simp
qed (simp_all add: start_kinds_def)

lemma reads_int: "reads F (VInt i) (VisitInt i)"
proof -
  have "VisitInt i \<noteq> [] \<and> hd (VisitInt i) \<noteq> CHR ''#''"
    using decimal_in_digits [of "nat (sint i)"]
    by (cases "decimal (nat (sint i))") (auto simp: VisitInt_def digits_def)
  then obtain c cs where c: "VisitInt i = c # cs" "c \<noteq> CHR ''#''" by (cases "VisitInt i") auto
  have "begins (VisitInt i @ d # post) (VisitInt i) tok_numeric_constant"
    if d: "isDelimiter d" "NUL \<in> set (d # post)" for d post
  proof (cases "sint i < 0")
    case True
    then show ?thesis using begins_negative [of "decimal (nat (- sint i))" d post] decimal_in_digits d
      by (simp add: VisitInt_def)
  next
    case False
    have v: "lexeme_valid (LxNumber (decimal (nat (sint i))))"
      using decimal_in_digits [of "nat (sint i)"] digit_not_delimiter
      by (cases "decimal (nat (sint i))") (auto simp: list_all_iff)
    then show ?thesis using begins_lexeme [OF v d(1), of post] False by (simp add: VisitInt_def)
  qed
  then have "reads F (VInt i) ([] @ VisitInt i)"
    using c parseNumberPrefix_none tryParseInteger_written [of i, unfolded c(1)]
    by (intro reads_number [where R = None]) simp_all
  then show ?thesis by simp
qed

lemma reads_char:
  assumes "writable_char U C"
  shows "reads F (VChar C) (VisitChar U C)"
proof -
  obtain c cs where v: "VisitChar U C = CHR ''#'' # CHR 0x5C # c # cs" "list_all (\<lambda>c. \<not> isDelimiter c) cs"
    "char_constant (c # cs) = Inr (Inr C)"
    using VisitChar_read [OF assms] by blast
  show ?thesis unfolding v(1)
  proof (rule readsI_atom [where K = tok_char_constant])
    fix d post assume "isDelimiter d"
    then show "begins ((CHR ''#'' # CHR 0x5C # c # cs) @ d # post) (CHR ''#'' # CHR 0x5C # c # cs) tok_char_constant"
      using begins_char [OF v(2), of d c post] by simp
  next
    fix self t P pre r
    assume a: "ahead P pre ((CHR ''#'' # CHR 0x5C # c # cs) @ r) (CHR ''#'' # CHR 0x5C # c # cs) tok_char_constant"
    have "ParseDatum F self t P = andThen (ConsumeToken P) (\<lambda>P. Inr (Usable (VChar C), P))"
      using a v(3) by (simp add: ParseDatum_def ahead_def ParseCharConstant_def)
    then show "returns (VChar C) P (length pre + length (CHR ''#'' # CHR 0x5C # c # cs)) (ParseDatum F self t P)"
      using returns_ConsumeToken [OF a refl] by simp
  qed (simp add: start_kinds_def)
qed

section \<open>Lists\<close>

lemma returns_andThen:
  assumes "returns v P q m"
  obtains v' Q where "strip v' = strip v" and "moved P q Q"
    and "m = andThen (LexToken Q) (\<lambda>P'. Inr (Usable v', P'))"
  using assms unfolding returns_def by blast

lemma returns_moved: "returns v P' q m \<Longrightarrow> (\<And>q R. moved P' q R \<Longrightarrow> moved P q R) \<Longrightarrow> returns v P q m"
  unfolding returns_def by blast

text \<open>The part of a list behind an element: whitespace \<open>ws\<close> and then a text that is read as the tail \<open>v\<close>.\<close>

definition reads_tail :: "'f float_ops \<Rightarrow> 'f Value \<Rightarrow> string \<Rightarrow> string \<Rightarrow> bool" where
  "reads_tail F v ws w \<longleftrightarrow> list_all isWhitespace ws \<and> w \<noteq> [] \<and> isDelimiter (hd (ws @ w)) \<and> (\<forall>post. NUL \<in> set post \<longrightarrow>
     (\<exists>u K. begins (w @ post) u K \<and> K \<in> insert tok_r_paren (insert tok_period start_kinds))
     \<and> (\<exists>N. \<forall>n\<ge>N. \<forall>P pre u K t. Kind t = tok_l_paren \<longrightarrow> ahead P pre (w @ post) u K \<longrightarrow>
          returns v P (length pre + length w)
            (parse F n (if K = tok_period then CallDottedCdr t else CallList t) P)))"

lemma skip_none:
  "Kind (Tok P) \<noteq> tok_comment_datum \<Longrightarrow> parse F (Suc n) (CallSkipComments t) P = Inr (NoValue, P)"
  by (simp add: skip_datum_comments_def)

lemma CallList_unfold:
  "Kind (Tok P) \<noteq> tok_comment_datum \<Longrightarrow> Kind t = tok_l_paren \<Longrightarrow>
    parse F (Suc (Suc m)) (CallList t) P =
      (if Kind (Tok P) = tok_r_paren then andThen (ConsumeToken P) (\<lambda>P. Inr (Usable VEmpty, P))
       else andThen (parse F (Suc m) (CallExpr t) P) (\<lambda>(Car, P').
         if \<not> isUsable Car then Inr (Car, P')
         else andThen (if Kind (Tok P') = tok_period then parse F (Suc m) (CallDottedCdr t) P'
                       else parse F (Suc m) (CallList t) P') (\<lambda>(Cdr, P'').
           if \<not> isUsable Cdr then Inr (Cdr, P'')
           else get_value Car (\<lambda>car. get_value Cdr (\<lambda>cdr.
             Inr (Usable (VPair car cdr (Some (Loc (Tok P)))), P''))))))"
proof -
  assume k: "Kind (Tok P) \<noteq> tok_comment_datum" and t: "Kind t = tok_l_paren"
  have "parse F (Suc (Suc m)) (CallList t) P = ParseList (parse F (Suc m)) t P" by simp
  then show ?thesis
    by (simp only: ParseList_def Let_def skip_none [OF k] andThen.simps prod.case getClosingKind_def t TokenKind.case)
qed

lemma CallList_step:
  assumes "Kind (Tok P) \<noteq> tok_comment_datum" and "Kind (Tok P) \<noteq> tok_r_paren" and "Kind t = tok_l_paren"
    and "parse F (Suc m) (CallExpr t) P = andThen (LexToken Q) (\<lambda>P'. Inr (Usable v, P'))" and "LexToken Q = Inr P'"
    and "parse F (Suc m) (if Kind (Tok P') = tok_period then CallDottedCdr t else CallList t) P'
      = andThen (LexToken R) (\<lambda>P'. Inr (Usable x, P'))"
  shows "parse F (Suc (Suc m)) (CallList t) P
    = andThen (LexToken R) (\<lambda>P'. Inr (Usable (VPair v x (Some (Loc (Tok P)))), P'))"
proof -
  have r: "(if Kind (Tok P') = tok_period then parse F (Suc m) (CallDottedCdr t) P' else parse F (Suc m) (CallList t) P')
      = andThen (LexToken R) (\<lambda>P'. Inr (Usable x, P'))"
    using assms(6) by (simp only: if_distrib [of "parse F (Suc m)"] if_distribR)
  have "parse F (Suc (Suc m)) (CallList t) P = andThen (andThen (LexToken R) (\<lambda>P'. Inr (Usable x, P')))
      (\<lambda>(Cdr, P''). if \<not> isUsable Cdr then Inr (Cdr, P'')
         else get_value Cdr (\<lambda>cdr. Inr (Usable (VPair v cdr (Some (Loc (Tok P)))), P'')))"
    by (simp only: CallList_unfold [OF assms(1,3)] assms(2,4,5) r if_False andThen.simps prod.case
        isUsable_def get_value_def ValueResult.case not_True_eq_False)
  then show ?thesis by (cases "LexToken R") (simp_all only: andThen.simps prod.case isUsable_def get_value_def
        ValueResult.case not_True_eq_False if_False)
qed

lemma start_kinds_plain:
  "K \<in> start_kinds \<Longrightarrow> K \<notin> {tok_comment_datum, tok_r_paren, tok_period, tok_eof, tok_parser_directive}"
  by (auto simp: start_kinds_def)

lemma ahead_kind: "ahead P pre w u K \<Longrightarrow> Kind (Tok P) = K"
  and ahead_begins: "ahead P pre w u K \<Longrightarrow> begins w u K"
  and ahead_buffer: "ahead P pre w u K \<Longrightarrow> Buffer (TheLexer P) = pre @ w"
  and ahead_neoteric: "ahead P pre w u K \<Longrightarrow> \<not> IsNeoteric P"
  by (simp_all add: ahead_def)

text \<open>The elements of a list from the first on, which \<open>CallList\<close> reads.\<close>

lemma CallList_reads:
  assumes a: "reads F a wa" and d: "reads_tail F d ws wd" and post: "NUL \<in> set post"
  shows "\<exists>u K. begins (wa @ ws @ wd @ post) u K \<and> K \<in> start_kinds"
    and "\<exists>N. \<forall>n\<ge>N. \<forall>P pre u K t. Kind t = tok_l_paren \<longrightarrow> ahead P pre (wa @ ws @ wd @ post) u K \<longrightarrow>
      returns (VPair a d l) P (length pre + length (wa @ ws @ wd)) (parse F n (CallList t) P)"
proof -
  obtain e rest where e: "ws @ wd = e # rest" "isDelimiter e"
    using d by (cases "ws @ wd") (auto simp: reads_tail_def)
  have sp: "ws @ wd @ post = e # rest @ post" using e(1) by (metis append.assoc append_Cons)
  have n: "NUL \<in> set (e # rest @ post)" using post by simp
  note a' = a [unfolded reads_def, rule_format, OF e(2) n]
  obtain N1 where b1: "\<exists>u K. begins (wa @ ws @ wd @ post) u K \<and> K \<in> start_kinds"
    and N1: "\<And>n P pre u K t. N1 \<le> n \<Longrightarrow> ahead P pre (wa @ ws @ wd @ post) u K \<Longrightarrow>
      returns a P (length pre + length wa) (parse F n (CallExpr t) P)"
    using a' unfolding sp by blast
  obtain N2 u2 K2 where b2: "begins (wd @ post) u2 K2" "K2 \<in> insert tok_r_paren (insert tok_period start_kinds)"
    and N2: "\<And>n P pre u K t. N2 \<le> n \<Longrightarrow> Kind t = tok_l_paren \<Longrightarrow> ahead P pre (wd @ post) u K \<Longrightarrow>
      returns d P (length pre + length wd) (parse F n (if K = tok_period then CallDottedCdr t else CallList t) P)"
    using d post unfolding reads_tail_def by metis
  have ws: "list_all isWhitespace ws" using d by (simp add: reads_tail_def)
  show "\<exists>u K. begins (wa @ ws @ wd @ post) u K \<and> K \<in> start_kinds" by (rule b1)
  have "returns (VPair a d l) P (length pre + length (wa @ ws @ wd)) (parse F n (CallList t) P)"
    if n: "N1 + N2 + 2 \<le> n" and t: "Kind t = tok_l_paren" and h: "ahead P pre (wa @ ws @ wd @ post) u K"
    for n P pre u K t
  proof -
    obtain m where m: "n = Suc (Suc m)" "N1 \<le> Suc m" "N2 \<le> Suc m"
      using n by (cases n; cases "n - 1") auto
    have K: "K \<in> start_kinds" using b1 begins_unique [OF ahead_begins [OF h]] by blast
    obtain v Q where v: "strip v = strip a" "moved P (length pre + length wa) Q"
      "parse F (Suc m) (CallExpr t) P = andThen (LexToken Q) (\<lambda>P'. Inr (Usable v, P'))"
      using N1 [OF m(2) h] by (rule returns_andThen)
    have K2: "K2 \<noteq> tok_parser_directive" using b2(2) by (auto simp: start_kinds_def)
    obtain P' where P': "LexToken Q = Inr P'" "ahead P' (pre @ wa @ ws) (wd @ post) u2 K2"
      "\<And>q R. moved P' q R \<Longrightarrow> moved P q R"
      by (rule next_token [OF v(2) ahead_buffer [OF h] ahead_neoteric [OF h] b2(1) K2 ws]) (rule that)
    obtain x R where x: "strip x = strip d" "moved P' (length (pre @ wa @ ws) + length wd) R"
      "parse F (Suc m) (if K2 = tok_period then CallDottedCdr t else CallList t) P'
        = andThen (LexToken R) (\<lambda>P'. Inr (Usable x, P'))"
      using N2 [OF m(3) t P'(2)] by (rule returns_andThen)
    have "parse F n (CallList t) P = andThen (LexToken R)
        (\<lambda>P'. Inr (Usable (VPair v x (Some (Loc (Tok P)))), P'))"
    proof -
      have k: "Kind (Tok P) \<noteq> tok_comment_datum" "Kind (Tok P) \<noteq> tok_r_paren"
        using start_kinds_plain [OF K] ahead_kind [OF h] by auto
      show ?thesis unfolding m(1)
        by (rule CallList_step [OF k t v(3) P'(1)]) (simp only: ahead_kind [OF P'(2)] x(3))
    qed
    moreover have "moved P (length pre + length (wa @ ws @ wd)) R" using P'(3) [OF x(2)] by (simp add: add.assoc)
    ultimately show ?thesis using v(1) x(1) by (intro returnsI) simp_all
  qed
  then show "\<exists>N. \<forall>n\<ge>N. \<forall>P pre u K t. Kind t = tok_l_paren \<longrightarrow> ahead P pre (wa @ ws @ wd @ post) u K \<longrightarrow>
      returns (VPair a d l) P (length pre + length (wa @ ws @ wd)) (parse F n (CallList t) P)" by blast
qed

lemma reads_tail_pair:
  assumes "reads F a wa" and "reads_tail F d ws wd"
  shows "reads_tail F (VPair a d l) '' '' (wa @ ws @ wd)"
  unfolding reads_tail_def
proof (intro conjI allI impI)
  fix post assume n: "NUL \<in> set post"
  note c = CallList_reads [OF assms n]
  show "\<exists>u K. begins ((wa @ ws @ wd) @ post) u K \<and> K \<in> insert tok_r_paren (insert tok_period start_kinds)"
    using c(1) by auto
  obtain u0 K0 where b: "begins (wa @ ws @ wd @ post) u0 K0" "K0 \<in> start_kinds" using c(1) by blast
  obtain N where N: "\<And>n P pre u K t. N \<le> n \<Longrightarrow> Kind t = tok_l_paren \<Longrightarrow> ahead P pre (wa @ ws @ wd @ post) u K \<Longrightarrow>
      returns (VPair a d l) P (length pre + length (wa @ ws @ wd)) (parse F n (CallList t) P)"
    using c(2) [of l] by blast
  have "K \<noteq> tok_period" if "ahead P pre (wa @ ws @ wd @ post) u K" for P pre u K
    using begins_unique [OF ahead_begins [OF that] b(1)] start_kinds_plain [OF b(2)] by auto
  then show "\<exists>N. \<forall>n\<ge>N. \<forall>P pre u K t. Kind t = tok_l_paren \<longrightarrow> ahead P pre ((wa @ ws @ wd) @ post) u K \<longrightarrow>
      returns (VPair a d l) P (length pre + length (wa @ ws @ wd))
        (parse F n (if K = tok_period then CallDottedCdr t else CallList t) P)"
    using N by (intro exI [of _ N]) simp
qed (use assms(2) in \<open>auto simp: reads_tail_def whitespace_iff isDelimiter_def\<close>)

lemma reads_tail_empty: "reads_tail F VEmpty [] '')''"
  unfolding reads_tail_def
proof (intro conjI allI impI)
  fix post :: string
  have b: "begins ('')'' @ post) '')'' tok_r_paren" using begins_close by simp
  show "\<exists>u K. begins ('')'' @ post) u K \<and> K \<in> insert tok_r_paren (insert tok_period start_kinds)"
    using b by blast
  show "\<exists>N. \<forall>n\<ge>N. \<forall>P pre u K t. Kind t = tok_l_paren \<longrightarrow> ahead P pre ('')'' @ post) u K \<longrightarrow>
      returns VEmpty P (length pre + length '')'')
        (parse F n (if K = tok_period then CallDottedCdr t else CallList t) P)"
  proof (intro exI [of _ 2] allI impI)
    fix n :: nat and P pre u K and t :: token
    assume n: "2 \<le> n" and t: "Kind t = tok_l_paren" and h: "ahead P pre ('')'' @ post) u K"
    have u: "u = '')''" "K = tok_r_paren" using begins_unique [OF ahead_begins [OF h] b] by simp_all
    obtain m where m: "n = Suc (Suc m)" using n by (cases n; cases "n - 1") auto
    have "parse F n (CallList t) P = andThen (ConsumeToken P) (\<lambda>P. Inr (Usable VEmpty, P))"
      using ahead_kind [OF h] t u unfolding m by (subst CallList_unfold) simp_all
    then show "returns VEmpty P (length pre + length '')'')
        (parse F n (if K = tok_period then CallDottedCdr t else CallList t) P)"
      using returns_ConsumeToken [OF h refl] u by simp
  qed
qed (simp_all add: isDelimiter_def)

lemma reads_then:
  assumes "returns v P (length pre + length w) m" and "ahead P pre (w @ ws @ r) u0 K0"
    and "begins r u K" and "K \<noteq> tok_parser_directive" and "list_all isWhitespace ws"
  obtains v' P' where "strip v' = strip v" and "m = Inr (Usable v', P')" and "ahead P' (pre @ w @ ws) r u K"
    and "\<And>q R. moved P' q R \<Longrightarrow> moved P q R"
proof -
  obtain v' Q where v: "strip v' = strip v" "moved P (length pre + length w) Q"
    "m = andThen (LexToken Q) (\<lambda>P'. Inr (Usable v', P'))" using assms(1) by (rule returns_andThen)
  obtain P' where P': "LexToken Q = Inr P'" "ahead P' (pre @ w @ ws) r u K" "\<And>q R. moved P' q R \<Longrightarrow> moved P q R"
    by (rule next_token [OF v(2) ahead_buffer [OF assms(2)] ahead_neoteric [OF assms(2)] assms(3-5)]) (rule that)
  show ?thesis using that [OF v(1) _ P'(2,3)] v(3) P'(1) by simp
qed

lemma ConsumeToken_then:
  assumes "ahead P pre (w @ ws @ r) w K0" and "begins r u K" and "K \<noteq> tok_parser_directive" and "list_all isWhitespace ws"
  obtains P' where "ConsumeToken P = Inr P'" and "ahead P' (pre @ w @ ws) r u K"
    and "\<And>q R. moved P' q R \<Longrightarrow> moved P q R"
proof -
  note c = ahead_ConsumeToken [OF assms(1)]
  obtain P' where P': "LexToken (P\<lparr>PrevTok := Tok P\<rparr>) = Inr P'" "ahead P' (pre @ w @ ws) r u K"
    "\<And>q R. moved P' q R \<Longrightarrow> moved P q R"
    by (rule next_token [OF conjunct2 [OF c] ahead_buffer [OF assms(1)] ahead_neoteric [OF assms(1)] assms(2-4)])
      (rule that)
  show ?thesis using that [OF _ P'(2,3)] P'(1) c by simp
qed

lemma reads_tail_dotted:
  assumes v: "reads F v w"
  shows "reads_tail F v '' '' (''. '' @ w @ '')'')"
  unfolding reads_tail_def
proof (intro conjI allI impI)
  fix post :: string assume n: "NUL \<in> set post"
  have s: "(''. '' @ w @ '')'') @ post = CHR ''.'' # CHR '' '' # w @ CHR '')'' # post" by simp
  have b: "begins (CHR ''.'' # CHR '' '' # w @ CHR '')'' # post) ''.'' tok_period"
    by (rule begins_period) (simp add: isDelimiter_def whitespace_iff)
  show "\<exists>u K. begins ((''. '' @ w @ '')'') @ post) u K \<and> K \<in> insert tok_r_paren (insert tok_period start_kinds)"
    unfolding s using b by blast
  have d: "isDelimiter (CHR '')'')" "NUL \<in> set (CHR '')'' # post)" using n by (simp_all add: isDelimiter_def)
  obtain u1 K1 N where b1: "begins (w @ CHR '')'' # post) u1 K1" "K1 \<in> start_kinds"
    and N: "\<And>n P pre u K t. N \<le> n \<Longrightarrow> ahead P pre (w @ CHR '')'' # post) u K \<Longrightarrow>
      returns v P (length pre + length w) (parse F n (CallExpr t) P)"
    using v [unfolded reads_def, rule_format, OF d] by blast
  have "returns v P (length pre + length (''. '' @ w @ '')'')) (parse F n (CallDottedCdr t) P)"
    if n: "Suc N \<le> n" and t: "Kind t = tok_l_paren"
      and h: "ahead P pre (''.'' @ '' '' @ w @ CHR '')'' # post) ''.'' tok_period" for n P pre t
  proof -
    obtain m where m: "n = Suc m" "N \<le> m" using n by (cases n) auto
    have K1: "K1 \<noteq> tok_parser_directive" using b1(2) by (auto simp: start_kinds_def)
    obtain P1 where P1: "ConsumeToken P = Inr P1" "ahead P1 (pre @ ''.'' @ '' '') (w @ CHR '')'' # post) u1 K1"
      "\<And>q R. moved P1 q R \<Longrightarrow> moved P q R"
      by (rule ConsumeToken_then [OF h b1(1) K1]) (simp add: whitespace_iff, rule that)
    have a1: "ahead P1 (pre @ ''.'' @ '' '') (w @ [] @ CHR '')'' # post) u1 K1" using P1(2) by simp
    obtain x P2 where P2: "strip x = strip v" "parse F m (CallExpr t) P1 = Inr (Usable x, P2)"
      "ahead P2 ((pre @ ''.'' @ '' '') @ w @ []) (CHR '')'' # post) '')'' tok_r_paren" "\<And>q R. moved P2 q R \<Longrightarrow> moved P1 q R"
      by (rule reads_then [OF N [OF m(2) P1(2)] a1 begins_close]) (simp, simp, rule that)
    have c: "getClosingKind t (Terminator Q) = tok_r_paren" for Q using t by (simp add: getClosingKind_def)
    have "parse F n (CallDottedCdr t) P = andThen (ConsumeToken P2) (\<lambda>P. Inr (Usable x, P))"
      by (simp only: m(1) parse.simps(2) call.case ParseDottedCdr_def Let_def check_def ahead_kind [OF h] if_True
          P1(1) andThen.simps P2(2) prod.case c ahead_kind [OF P2(3)]) simp
    moreover have "returns x P2 (length pre + length (''. '' @ w @ '')''))
        (andThen (ConsumeToken P2) (\<lambda>P. Inr (Usable x, P)))"
      using returns_ConsumeToken [OF P2(3) refl] by (simp add: add.assoc)
    ultimately show ?thesis using P2(1,4) P1(3) unfolding returns_def by metis
  qed
  moreover have "u = ''.'' \<and> K = tok_period" if "ahead P pre (CHR ''.'' # CHR '' '' # w @ CHR '')'' # post) u K" for P pre u K
    using begins_unique [OF ahead_begins [OF that] b] by blast
  ultimately show "\<exists>N. \<forall>n\<ge>N. \<forall>P pre u K t. Kind t = tok_l_paren \<longrightarrow> ahead P pre ((''. '' @ w @ '')'') @ post) u K \<longrightarrow>
      returns v P (length pre + length (''. '' @ w @ '')''))
        (parse F n (if K = tok_period then CallDottedCdr t else CallList t) P)"
    unfolding s by (intro exI [of _ "Suc N"] allI impI) force
qed (simp_all add: isDelimiter_def whitespace_iff)

text \<open>Behind an opening parenthesis.\<close>

lemma reads_list:
  assumes "\<And>post. NUL \<in> set post \<Longrightarrow> (\<exists>u K. begins (w @ post) u K \<and> K \<noteq> tok_parser_directive)
    \<and> (\<exists>N. \<forall>n\<ge>N. \<forall>P pre u K t. Kind t = tok_l_paren \<longrightarrow> ahead P pre (w @ post) u K \<longrightarrow>
        returns v P (length pre + length w) (parse F n (CallList t) P))"
  shows "reads F v (''('' @ w)"
  unfolding reads_def
proof (intro allI impI conjI)
  fix d post assume n: "NUL \<in> set (d # post)"
  have s: "(''('' @ w) @ d # post = CHR ''('' # w @ d # post" by simp
  have b: "begins (CHR ''('' # w @ d # post) ''('' tok_l_paren" by (rule begins_open)
  show "\<exists>u K. begins ((''('' @ w) @ d # post) u K \<and> K \<in> start_kinds"
    unfolding s using b by (auto simp: start_kinds_def)
  obtain u1 K1 N where b1: "begins (w @ d # post) u1 K1" "K1 \<noteq> tok_parser_directive"
    and N: "\<And>n P pre u K t. N \<le> n \<Longrightarrow> Kind t = tok_l_paren \<Longrightarrow> ahead P pre (w @ d # post) u K \<Longrightarrow>
      returns v P (length pre + length w) (parse F n (CallList t) P)"
    using assms [OF n] by blast
  have "returns v P (length pre + length (''('' @ w)) (parse F n (CallExpr t) P)"
    if n: "N + 4 \<le> n" and h: "ahead P pre (''('' @ [] @ w @ d # post) ''('' tok_l_paren" for n P pre t
  proof -
    obtain m where m: "n = Suc (Suc (Suc (Suc m)))" "N \<le> m" using that [of "n - 4"] n by (simp add: numeral_eq_Suc Suc_diff_Suc)
    obtain P1 where P1: "ConsumeToken P = Inr P1" "ahead P1 (pre @ ''('' @ []) (w @ d # post) u1 K1"
      "\<And>q R. moved P1 q R \<Longrightarrow> moved P q R"
      by (rule ConsumeToken_then [OF h b1]) (simp, rule that)
    have k: "Kind (Tok P) = tok_l_paren" "\<not> IsNeoteric P" "\<not> IsNeoteric P1"
      using ahead_kind [OF h] ahead_neoteric [OF h] ahead_neoteric [OF P1(2)] by simp_all
    have "parse F n (CallExpr t) P = parse F m (CallList (Tok P)) P1"
      by (simp only: m(1) parse.simps(2) call.case ParseExpr_def ParseDatum_def ParseListStart_def ParseListBody_def
          check_def Let_def k TokenKind.case P1(1) andThen.simps if_True if_False simp_thms)
    then show ?thesis using N [OF m(2) k(1) P1(2)] P1(3) unfolding returns_def by (simp add: add.assoc) metis
  qed
  moreover have "u = ''('' \<and> K = tok_l_paren" if "ahead P pre (CHR ''('' # w @ d # post) u K" for P pre u K
    using begins_unique [OF ahead_begins [OF that] b] by blast
  ultimately show "\<exists>N. \<forall>n\<ge>N. \<forall>P pre u K t. ahead P pre ((''('' @ w) @ d # post) u K \<longrightarrow>
      returns v P (length pre + length (''('' @ w)) (parse F n (CallExpr t) P)"
    unfolding s by (intro exI [of _ "N + 4"] allI impI) force
qed

lemma reads_pair:
  assumes "reads F a wa" and "reads_tail F d ws wd"
  shows "reads F (VPair a d l) (''('' @ wa @ ws @ wd)"
proof (rule reads_list, intro conjI)
  fix post assume n: "NUL \<in> set post"
  note c = CallList_reads [OF assms n]
  show "\<exists>u K. begins ((wa @ ws @ wd) @ post) u K \<and> K \<noteq> tok_parser_directive"
    using c(1) start_kinds_plain by fastforce
  show "\<exists>N. \<forall>n\<ge>N. \<forall>P pre u K t. Kind t = tok_l_paren \<longrightarrow> ahead P pre ((wa @ ws @ wd) @ post) u K \<longrightarrow>
      returns (VPair a d l) P (length pre + length (wa @ ws @ wd)) (parse F n (CallList t) P)"
    using c(2) [of l] by simp
qed

lemma reads_empty: "reads F VEmpty ''()''"
proof -
  have "reads F VEmpty (''('' @ '')'')"
  proof (rule reads_list, intro conjI)
    fix post :: string assume n: "NUL \<in> set post"
    have b: "begins ('')'' @ post) '')'' tok_r_paren" using begins_close by simp
    then show "\<exists>u K. begins ('')'' @ post) u K \<and> K \<noteq> tok_parser_directive" by auto
    obtain N where N: "\<And>n P pre u K t. N \<le> n \<Longrightarrow> Kind t = tok_l_paren \<Longrightarrow> ahead P pre ('')'' @ post) u K \<Longrightarrow>
        returns VEmpty P (length pre + length '')'') (parse F n (if K = tok_period then CallDottedCdr t else CallList t) P)"
      using reads_tail_empty [of F] n unfolding reads_tail_def by blast
    have "K \<noteq> tok_period" if "ahead P pre ('')'' @ post) u K" for P pre u K
      using begins_unique [OF ahead_begins [OF that] b] by simp
    then have "returns VEmpty P (length pre + length '')'') (parse F n (CallList t) P)"
      if "N \<le> n" "Kind t = tok_l_paren" "ahead P pre ('')'' @ post) u K" for n P pre u K t
      using N [OF that] that(3) by (simp only: if_False)
    then show "\<exists>N. \<forall>n\<ge>N. \<forall>P pre u K t. Kind t = tok_l_paren \<longrightarrow> ahead P pre ('')'' @ post) u K \<longrightarrow>
        returns VEmpty P (length pre + length '')'') (parse F n (CallList t) P)" by blast
  qed
  then show ?thesis by simp
qed

section \<open>Vectors\<close>

fun elements_text :: "('f Value \<times> string) list \<Rightarrow> string" where
  "elements_text [] = '')''"
| "elements_text [(v, w)] = w @ '')''"
| "elements_text ((v, w) # z # zs) = w @ '' '' @ elements_text (z # zs)"

lemma value_of_strip: "valid_byte (strip v) = valid_byte v" "byte_of_value (strip v) = byte_of_value v"
  by (cases v; simp add: valid_byte_def byte_of_value_def)+

definition vector_value :: "bool \<Rightarrow> 'f Value list \<Rightarrow> 'f Value" where
  "vector_value b Xs = (if b then VByteVector (map byte_of_value Xs) else VVector Xs)"

lemma strip_vector_value:
  assumes "map strip Xs = map strip Ys" shows "strip (vector_value b Xs) = strip (vector_value b Ys)"
proof -
  have "map byte_of_value Zs = map byte_of_value (map strip Zs)" for Zs :: "'a Value list"
    by (simp add: value_of_strip)
  then have "map byte_of_value Xs = map byte_of_value Ys" using assms by metis
  then show ?thesis using assms by (simp add: vector_value_def)
qed

lemma CallVector_reads:
  assumes "\<And>v w. (v, w) \<in> set zs \<Longrightarrow> reads F v w \<and> (b \<longrightarrow> valid_byte v)" and n: "NUL \<in> set post"
  shows "(\<exists>u K. begins (elements_text zs @ post) u K \<and> K \<noteq> tok_parser_directive)
    \<and> (\<exists>N. \<forall>n\<ge>N. \<forall>P pre u K t Xs Ys. ahead P pre (elements_text zs @ post) u K \<longrightarrow> map strip Xs = map strip Ys \<longrightarrow>
        returns (vector_value b (Ys @ map fst zs)) P (length pre + length (elements_text zs))
          (parse F n (CallVector t Xs b) P))"
  using assms(1)
proof (induction zs)
  case Nil
  have b: "begins (CHR '')'' # post) '')'' tok_r_paren" by (rule begins_close)
  have "returns (vector_value b Ys) P (length pre + length '')'') (parse F n (CallVector t Xs b) P)"
    if n: "2 \<le> n" and h: "ahead P pre (CHR '')'' # post) u K" and X: "map strip Xs = map strip Ys" for n P pre u K t Xs Ys
  proof -
    have u: "u = '')''" "K = tok_r_paren" using begins_unique [OF ahead_begins [OF h] b] by simp_all
    have k: "Kind (Tok P) = tok_r_paren" "Kind (Tok P) \<noteq> tok_comment_datum" using ahead_kind [OF h] u by simp_all
    obtain m where m: "n = Suc (Suc m)" using that [of "n - 2"] n by (simp add: numeral_eq_Suc Suc_diff_Suc)
    have "parse F n (CallVector t Xs b) P = andThen (ConsumeToken P) (\<lambda>P. Inr (Usable (vector_value b Xs), P))"
      unfolding m by (subst parse.simps(2))
        (simp only: call.case ParseVector_def skip_none [OF k(2)] andThen.simps prod.case k(1) if_True vector_value_def simp_thms)
    then show ?thesis using returns_ConsumeToken [OF h strip_vector_value [OF X]] u by simp
  qed
  then show ?case using b by (auto intro!: exI [of _ 2])
next
  case (Cons z zs)
  obtain v w where z: "z = (v, w)" by (cases z)
  let ?sp = "if zs = [] then [] else '' ''"
  have t: "elements_text (z # zs) = w @ ?sp @ elements_text zs" by (cases zs) (simp_all add: z)
  have v: "reads F v w" "b \<longrightarrow> valid_byte v" using Cons.prems [of v w] z by simp_all
  obtain d rest where d: "?sp @ elements_text zs @ post = d # rest" "isDelimiter d"
    by (cases "zs = []") (simp_all add: isDelimiter_def whitespace_iff)
  have nd: "NUL \<in> set (d # rest)" using n d(1) [symmetric] by (cases "zs = []") auto
  note r = v(1) [unfolded reads_def, rule_format, OF d(2) nd, folded d(1)]
  obtain u1 K1 N1 where b1: "begins (w @ ?sp @ elements_text zs @ post) u1 K1" "K1 \<in> start_kinds"
    and N1: "\<And>n P pre u K t. N1 \<le> n \<Longrightarrow> ahead P pre (w @ ?sp @ elements_text zs @ post) u K \<Longrightarrow>
      returns v P (length pre + length w) (parse F n (CallExpr t) P)"
    using r by blast
  obtain u2 K2 N2 where b2: "begins (elements_text zs @ post) u2 K2" "K2 \<noteq> tok_parser_directive"
    and N2: "\<And>n P pre u K t Xs Ys. N2 \<le> n \<Longrightarrow> ahead P pre (elements_text zs @ post) u K \<Longrightarrow> map strip Xs = map strip Ys \<Longrightarrow>
      returns (vector_value b (Ys @ map fst zs)) P (length pre + length (elements_text zs)) (parse F n (CallVector t Xs b) P)"
    using Cons.IH Cons.prems by (metis (no_types) list.set_intros(2))
  have "returns (vector_value b (Ys @ v # map fst zs)) P (length pre + length (elements_text (z # zs)))
      (parse F n (CallVector t Xs b) P)"
    if n: "N1 + N2 + 2 \<le> n" and h: "ahead P pre (w @ ?sp @ elements_text zs @ post) u K" and X: "map strip Xs = map strip Ys"
    for n P pre u K t Xs Ys
  proof -
    obtain m where m: "n = Suc (Suc m)" "N1 \<le> Suc m" "N2 \<le> Suc m"
      using that [of "n - 2"] n by (simp add: numeral_eq_Suc Suc_diff_Suc)
    have K: "K \<in> start_kinds" using b1 begins_unique [OF ahead_begins [OF h]] by blast
    have k: "Kind (Tok P) \<noteq> tok_comment_datum" "Kind (Tok P) \<noteq> tok_r_paren"
      using start_kinds_plain [OF K] ahead_kind [OF h] by auto
    obtain v' P' where P': "strip v' = strip v" "parse F (Suc m) (CallExpr t) P = Inr (Usable v', P')"
      "ahead P' (pre @ w @ ?sp) (elements_text zs @ post) u2 K2" "\<And>q R. moved P' q R \<Longrightarrow> moved P q R"
      by (rule reads_then [OF N1 [OF m(2) h] h b2]) (simp add: whitespace_iff, rule that)
    have vb: "\<not> (b \<and> \<not> valid_byte v')" using v(2) P'(1) value_of_strip(1) by metis
    have "parse F n (CallVector t Xs b) P = parse F (Suc m) (CallVector t (Xs @ [v']) b) P'"
      unfolding m by (subst parse.simps(2))
        (simp only: call.case ParseVector_def skip_none [OF k(1)] andThen.simps prod.case k(2) if_False Let_def
          P'(2) isUsable_def get_value_def ValueResult.case not_True_eq_False vb simp_thms)
    moreover have "map strip (Xs @ [v']) = map strip (Ys @ [v])" using X P'(1) by simp
    ultimately have "returns (vector_value b ((Ys @ [v]) @ map fst zs)) P' (length (pre @ w @ ?sp) + length (elements_text zs))
        (parse F n (CallVector t Xs b) P)"
      using N2 [OF m(3) P'(3)] by (simp only:)
    from returns_moved [OF this P'(4)] show ?thesis unfolding t by (simp add: add.assoc del: parse.simps)
  qed
  then have "\<exists>N. \<forall>n\<ge>N. \<forall>P pre u K t Xs Ys. ahead P pre (w @ ?sp @ elements_text zs @ post) u K \<longrightarrow> map strip Xs = map strip Ys \<longrightarrow>
      returns (vector_value b (Ys @ v # map fst zs)) P (length pre + length (elements_text (z # zs)))
        (parse F n (CallVector t Xs b) P)" by blast
  moreover have "\<exists>u K. begins (w @ ?sp @ elements_text zs @ post) u K \<and> K \<noteq> tok_parser_directive"
    using b1(1) start_kinds_plain [OF b1(2)] by blast
  moreover have "elements_text (z # zs) @ post = w @ ?sp @ elements_text zs @ post" by (simp only: t append.assoc)
  moreover have "map fst (z # zs) = v # map fst zs" by (simp add: z)
  ultimately show ?case by (simp only: simp_thms)
qed

lemma reads_vector:
  assumes "\<And>v w. (v, w) \<in> set zs \<Longrightarrow> reads F v w \<and> (b \<longrightarrow> valid_byte v)"
  shows "reads F (vector_value b (map fst zs)) ((if b then ''#u8('' else ''#('') @ elements_text zs)"
  unfolding reads_def
proof (intro allI impI conjI)
  fix d post assume n: "NUL \<in> set (d # post)"
  let ?o = "if b then ''#u8('' else ''#(''" and ?k = "if b then tok_bytevector_lparen else tok_vector_lparen"
  have b: "begins (?o @ elements_text zs @ d # post) ?o ?k" using begins_vector begins_bytevector by simp
  then show "\<exists>u K. begins ((?o @ elements_text zs) @ d # post) u K \<and> K \<in> start_kinds"
    by (intro exI [of _ ?o] exI [of _ ?k]) (simp add: start_kinds_def)
  obtain u1 K1 N where b1: "begins (elements_text zs @ d # post) u1 K1" "K1 \<noteq> tok_parser_directive"
    and N: "\<And>n P pre u K t Xs Ys. N \<le> n \<Longrightarrow> ahead P pre (elements_text zs @ d # post) u K \<Longrightarrow> map strip Xs = map strip Ys \<Longrightarrow>
      returns (vector_value b (Ys @ map fst zs)) P (length pre + length (elements_text zs)) (parse F n (CallVector t Xs b) P)"
    using CallVector_reads [OF assms n] by (metis (no_types))
  have "returns (vector_value b (map fst zs)) P (length pre + length (?o @ elements_text zs)) (parse F n (CallExpr t) P)"
    if n: "N + 3 \<le> n" and h: "ahead P pre (?o @ elements_text zs @ d # post) ?o ?k" for n P pre t
  proof -
    obtain m where m: "n = Suc (Suc (Suc m))" "N \<le> m"
      using that [of "n - 3"] n by (simp add: numeral_eq_Suc Suc_diff_Suc)
    let ?P = "if b then P\<lparr>CurStartTok := Tok P\<rparr> else P"
    have h': "ahead ?P pre (?o @ [] @ elements_text zs @ d # post) ?o ?k" using h by (simp add: ahead_def)
    obtain P1 where P1: "ConsumeToken ?P = Inr P1" "ahead P1 (pre @ ?o @ []) (elements_text zs @ d # post) u1 K1"
      "\<And>q R. moved P1 q R \<Longrightarrow> moved ?P q R"
      by (rule ConsumeToken_then [OF h' b1]) (simp, rule that)
    have k: "Kind (Tok P) = ?k" "\<not> IsNeoteric P" using ahead_kind [OF h] ahead_neoteric [OF h] by simp_all
    have "parse F n (CallExpr t) P = parse F (Suc (Suc m)) (CallDatum t) P"
      unfolding m by (subst parse.simps(2)) (simp only: call.case ParseExpr_def k(2) if_False)
    also have "\<dots> = parse F (Suc m) (CallVectorStart b) ?P"
      by (subst parse.simps(2), cases b) (simp_all only: call.case ParseDatum_def k(1) TokenKind.case if_True if_False)
    also have "\<dots> = parse F m (CallVector (Tok ?P) [] b) P1"
      by (subst parse.simps(2)) (simp only: call.case ParseVectorStart_def Let_def P1(1) andThen.simps)
    finally have "returns (vector_value b (map fst zs)) P1 (length (pre @ ?o @ []) + length (elements_text zs))
        (parse F n (CallExpr t) P)" using N [OF m(2) P1(2), of "[]" "[]"] by (simp only: append_Nil simp_thms)
    from returns_moved [OF this P1(3)] have "returns (vector_value b (map fst zs)) ?P (length pre + length (?o @ elements_text zs))
        (parse F n (CallExpr t) P)" by (simp only: append_Nil2 length_append add.assoc)
    then show ?thesis by (rule returns_moved) (simp add: moved_def split: if_splits)
  qed
  then have "returns (vector_value b (map fst zs)) P (length pre + length (?o @ elements_text zs)) (parse F n (CallExpr t) P)"
    if "N + 3 \<le> n" and h: "ahead P pre (?o @ elements_text zs @ d # post) u K" for n P pre u K t
    using that begins_unique [OF ahead_begins [OF h] b] by (simp only:)
  then show "\<exists>N. \<forall>n\<ge>N. \<forall>P pre u K t. ahead P pre ((?o @ elements_text zs) @ d # post) u K \<longrightarrow>
      returns (vector_value b (map fst zs)) P (length pre + length (?o @ elements_text zs)) (parse F n (CallExpr t) P)"
    unfolding append.assoc by blast
qed

section \<open>All values\<close>

text \<open>
  The values whose text the reader reads back: no floats (their digits are LLVM's) and no external
  names; strings and symbols that are UTF-8 text; characters that are code points.
\<close>

definition writable_symbol :: "unicode_classes \<Rightarrow> string \<Rightarrow> bool" where
  "writable_symbol U s \<longleftrightarrow> (case isIdentifier s of
     Inl _ \<Rightarrow> False
   | Inr True \<Rightarrow> lexeme_valid (LxSymbol s) \<or> s \<in> {''+'', ''-'', ''...''}
   | Inr False \<Rightarrow> writable_text U s)"

fun writable :: "unicode_classes \<Rightarrow> 'f Value \<Rightarrow> bool" where
  "writable U VEmpty \<longleftrightarrow> True"
| "writable U (VBool b) \<longleftrightarrow> True"
| "writable U (VInt i) \<longleftrightarrow> True"
| "writable U (VChar c) \<longleftrightarrow> writable_char U c"
| "writable U (VFloat f) \<longleftrightarrow> False"
| "writable U (VString s) \<longleftrightarrow> writable_text U s"
| "writable U (VSymbol s l) \<longleftrightarrow> writable_symbol U s"
| "writable U (VExternName s l) \<longleftrightarrow> False"
| "writable U (VPair a d l) \<longleftrightarrow> writable U a \<and> writable U d"
| "writable U (VVector xs) \<longleftrightarrow> list_all (writable U) xs"
| "writable U (VByteVector s) \<longleftrightarrow> True"

lemma reads_byte: "reads F (VInt (byte c)) (write_byte c)"
proof -
  obtain a b where w: "write_byte c = ''#x'' @ [a, b]" "a \<in> set hex_digits" "b \<in> set hex_digits"
    "integer_loop 16 [a, b] 0 False = Some (byte c, False)" using write_byte_digits [of c] by auto
  have a: "a \<noteq> CHR ''#''" "a \<noteq> CHR ''-''" "a \<noteq> CHR ''+''" using w(2) by (auto simp: hex_digits_def)
  show ?thesis unfolding w(1)
  proof (rule reads_number [where R = "Some 16"])
    show "begins ((''#x'' @ [a, b]) @ d # post) (''#x'' @ [a, b]) tok_numeric_constant" if "isDelimiter d" for d post
      using begins_radix [OF _ that, of "[a, b]" post] w(2,3) hex_not_delimiter by simp
    show "parseNumberPrefix (pre @ ''#x'' @ [a, b] @ r) (length pre) None None
        = Some (False, length pre + length ''#x'', None, Some 16)" for pre r
      using parseNumberPrefix_hex [OF a(1), of pre "b # r"] by simp
    show "tryParseInteger [a, b] (case Some 16 of None \<Rightarrow> 10 | Some r \<Rightarrow> r) = Inr (Some (byte c))"
      using w(4) a by (simp add: tryParseInteger_def Let_def)
  qed
qed

lemma valid_byte_written: "valid_byte (VInt (byte c))" "byte_of_value (VInt (byte c)) = c"
proof -
  have "byte c < 256" using bits_less [OF byte_at_high [of "[c]" 0, unfolded byte_at_def]] by simp
  then have n: "unat (byte c) < 256" by (simp add: word_less_nat_alt)
  then have u: "uint (byte c) < 256" using \<open>byte c < 256\<close> by (simp add: word_less_alt)
  then have e: "signed_take_bit 31 (uint (byte c)) = uint (byte c)" using order_trans [OF _ uint_ge_0 [of "byte c"], of "- 2147483648"] by (intro signed_take_bit_int_eq_self) simp_all
  then have "sint (byte c) = uint (byte c)" by (simp add: sint_uint)
  then show "valid_byte (VInt (byte c))" using u uint_ge_0 [of "byte c"] by (simp add: valid_byte_def not_less)
  show "byte_of_value (VInt (byte c)) = c" by (simp add: byte_of_value_def to_char_byte)
qed

lemma elements_text_Cons: "elements_text ((v, w) # zs) = w @ concat (map (\<lambda>(_, w). CHR '' '' # w) zs) @ '')''"
  by (induction zs arbitrary: v w) auto

lemma reads_bytevector: "reads (F :: 'f float_ops) (VByteVector s) (VisitByteVector s)"
proof -
  let ?zs = "map (\<lambda>c. (VInt (byte c) :: 'f Value, write_byte c)) s"
  have "reads F (vector_value True (map fst ?zs)) ((if True then ''#u8('' else ''#('') @ elements_text ?zs)"
    by (rule reads_vector) (auto simp: reads_byte valid_byte_written)
  moreover have "vector_value True (map fst ?zs) = VByteVector s"
    by (simp add: vector_value_def valid_byte_written comp_def)
  moreover have "''#u8('' @ elements_text ?zs = VisitByteVector s"
    by (cases s) (simp_all add: VisitByteVector_def elements_text_Cons comp_def case_prod_unfold)
  ultimately show ?thesis by simp
qed

lemma cat_spaced_elements:
  "list_all2 (\<lambda>x w. f x = Inr w) xs ws \<Longrightarrow>
    \<exists>w. cat_spaced (map f xs) = Inr w \<and> elements_text (zip xs ws) = w @ '')''"
proof (induction xs arbitrary: ws)
  case (Cons x xs)
  then obtain w ws' where ws: "ws = w # ws'" "f x = Inr w" "list_all2 (\<lambda>x w. f x = Inr w) xs ws'"
    by (auto simp: list_all2_Cons1)
  show ?case using Cons.IH [OF ws(3)] ws by (cases xs; cases ws') auto
qed simp

lemma reads_symbol:
  assumes "writable_symbol U s" and "\<not> isPrintable U 0"
  shows "\<exists>w. VisitSymbol U s = Inr w \<and> reads F (VSymbol s l) w"
proof (cases "isIdentifier s")
  case (Inr raw)
  show ?thesis
  proof (cases raw)
    case True
    then consider "lexeme_valid (LxSymbol s)" | c where "s = [c]" "c = CHR ''+'' \<or> c = CHR ''-''" | "s = ''...''"
      using assms(1) Inr by (auto simp: writable_symbol_def simp del: lexeme_valid.simps)
    then have "begins (s @ d # post) s tok_identifier" if "isDelimiter d" "NUL \<in> set (d # post)" for d post
    proof cases
      case 1
      show ?thesis using begins_lexeme [OF 1 that(1)] by simp
    next
      case 2
      show ?thesis using begins_sign [OF 2(2) that] 2(1) by simp
    next
      case 3
      show ?thesis using begins_ellipsis [OF that(1)] 3 by simp
    qed
    then show ?thesis using reads_identifier [of s F l] Inr True by (auto simp: VisitSymbol_def)
  next
    case False
    then have "writable_text U s" using assms(1) Inr by (simp add: writable_symbol_def)
    from write_literal_read [OF this assms(2), of "CHR ''|''"] obtain w where w:
      "write_literal_loop U (CHR ''|'') s = Inr w" "escaped (CHR ''|'') w" "literal_loop w [] = Inr (None, s)"
      by (auto simp: delimiter_of_literal_def)
    then show ?thesis using reads_escaped_symbol [OF w(2,3)] Inr False by (simp add: VisitSymbol_def WriteLiteral_def)
  qed
qed (use assms in \<open>simp add: writable_symbol_def\<close>)

lemma reads_VisitString:
  assumes "writable_text U s" and "\<not> isPrintable U 0"
  shows "\<exists>w. VisitString U s = Inr w \<and> reads F (VString s) w"
proof -
  obtain w where w: "write_literal_loop U (CHR 0x22) s = Inr w" "escaped (CHR 0x22) w" "literal_loop w [] = Inr (None, s)"
    using write_literal_read [OF assms, of "CHR 0x22"] by (auto simp: delimiter_of_literal_def)
  then show ?thesis using reads_string [OF w(2,3)] by (simp add: VisitString_def WriteLiteral_def)
qed

lemma reads_tail_of:
  assumes "Visit U T v = Inr w" and "reads F v w" and "case v of VPair a d l \<Rightarrow> False | VEmpty \<Rightarrow> False | _ \<Rightarrow> True"
  shows "\<exists>ws wd. VisitCdr U T v = Inr (ws @ wd) \<and> reads_tail F v ws wd"
proof -
  have "VisitCdr U T v = Inr ('' '' @ ''. '' @ w @ '')'')"
    using assms(1,3) by (subst VisitCdr.simps) (cases v; simp)
  then show ?thesis using reads_tail_dotted [OF assms(2)] by blast
qed

text \<open>Every value is written, and its text is read back.\<close>

lemma written_atom:
  assumes "\<not> isPrintable U 0" and "writable U v" and "case v of VPair a d l \<Rightarrow> False | VEmpty \<Rightarrow> False | VVector xs \<Rightarrow> False | _ \<Rightarrow> True"
  shows "\<exists>w. Visit U T v = Inr w \<and> reads F v w"
  using assms reads_bool reads_int reads_char reads_VisitString reads_symbol reads_bytevector
  by (subst Visit.simps) (cases v; simp)

lemma written_reads:
  assumes U: "\<not> isPrintable U 0"
  shows "writable U v \<Longrightarrow> (\<exists>w. Visit U T v = Inr w \<and> reads F v w)
    \<and> (\<exists>ws wd. VisitCdr U T v = Inr (ws @ wd) \<and> reads_tail F v ws wd)"
proof (induction v)
  case (VPair a d l)
  then obtain wa ws wd where w: "Visit U T a = Inr wa" "reads F a wa" "VisitCdr U T d = Inr (ws @ wd)" "reads_tail F d ws wd"
    by auto
  have "Visit U T (VPair a d l) = Inr (''('' @ wa @ ws @ wd)" "VisitCdr U T (VPair a d l) = Inr ('' '' @ wa @ ws @ wd)"
    using w(1,3) by (simp_all add: Visit.simps [of U T "VPair a d l"] VisitCdr.simps [of U T "VPair a d l"])
  then show ?case using reads_pair [OF w(2,4), of l] reads_tail_pair [OF w(2,4), of l] by blast
next
  case VEmpty
  have "Visit U T VEmpty = Inr ''()''" "VisitCdr U T VEmpty = Inr ([] @ '')'')"
    by (simp_all add: Visit.simps [of U T VEmpty] VisitCdr.simps [of U T VEmpty])
  then show ?case using reads_empty reads_tail_empty by blast
next
  case (VVector xs)
  have "\<exists>w. Visit U T x = Inr w \<and> reads F x w" if "x \<in> set xs" for x
    using VVector that by (auto simp: list_all_iff)
  then obtain f where f: "\<And>x. x \<in> set xs \<Longrightarrow> Visit U T x = Inr (f x) \<and> reads F x (f x)" by metis
  then have "list_all2 (\<lambda>x w. Visit U T x = Inr w) xs (map f xs)" by (simp add: list_all2_conv_all_nth)
  from cat_spaced_elements [OF this] obtain w where w: "cat_spaced (map (Visit U T) xs) = Inr w"
    "elements_text (zip xs (map f xs)) = w @ '')''" by blast
  have "reads F (vector_value False (map fst (zip xs (map f xs)))) ((if False then ''#u8('' else ''#('') @ elements_text (zip xs (map f xs)))"
    using f by (intro reads_vector) (auto simp: zip_map2 in_set_zip)
  then have r: "reads F (VVector xs) (''#('' @ w @ '')'')" by (simp add: w(2) vector_value_def)
  have v: "Visit U T (VVector xs) = Inr (''#('' @ w @ '')'')" using w(1) by (subst Visit.simps) simp
  show ?case using r v reads_tail_of [OF v r] by simp
qed (drule written_atom [OF U, where F = F and T = T], simp, use reads_tail_of [where F = F and T = T and U = U] in fastforce)+

section \<open>The round trip\<close>

text \<open>\<open>Context::ParseLiteral\<close>: one expression of a text; None is the undefined value.\<close>

definition Context_ParseLiteral :: "'f float_ops \<Rightarrow> nat \<Rightarrow> string \<Rightarrow> 'f Value option result" where
  "Context_ParseLiteral F n Expr =
     andThen (PrimeToken tok_eof (new_parser \<lparr>FileLoc = SourceLocation 0, Buffer = Expr, BufferPtr = 0, IsBlockComment = False\<rparr>))
       (\<lambda>(_, P). andThen (ParseTopLevelExpr F n P)
       (\<lambda>(r, _). Inr (case r of Usable v \<Rightarrow> Some v | _ \<Rightarrow> None)))"

lemma begins_end:
  assumes "moved P (length pre + length w) Q" and "Buffer (TheLexer P) = pre @ w @ ws @ NUL # post"
    and "\<not> IsBlockComment (TheLexer P)" and "list_all isWhitespace ws"
  shows "\<exists>P'. LexToken Q = Inr P'"
  using Lex_end [of "TheLexer Q" "pre @ w" ws post] assms
  by (simp add: LexToken_def Let_def moved_def token_at_def)

lemma Context_ParseLiteral_reads:
  assumes "reads F v w"
  shows "\<exists>N. \<forall>n\<ge>N. \<exists>v'. Context_ParseLiteral F n (w @ CHR 0x0A # NUL # post) = Inr (Some v') \<and> strip v' = strip v"
proof -
  have d: "isDelimiter (CHR 0x0A)" "NUL \<in> set (CHR 0x0A # NUL # post)" by (simp_all add: isDelimiter_def whitespace_iff)
  obtain u K N where b: "begins (w @ CHR 0x0A # NUL # post) u K" "K \<in> start_kinds"
    and N: "\<And>n P pre u K t. N \<le> n \<Longrightarrow> ahead P pre (w @ CHR 0x0A # NUL # post) u K \<Longrightarrow>
      returns v P (length pre + length w) (parse F n (CallExpr t) P)"
    using assms [unfolded reads_def, rule_format, OF d] by blast
  let ?Q = "new_parser \<lparr>FileLoc = SourceLocation 0, Buffer = w @ CHR 0x0A # NUL # post, BufferPtr = 0, IsBlockComment = False\<rparr>"
  let ?L = "token_at (TheLexer ?Q) 0 u K"
  let ?P = "?Q\<lparr>TheLexer := fst ?L, Tok := snd ?L, Terminator := tok_eof\<rparr>"
  have L: "Lex (TheLexer ?Q) = Some ?L" using begins_Lex [OF b(1), of "[]" "TheLexer ?Q" "[]"] by (simp add: new_parser_def)
  note k = start_kinds_plain [OF b(2)]
  have prime: "PrimeToken tok_eof ?Q = Inr (True, ?P)"
    using L k by (simp add: PrimeToken_def LexToken_def Let_def token_at_def)
  have a: "ahead ?P [] (w @ CHR 0x0A # NUL # post) u K"
    using b(1) by (simp add: ahead_def token_at_def new_parser_def)
  have t: "ParseTopLevelExpr F n ?P = parse F n (CallExpr default_token) ?P" for n
    using k by (simp add: ParseTopLevelExpr_def CheckTerminator_def token_at_def new_parser_def)
  have "\<exists>v'. Context_ParseLiteral F n (w @ CHR 0x0A # NUL # post) = Inr (Some v') \<and> strip v' = strip v" if n: "N \<le> n" for n
  proof -
    obtain v' Q where v: "strip v' = strip v" "moved ?P (length ([] :: string) + length w) Q"
      "parse F n (CallExpr default_token) ?P = andThen (LexToken Q) (\<lambda>P'. Inr (Usable v', P'))"
      by (rule returns_andThen [OF N [OF n a, of default_token]]) (rule that)
    obtain P' where "LexToken Q = Inr P'"
      using begins_end [OF v(2), of "[CHR 0x0A]" post] by (auto simp: token_at_def new_parser_def whitespace_iff)
    then have "Context_ParseLiteral F n (w @ CHR 0x0A # NUL # post) = Inr (Some v')"
      by (simp only: Context_ParseLiteral_def prime andThen.simps prod.case t v(3) ValueResult.case)
    then show ?thesis using v(1) by blast
  qed
  then show ?thesis by blast
qed


text \<open>A list with a negative number, a string with an escape, a quoted symbol, a vector and a dotted tail.\<close>

definition example_unicode :: unicode_classes where
  "example_unicode = \<lparr>isPrintable = (\<lambda>c. 0x20 \<le> c \<and> c < 0x7F), isFormatting = (\<lambda>_. False)\<rparr>"

definition example_float_text :: "int float_text" where
  "example_float_text = \<lparr>isInfinity = (\<lambda>_. False), isNaN = (\<lambda>_. False), isNegative = (\<lambda>f. f < 0), toString = (\<lambda>_. ''0.5'')\<rparr>"

definition example_value :: "int Value" where
  "example_value = VPair (VInt (- 42)) (VPair (VString [CHR ''a'', CHR 0x22]) (VPair (VSymbol ''a b'' (SourceLocation 0))
     (VPair (VVector [VBool True, VChar 0x0A, VEmpty]) (VByteVector [CHR 0x0A]) None) None) None) None"

lemma example_writable: "writable example_unicode example_value" "\<not> isPrintable example_unicode 0"
  by code_simp+


end
