(* ===== verification/Transition.thy ===== *)
theory Transition
  imports Main
begin

text \<open>
  Runs of a component whose steps are events of its environment, and the interface of an invariant
  that may speak of the events so far: it holds at the start and every step keeps it.
\<close>

inductive run :: "('s \<Rightarrow> 'e \<Rightarrow> 's \<Rightarrow> bool) \<Rightarrow> 's \<Rightarrow> 'e list \<Rightarrow> 's \<Rightarrow> bool"
  for step :: "'s \<Rightarrow> 'e \<Rightarrow> 's \<Rightarrow> bool" and start :: 's where
  run_Nil: "run step start [] start"
| run_snoc: "run step start es s \<Longrightarrow> step s e t \<Longrightarrow> run step start (es @ [e]) t"

locale trace_invariant =
  fixes step :: "'s \<Rightarrow> 'e \<Rightarrow> 's \<Rightarrow> bool" and start :: 's and I :: "'e list \<Rightarrow> 's \<Rightarrow> bool"
  assumes holds_start: "I [] start"
    and holds_step: "I es s \<Longrightarrow> step s e t \<Longrightarrow> I (es @ [e]) t"
begin

lemma holds: "run step start es s \<Longrightarrow> I es s"
  by (induction rule: run.induct) (auto intro: holds_start holds_step)

end

text \<open>Executing a function that implements the steps gives a run.\<close>

fun execute :: "('s \<Rightarrow> 'e \<Rightarrow> 's option) \<Rightarrow> 's \<Rightarrow> 'e list \<Rightarrow> 's option" where
  "execute f s [] = Some s"
| "execute f s (e # es) = (case f s e of None \<Rightarrow> None | Some t \<Rightarrow> execute f t es)"

lemma run_Cons:
  assumes "step s e t" "run step t es u"
  shows "run step s (e # es) u"
  using assms(2)
proof (induction rule: run.induct)
  case run_Nil
  show ?case using run.run_snoc [of step s "[]" s e t, OF run.run_Nil assms(1)] by simp
next
  case (run_snoc es s' e' t')
  then show ?case using run.run_snoc [of step s "e # es" s' e' t'] by simp
qed

lemma execute_run:
  assumes "\<And>s e t. f s e = Some t \<Longrightarrow> step s e t"
  shows "execute f s es = Some t \<Longrightarrow> run step s es t"
  by (induction es arbitrary: s) (auto intro: run_Nil run_Cons assms split: option.splits)

end
