(* ===== verification/SourceManager.thy ===== *)
theory SourceManager
  imports Lexer Result Transition
begin

text \<open>
  Source files and locations (\<open>schir/lib/SourceManager.cpp\<close>, \<open>schir/include/schir/SourceManager.h\<close>,
  \<open>schir/include/schir/Source.h\<close>). All files share one 32-bit space of locations, which starts at 1;
  pointers into a buffer are offsets from its start.
\<close>

section \<open>Files\<close>

text \<open>\<open>BehindEnd\<close> is the byte behind the buffer, where there is one that may be read.\<close>

record SourceFile =
  FileBuffer :: string
  BehindEnd :: "char option"
  FileName :: string
  StartLoc :: source_location
  ExternalRawEncoding :: "64 word"

definition no_file :: SourceFile where
  "no_file = \<lparr>FileBuffer = [], BehindEnd = None, FileName = [], StartLoc = SourceLocation 0, ExternalRawEncoding = 0\<rparr>"

definition isExternal :: "SourceFile \<Rightarrow> bool" where
  "isExternal X \<longleftrightarrow> 0 < ExternalRawEncoding X"

definition file_isValid :: "SourceFile \<Rightarrow> bool" where
  "file_isValid X \<longleftrightarrow> isValid (StartLoc X) \<or> isExternal X"

definition hasLoc :: "SourceFile \<Rightarrow> source_location \<Rightarrow> bool" where
  "hasLoc X Location =
     (let L = getEncoding Location;
          Start = getEncoding (StartLoc X);
          End = Start + of_nat (length (FileBuffer X))
      in Start \<le> L \<and> L < End)"

definition getOffsetFrom :: "source_location \<Rightarrow> source_location \<Rightarrow> u32 result" where
  "getOffsetFrom L Start =
     check (getEncoding Start < getEncoding L) (Inr (getEncoding L - getEncoding Start))"

section \<open>The manager\<close>

record source_manager =
  Entries :: "SourceFile list"
  ExternalLookup :: "64 word \<Rightarrow> SourceFile option"

definition new_source_manager :: source_manager where
  "new_source_manager = \<lparr>Entries = [], ExternalLookup = Map.empty\<rparr>"

definition getNextStartLoc :: "source_manager \<Rightarrow> source_location" where
  "getNextStartLoc M =
     (if Entries M = [] then SourceLocation 1
      else let LastFile = last (Entries M);
               Start = StartLoc LastFile;
               Len = of_nat (length (FileBuffer LastFile))
           in SourceLocation (getEncoding Start + Len))"

definition createEntry ::
  "string \<Rightarrow> char option \<Rightarrow> string \<Rightarrow> 64 word \<Rightarrow> source_manager \<Rightarrow> SourceFile \<times> source_manager"
where
  "createEntry Buf Behind Name Raw M =
     (let File = \<lparr>FileBuffer = Buf, BehindEnd = Behind, FileName = Name, StartLoc = getNextStartLoc M,
                  ExternalRawEncoding = Raw\<rparr>
      in (File, M\<lparr>Entries := Entries M @ [File]\<rparr>))"

fun getFile_loop :: "SourceFile list \<Rightarrow> source_location \<Rightarrow> SourceFile" where
  "getFile_loop [] Location = no_file"
| "getFile_loop (X # Xs) Location = (if hasLoc X Location then X else getFile_loop Xs Location)"

definition getFile :: "source_manager \<Rightarrow> source_location \<Rightarrow> SourceFile" where
  "getFile M Location = (if \<not> isValid Location then no_file else getFile_loop (Entries M) Location)"

definition getOrCreateExternal ::
  "64 word \<Rightarrow> string \<Rightarrow> char option \<Rightarrow> string \<Rightarrow> source_manager \<Rightarrow> SourceFile \<times> source_manager"
where
  "getOrCreateExternal Raw Buf Behind Name M =
     (case ExternalLookup M Raw of
        None \<Rightarrow> let (File, M) = createEntry Buf Behind Name Raw M
                in (File, M\<lparr>ExternalLookup := (ExternalLookup M)(Raw \<mapsto> File)\<rparr>)
      | Some File \<Rightarrow> (File, M))"

text \<open>The two ways to add a file.\<close>

datatype file_event = Create string "char option" string | External "64 word" string "char option" string

fun add_file :: "source_manager \<Rightarrow> file_event \<Rightarrow> source_manager" where
  "add_file M (Create Buf Behind Name) = snd (createEntry Buf Behind Name 0 M)"
| "add_file M (External Raw Buf Behind Name) = snd (getOrCreateExternal Raw Buf Behind Name M)"

definition add_step :: "source_manager \<Rightarrow> file_event \<Rightarrow> source_manager \<Rightarrow> bool" where
  "add_step M e M' \<longleftrightarrow> M' = add_file M e"

section \<open>Full locations\<close>

record FullSourceLocation =
  HasManager :: bool
  File :: SourceFile
  FullLoc :: source_location

definition getFullSourceLocation :: "source_manager \<Rightarrow> source_location \<Rightarrow> FullSourceLocation" where
  "getFullSourceLocation M Location = \<lparr>HasManager = True, File = getFile M Location, FullLoc = Location\<rparr>"

definition getOffset :: "FullSourceLocation \<Rightarrow> u32 result" where
  "getOffset X = getOffsetFrom (FullLoc X) (StartLoc (File X))"

definition full_isValid :: "FullSourceLocation \<Rightarrow> bool" where
  "full_isValid X \<longleftrightarrow> HasManager X \<and> isValid (FullLoc X) \<and> file_isValid (File X) \<and> \<not> isExternal (File X)"

record SourceLineStart =
  LineLoc :: source_location
  LineStartNumber :: u32

definition getClosestLineStart :: "SourceFile \<Rightarrow> source_location \<Rightarrow> SourceLineStart" where
  "getClosestLineStart X Location = \<lparr>LineLoc = StartLoc X, LineStartNumber = 1\<rparr>"

definition getBufferPos :: "SourceFile \<Rightarrow> source_location \<Rightarrow> int" where
  "getBufferPos X Location = uint (getEncoding Location) - uint (getEncoding (StartLoc X))"

record SourceLineContext =
  ContextFileName :: string
  LineRange :: string
  Column :: u32
  LineNumber :: u32

text \<open>The scan forward: the line number and the start of the line at the end of the scan.\<close>

function scan_forward :: "string \<Rightarrow> int \<Rightarrow> int \<Rightarrow> u32 \<Rightarrow> int \<Rightarrow> u32 \<times> int" where
  "scan_forward buf TargetPos CurPos LineNo LineStartPos =
     (if TargetPos = CurPos then (LineNo, LineStartPos)
      else if CurPos < 0 \<or> int (length buf) \<le> CurPos then (LineNo, LineStartPos)
      else if buf ! nat CurPos = CHR 0x0A
      then scan_forward buf TargetPos (CurPos + 1) (LineNo + 1) (CurPos + 1)
      else scan_forward buf TargetPos (CurPos + 1) LineNo LineStartPos)"
  by pat_completeness auto
termination
  by (relation "measure (\<lambda>(buf, t, c, n, s). nat (int (length buf) - c))") auto

declare scan_forward.simps [simp del]

text \<open>The scan backward, and from there to the start of the line.\<close>

function scan_backward :: "string \<Rightarrow> int \<Rightarrow> int \<Rightarrow> u32 \<Rightarrow> u32 \<times> int" where
  "scan_backward buf TargetPos CurPos LineNo =
     (if TargetPos = CurPos \<or> CurPos \<le> 0 then (LineNo, CurPos)
      else scan_backward buf TargetPos (CurPos - 1) (if buf ! nat CurPos = CHR 0x0A then LineNo - 1 else LineNo))"
  by pat_completeness auto
termination
  by (relation "measure (\<lambda>(buf, t, c, n). nat c)") auto

function line_start :: "string \<Rightarrow> int \<Rightarrow> int" where
  "line_start buf CurPos =
     (if CurPos \<le> 0 then 0
      else if buf ! nat CurPos = CHR 0x0A then CurPos + 1 else line_start buf (CurPos - 1))"
  by pat_completeness auto
termination
  by (relation "measure (\<lambda>(buf, c). nat c)") auto

declare scan_backward.simps [simp del] line_start.simps [simp del]

text \<open>The condition of this loop reads the byte before it compares the pointer with the end.\<close>

function line_end :: "SourceFile \<Rightarrow> nat \<Rightarrow> nat result" where
  "line_end X i =
     (if length (FileBuffer X) \<le> i then (if BehindEnd X = None then Inl BufferOverread else Inr i)
      else if FileBuffer X ! i = CHR 0x0A \<or> FileBuffer X ! i = CHR 0x0D then Inr i
      else line_end X (i + 1))"
  by pat_completeness auto
termination
  by (relation "measure (\<lambda>(X, i). length (FileBuffer X) - i)") auto

declare line_end.simps [simp del]

definition getLineContext :: "FullSourceLocation \<Rightarrow> SourceLineContext result" where
  "getLineContext X =
     check (full_isValid X) (
       let Closest = getClosestLineStart (File X) (FullLoc X);
           TargetPos = getBufferPos (File X) (FullLoc X);
           CurPos = getBufferPos (File X) (LineLoc Closest);
           (LineNo, LineStartPos) =
             (if CurPos \<le> TargetPos
              then scan_forward (FileBuffer (File X)) TargetPos CurPos (LineStartNumber Closest) CurPos
              else case scan_backward (FileBuffer (File X)) TargetPos CurPos (LineStartNumber Closest) of
                (n, Cur) \<Rightarrow> (n, line_start (FileBuffer (File X)) Cur))
       in andThen (line_end (File X) (nat LineStartPos)) (\<lambda>LineEndPos.
          Inr \<lparr>ContextFileName = FileName (File X),
               LineRange = text_range (FileBuffer (File X)) (nat LineStartPos) LineEndPos,
               Column = of_int (TargetPos - LineStartPos),
               LineNumber = LineNo\<rparr>))"

section \<open>The space of locations\<close>

text \<open>The files lie one behind the other from 1 on.\<close>

abbreviation total :: "SourceFile list \<Rightarrow> nat" where
  "total fs \<equiv> sum_list (map (\<lambda>f. length (FileBuffer f)) fs)"

definition start :: "SourceFile \<Rightarrow> nat" where
  "start f = unat (getEncoding (StartLoc f))"

fun consecutive :: "nat \<Rightarrow> SourceFile list \<Rightarrow> bool" where
  "consecutive n [] \<longleftrightarrow> True"
| "consecutive n (f # fs) \<longleftrightarrow> start f = n \<and> consecutive (n + length (FileBuffer f)) fs"

definition layout :: "source_manager \<Rightarrow> bool" where
  "layout M \<longleftrightarrow> (1 + total (Entries M) < 2 ^ 32 \<longrightarrow> consecutive 1 (Entries M))
     \<and> (\<forall>k f. ExternalLookup M k = Some f \<longrightarrow> f \<in> set (Entries M) \<and> ExternalRawEncoding f = k)"

lemma consecutive_append:
  "consecutive n (fs @ [f]) \<longleftrightarrow> consecutive n fs \<and> start f = n + total fs"
  by (induction fs arbitrary: n) (auto simp: add.assoc)

lemma consecutive_last: "consecutive n fs \<Longrightarrow> fs \<noteq> [] \<Longrightarrow> start (last fs) + length (FileBuffer (last fs)) = n + total fs"
  by (induction fs arbitrary: n) (auto simp: add.assoc)

lemma getNextStartLoc_layout:
  assumes "consecutive 1 (Entries M)" and "1 + total (Entries M) < 2 ^ 32"
  shows "unat (getEncoding (getNextStartLoc M)) = 1 + total (Entries M)"
proof (cases "Entries M = []")
  case False
  define f where "f = last (Entries M)"
  have e: "start f + length (FileBuffer f) = 1 + total (Entries M)"
    using consecutive_last [OF assms(1) False] by (simp add: f_def)
  then have "length (FileBuffer f) < 2 ^ 32" using assms(2) by linarith
  then have "unat (getEncoding (StartLoc f) + of_nat (length (FileBuffer f))) = start f + length (FileBuffer f)"
    using e assms(2) by (simp add: start_def unat_word_ariths unat_of_nat)
  then show ?thesis using e False by (simp add: getNextStartLoc_def f_def Let_def)
qed (simp add: getNextStartLoc_def)

interpretation files: trace_invariant add_step new_source_manager "\<lambda>_. layout"
proof
  fix es s e t assume l: "layout s" and "add_step s e t"
  then have t: "t = add_file s e" by (simp add: add_step_def)
  have c: "1 + total (Entries s @ [f]) < 2 ^ 32 \<Longrightarrow> getNextStartLoc s = StartLoc f \<Longrightarrow> consecutive 1 (Entries s @ [f])" for f
    using l getNextStartLoc_layout [of s] by (auto simp: layout_def consecutive_append start_def)
  show "layout t"
  proof (cases e)
    case (Create b h n)
    show ?thesis using l c unfolding t Create by (auto simp: layout_def createEntry_def Let_def)
  next
    case (External k b h n)
    show ?thesis
    proof (cases "ExternalLookup s k")
      case None
      show ?thesis using l c None unfolding t External
        by (auto simp: layout_def createEntry_def getOrCreateExternal_def Let_def)
    qed (use l in \<open>simp add: t External getOrCreateExternal_def\<close>)
  qed
qed (simp add: layout_def new_source_manager_def)

lemma hasLoc_start:
  assumes "start X + length (FileBuffer X) < 2 ^ 32"
  shows "hasLoc X L \<longleftrightarrow> start X \<le> unat (getEncoding L) \<and> unat (getEncoding L) < start X + length (FileBuffer X)"
  using assms by (simp add: hasLoc_def Let_def start_def word_le_nat_alt word_less_nat_alt unat_word_ariths unat_of_nat)

lemma getFile_loop_none:
  "consecutive n fs \<Longrightarrow> n + total fs < 2 ^ 32 \<Longrightarrow> unat (getEncoding L) < n \<or> n + total fs \<le> unat (getEncoding L) \<Longrightarrow>
    getFile_loop fs L = no_file"
proof (induction fs arbitrary: n)
  case (Cons f fs)
  then have "\<not> hasLoc f L" by (auto simp: hasLoc_start)
  then show ?case using Cons.IH [of "n + length (FileBuffer f)"] Cons.prems by auto
qed simp

lemma getFile_loop_found:
  "consecutive n fs \<Longrightarrow> n + total fs < 2 ^ 32 \<Longrightarrow> f \<in> set fs \<Longrightarrow> k < length (FileBuffer f) \<Longrightarrow>
    unat (getEncoding L) = start f + k \<Longrightarrow> n \<le> unat (getEncoding L) \<and> getFile_loop fs L = f"
proof (induction fs arbitrary: n)
  case (Cons g fs)
  have g: "hasLoc g L \<longleftrightarrow> n \<le> unat (getEncoding L) \<and> unat (getEncoding L) < n + length (FileBuffer g)"
    using Cons.prems(1,2) by (subst hasLoc_start) auto
  show ?case
  proof (cases "f \<in> set fs")
    case True
    then have "n + length (FileBuffer g) \<le> unat (getEncoding L) \<and> getFile_loop fs L = f"
      using Cons.prems by (intro Cons.IH) (auto simp: add.assoc)
    then show ?thesis using g by auto
  next
    case False
    then have "f = g" using Cons.prems(3) by simp
    then show ?thesis using g Cons.prems by auto
  qed
qed simp

lemma offset_encoding:
  assumes "start f + k < 2 ^ 32"
  shows "unat (getEncoding (getLocWithOffset (StartLoc f) (of_nat k))) = start f + k"
  using assms by (simp add: getLocWithOffset_def start_def unat_word_ariths unat_of_nat)

lemma consecutive_member:
  "consecutive n fs \<Longrightarrow> f \<in> set fs \<Longrightarrow> n \<le> start f \<and> start f + length (FileBuffer f) \<le> n + total fs"
proof (induction fs arbitrary: n)
  case (Cons g fs)
  have "n + length (FileBuffer g) \<le> start f \<and> start f + length (FileBuffer f) \<le> n + length (FileBuffer g) + total fs" if "f \<in> set fs"
    using Cons.IH [OF _ that] Cons.prems(1) by simp
  then show ?case using Cons.prems by (cases "f \<in> set fs") auto
qed simp

lemma created_file:
  assumes "run add_step new_source_manager es M" and "1 + total (Entries M) < 2 ^ 32"
    and "f \<in> set (Entries M)" and "k < length (FileBuffer f)"
  shows "getFile M (getLocWithOffset (StartLoc f) (of_nat k)) = f"
    and "unat (getEncoding (getLocWithOffset (StartLoc f) (of_nat k))) = start f + k" and "0 < start f"
    and "start f + length (FileBuffer f) < 2 ^ 32"
proof -
  have c: "consecutive 1 (Entries M)" using files.holds [OF assms(1)] assms(2) by (simp add: layout_def)
  let ?L = "getLocWithOffset (StartLoc f) (of_nat k)"
  note m = consecutive_member [OF c assms(3)]
  show "0 < start f" "start f + length (FileBuffer f) < 2 ^ 32" using m assms(2) by linarith+
  show e: "unat (getEncoding ?L) = start f + k" using m assms(2,4) by (intro offset_encoding) linarith
  have "isValid ?L" using e m by (auto simp: isValid_def)
  then show "getFile M ?L = f" using getFile_loop_found [OF c assms(2-4) e] by (simp add: getFile_def)
qed


definition example_files :: "file_event list" where
  "example_files = [Create ''ab'' (Some NUL) ''x.scm'', External 7 ''(c)'' None ''y.cpp'', Create [] (Some NUL) ''z.scm'',
     External 7 ''(c)'' None ''y.cpp'']"

definition example_manager :: source_manager where
  "example_manager = fold (\<lambda>e M. add_file M e) example_files new_source_manager"

lemma example_files_run: "run add_step new_source_manager example_files example_manager"
  using execute_run [of "\<lambda>M e. Some (add_file M e)" add_step new_source_manager example_files example_manager]
  by (simp add: add_step_def example_files_def example_manager_def)

lemma example_entries:
  "map (\<lambda>f. (FileBuffer f, getEncoding (StartLoc f))) (Entries example_manager) = [(''ab'', 1), (''(c)'', 3), ([], 6)]"
  by code_simp


section \<open>Lines\<close>

text \<open>The lines of a text, and the line and column of an offset in them.\<close>

fun lines_of :: "string \<Rightarrow> string list" where
  "lines_of [] = [[]]"
| "lines_of (c # cs) = (if c = CHR 0x0A then [] # lines_of cs else (c # hd (lines_of cs)) # tl (lines_of cs))"

fun line_of :: "string list \<Rightarrow> nat \<Rightarrow> nat \<times> nat" where
  "line_of [] k = (0, k)"
| "line_of (l # ls) k = (if k \<le> length l then (0, k) else
     case line_of ls (k - length l - 1) of (n, c) \<Rightarrow> (n + 1, c))"

lemma lines_of_Nil [simp]: "lines_of s \<noteq> []"
  by (cases s) auto

lemma lines_of_newline: "CHR 0x0A \<notin> set l \<Longrightarrow> lines_of (l @ CHR 0x0A # r) = l # lines_of r"
  by (induction l) auto

lemma hd_lines: "hd (lines_of s) = takeWhile (\<lambda>c. c \<noteq> CHR 0x0A) s"
  by (induction s) auto

lemma line_of_first:
  assumes "CHR 0x0A \<notin> set (take k s)" and "k \<le> length s"
  shows "line_of (lines_of s) k = (0, k)"
proof -
  have "k \<le> length (takeWhile (\<lambda>c. c \<noteq> CHR 0x0A) s)"
    using assms by (intro length_takeWhile_less_P_nth) (auto simp: in_set_conv_nth)
  then show ?thesis by (cases "lines_of s") (auto simp: hd_lines [of s, symmetric])
qed

lemma line_of_next:
  assumes "CHR 0x0A \<notin> set l"
  shows "line_of (lines_of (l @ CHR 0x0A # r)) (length l + 1 + k) = (case line_of (lines_of r) k of (n, c) \<Rightarrow> (n + 1, c))"
  using assms by (simp add: lines_of_newline)

text \<open>The line that an offset is in.\<close>

lemma line_of_line:
  "k \<le> length s \<Longrightarrow> line_of (lines_of s) k = (n, c) \<Longrightarrow>
    c \<le> k \<and> n < length (lines_of s) \<and> n \<le> k \<and> lines_of s ! n = takeWhile (\<lambda>c. c \<noteq> CHR 0x0A) (drop (k - c) s)"
proof (induction "length s" arbitrary: s k n c rule: less_induct)
  case less
  show ?case
  proof (cases "CHR 0x0A \<in> set (take k s)")
    case False
    then have "n = 0" "c = k" using line_of_first [OF False less.prems(1)] less.prems(2) by simp_all
    then show ?thesis by (simp add: hd_conv_nth [symmetric] hd_lines)
  next
    case True
    then have "CHR 0x0A \<in> set s" by (meson in_set_takeD)
    then obtain l r where s: "s = l @ CHR 0x0A # r" "CHR 0x0A \<notin> set l" by (meson split_list_first)
    have "length l < k" using True s by (auto simp: take_Cons' split: if_splits dest: in_set_takeD)
    then obtain j where k: "k = length l + 1 + j" by (metis less_imp_Suc_add Suc_eq_plus1 add.assoc add.commute)
    obtain m where m: "line_of (lines_of r) j = (m, c)" "n = m + 1"
      using less.prems(2) line_of_next [OF s(2), of r j] by (auto simp: s(1) k split: prod.splits)
    have "c \<le> j \<and> m < length (lines_of r) \<and> m \<le> j \<and> lines_of r ! m = takeWhile (\<lambda>c. c \<noteq> CHR 0x0A) (drop (j - c) r)"
      using less.prems(1) by (intro less.hyps [OF _ _ m(1)]) (simp_all add: s(1) k)
    then show ?thesis using m(2) s(2) by (auto simp: s(1) k lines_of_newline Suc_diff_le)
  qed
qed

text \<open>The scan forward finds the line and its start.\<close>

lemma scan_forward_newline:
  "c < t \<Longrightarrow> t \<le> length buf \<Longrightarrow> buf ! c = CHR 0x0A \<Longrightarrow>
    scan_forward buf (int t) (int c) n s = scan_forward buf (int t) (int (c + 1)) (n + 1) (int (c + 1))"
  by (subst scan_forward.simps) (simp add: add.commute)

lemma scan_forward_plain:
  "c < t \<Longrightarrow> t \<le> length buf \<Longrightarrow> buf ! c \<noteq> CHR 0x0A \<Longrightarrow>
    scan_forward buf (int t) (int c) n s = scan_forward buf (int t) (int (c + 1)) n s"
  by (subst scan_forward.simps) (simp add: add.commute)

lemma scan_forward_line:
  assumes "t \<le> length buf" and "c \<le> t" and "s \<le> c" and "CHR 0x0A \<notin> set (take (c - s) (drop s buf))"
    and "line_of (lines_of (drop s buf)) (t - s) = (k, col)"
  shows "scan_forward buf (int t) (int c) n (int s) = (n + of_nat k, int (t - col)) \<and> col \<le> t - s"
  using assms
proof (induction "t - c" arbitrary: c s n k)
  case 0
  then have "line_of (lines_of (drop s buf)) (t - s) = (0, t - s)" by (intro line_of_first) simp_all
  then have "k = 0" "col = t - s" using 0 by simp_all
  then show ?case using 0 by (subst scan_forward.simps) simp
next
  case (Suc m)
  then have c: "c < t" by simp
  have split: "drop s buf = take (c - s) (drop s buf) @ buf ! c # drop (c + 1) buf"
  proof -
    have "drop s buf = take (c - s) (drop s buf) @ drop (c - s) (drop s buf)" by (rule append_take_drop_id [symmetric])
    also have "drop (c - s) (drop s buf) = buf ! c # drop (c + 1) buf"
      using Suc.prems c by (simp add: Cons_nth_drop_Suc)
    finally show ?thesis .
  qed
  have len: "length (take (c - s) (drop s buf)) = c - s" using Suc.prems by simp
  show ?case
  proof (cases "buf ! c = CHR 0x0A")
    case True
    obtain j where j: "line_of (lines_of (drop (c + 1) buf)) (t - (c + 1)) = (j, col)" "k = j + 1"
    proof -
      have "t - s = length (take (c - s) (drop s buf)) + 1 + (t - (c + 1))" using c Suc.prems(3) len by simp
      then have "(k, col) = (case line_of (lines_of (drop (c + 1) buf)) (t - (c + 1)) of (n, c) \<Rightarrow> (n + 1, c))"
        using line_of_next [OF Suc.prems(4), of "drop (c + 1) buf" "t - (c + 1)"] Suc.prems(5) split True by metis
      then show ?thesis using that by (auto split: prod.splits)
    qed
    have "scan_forward buf (int t) (int (c + 1)) (n + 1) (int (c + 1)) = (n + 1 + of_nat j, int (t - col)) \<and> col \<le> t - (c + 1)"
      using Suc.hyps(2) Suc.prems(1) c by (intro Suc.hyps(1) [OF _ _ _ _ _ j(1)]) simp_all
    moreover from this have "col \<le> t - s" using Suc.prems(3) by linarith
    ultimately show ?thesis using scan_forward_newline [OF c Suc.prems(1) True] j(2) by (simp add: add.assoc)
  next
    case False
    have "take (c + 1 - s) (drop s buf) = take (c - s) (drop s buf) @ [buf ! c]"
      using Suc.prems c take_Suc_conv_app_nth [of "c - s" "drop s buf"] by (simp add: Suc_diff_le)
    then have "CHR 0x0A \<notin> set (take (c + 1 - s) (drop s buf))" using Suc.prems(4) False by simp
    then have "scan_forward buf (int t) (int (c + 1)) n (int s) = (n + of_nat k, int (t - col)) \<and> col \<le> t - s"
      using Suc.hyps(2) Suc.prems c by (intro Suc.hyps(1)) simp_all
    then show ?thesis using scan_forward_plain [OF c Suc.prems(1) False] by simp
  qed
qed

lemma line_end_found:
  assumes "BehindEnd X \<noteq> None" and "i \<le> length (FileBuffer X)"
  shows "line_end X i = Inr (i + length (takeWhile (\<lambda>c. c \<noteq> CHR 0x0A \<and> c \<noteq> CHR 0x0D) (drop i (FileBuffer X))))"
  using assms
proof (induction "length (FileBuffer X) - i" arbitrary: i)
  case (Suc m)
  then have "drop i (FileBuffer X) = FileBuffer X ! i # drop (i + 1) (FileBuffer X)" by (simp add: Cons_nth_drop_Suc)
  moreover have "i < length (FileBuffer X)" using Suc by simp
  ultimately show ?case using Suc by (subst line_end.simps) simp
qed (simp add: line_end.simps)

lemma takeWhile_both: "takeWhile (\<lambda>x. P x \<and> Q x) xs = takeWhile Q (takeWhile P xs)"
  by (induction xs) auto

lemma getLineContext_at:
  assumes "full_isValid X" and "BehindEnd (File X) \<noteq> None"
    and "start (File X) + k < 2 ^ 32" and "k \<le> length (FileBuffer (File X))"
    and "FullLoc X = getLocWithOffset (StartLoc (File X)) (of_nat k)"
    and "line_of (lines_of (FileBuffer (File X))) k = (n, c)"
  shows "getLineContext X = Inr \<lparr>ContextFileName = FileName (File X),
      LineRange = takeWhile (\<lambda>c. c \<noteq> CHR 0x0D) (lines_of (FileBuffer (File X)) ! n),
      Column = of_nat c, LineNumber = of_nat (n + 1)\<rparr>"
proof -
  let ?f = "File X" and ?b = "FileBuffer (File X)"
  have p: "getBufferPos ?f (FullLoc X) = int k"
    unfolding getBufferPos_def uint_nat assms(5) offset_encoding [OF assms(3)] start_def by simp
  have s: "scan_forward ?b (int k) 0 1 0 = (of_nat (n + 1), int (k - c)) \<and> c \<le> k"
    using scan_forward_line [of k ?b 0 0 n c 1] assms(4,6) by (simp add: add.commute)
  have l: "lines_of ?b ! n = takeWhile (\<lambda>c. c \<noteq> CHR 0x0A) (drop (k - c) ?b)"
    using line_of_line [OF assms(4,6)] by simp
  let ?w = "takeWhile (\<lambda>c. c \<noteq> CHR 0x0A \<and> c \<noteq> CHR 0x0D) (drop (k - c) ?b)"
  have "line_end ?f (k - c) = Inr (k - c + length ?w)"
    using assms(2,4) by (intro line_end_found) simp_all
  moreover have "text_range ?b (k - c) (k - c + length ?w) = ?w" by (simp add: text_range_def takeWhile_eq_take [symmetric])
  moreover have "?w = takeWhile (\<lambda>c. c \<noteq> CHR 0x0D) (lines_of ?b ! n)"
    unfolding l by (rule takeWhile_both)
  moreover have "getBufferPos ?f (StartLoc ?f) = 0" by (simp add: getBufferPos_def)
  moreover have "int k - int (k - c) = int c" using s by simp
  ultimately show ?thesis using s assms(1)
    by (simp add: getLineContext_def p getClosestLineStart_def Let_def del: of_int_diff of_nat_diff)
qed

text \<open>
  C31: The context of a location is the reference one: cutting the file into lines at each newline,
  the line number is that of the line that contains the location, counted from 1, the column is the
  offset in this line, and the range shown is the line up to its first carriage return. It needs a
  readable byte behind the buffer, because the loop for the end of the line reads it.
\<close>

theorem getLineContext_lines:
  assumes "full_isValid X" and "BehindEnd (File X) \<noteq> None"
    and "start (File X) + k < 2 ^ 32" and "k \<le> length (FileBuffer (File X))"
    and "FullLoc X = getLocWithOffset (StartLoc (File X)) (of_nat k)"
    and "line_of (lines_of (FileBuffer (File X))) k = (n, c)"
  shows "getLineContext X = Inr \<lparr>ContextFileName = FileName (File X),
      LineRange = takeWhile (\<lambda>c. c \<noteq> CHR 0x0D) (lines_of (FileBuffer (File X)) ! n),
      Column = of_nat c, LineNumber = of_nat (n + 1)\<rparr>"
  by (rule getLineContext_at [OF assms])

text \<open>The second byte of the second line.\<close>

definition example_location :: FullSourceLocation where
  "example_location = getFullSourceLocation (add_file new_source_manager
     (Create ([CHR ''a'', CHR 0x0D, CHR 0x0A] @ ''xyz'') (Some NUL) ''t.scm'')) (SourceLocation 5)"

theorem getLineContext_lines_witness:
  "getLineContext example_location
    = Inr \<lparr>ContextFileName = ''t.scm'', LineRange = ''xyz'', Column = 1, LineNumber = 2\<rparr>"
proof -
  have e: "full_isValid example_location" "BehindEnd (File example_location) \<noteq> None"
    "start (File example_location) = 1" "FullLoc example_location = getLocWithOffset (StartLoc (File example_location)) (of_nat 4)"
    "length (FileBuffer (File example_location)) = 6" "lines_of (FileBuffer (File example_location)) = [[CHR ''a'', CHR 0x0D], ''xyz'']"
    "FileName (File example_location) = ''t.scm''" by code_simp+
  show ?thesis using getLineContext_lines [OF e(1,2) _ _ e(4), of 1 1] by (simp add: e(3,5,6,7))
qed

end
