(* ===== verification/Windings.thy ===== *)
theory Windings
  imports Result Transition
begin

text \<open>
  Continuations, escape procedures and \<open>dynamic-wind\<close>
  (\<open>schir/include/schir/ContinuationStack.h\<close>). The stack is the list of the pushed closures from
  its top on; its bytes, and running out of them, are not modelled. What user code does when it is
  called is an event of the environment; an error stops the run.
\<close>

section \<open>Values, continuations and windings\<close>

text \<open>
  A procedure of the user, an escape procedure with its captured stack and winding, or one of the
  closures that the code pushes, with their captures. A winding is an immutable vector; windings
  are compared by their addresses.
\<close>

datatype val = UndefinedVal | Datum nat | UserProc nat | BottomVal | LambdaVal cont | EscapeProc "cont list" dwind
  and cont =
    KUser nat "val list"
  | KEnter dwind
  | KEntered dwind
  | KLeave dwind dwind
  | KRestore "cont list" "val list"
  | KWind val val val
  | KThunkDone val dwind
  | KResults "val list"
  and dwind = NoWind | DWind nat int val val dwind

definition getDepth :: "dwind \<Rightarrow> int" where
  "getDepth w = (case w of NoWind \<Rightarrow> 0 | DWind _ d _ _ _ \<Rightarrow> d)"

lemma getDepth_simps [simp]: "getDepth NoWind = 0" "getDepth (DWind a d b f P) = d"
  by (simp_all add: getDepth_def)

definition same_vec :: "dwind \<Rightarrow> dwind \<Rightarrow> bool" where
  "same_vec v w = (case (v, w) of (NoWind, NoWind) \<Rightarrow> True | (DWind a _ _ _ _, DWind b _ _ _ _) \<Rightarrow> a = b | _ \<Rightarrow> False)"

text \<open>\<open>Winds\<close> is the heap of winding vectors, \<open>Seen\<close> what user code has been given so far.\<close>

record machine =
  Stack :: "cont list"
  Callee :: val
  Args :: "val list"
  DidCallContinuation :: bool
  CurDW :: dwind
  BottomDW :: dwind
  Winds :: "dwind list"
  Seen :: "val list"
  Raised :: bool

section \<open>Operations\<close>

definition PopCont :: "machine \<Rightarrow> val \<times> machine" where
  "PopCont M = (case Stack M of [] \<Rightarrow> (BottomVal, M) | k # st \<Rightarrow> (LambdaVal k, M\<lparr>Stack := st\<rparr>))"

definition PushCont :: "cont \<Rightarrow> machine \<Rightarrow> machine" where
  "PushCont k M = M\<lparr>Stack := k # Stack M\<rparr>"

definition ApplyHelper :: "val \<Rightarrow> val list \<Rightarrow> machine \<Rightarrow> machine result" where
  "ApplyHelper f xs M =
     check (\<not> DidCallContinuation M)
       (let M = M\<lparr>DidCallContinuation := True\<rparr>
        in Inr (if f = UndefinedVal then M\<lparr>Raised := True\<rparr> else M\<lparr>Callee := f, Args := xs\<rparr>))"

definition Cont :: "val list \<Rightarrow> machine \<Rightarrow> machine result" where
  "Cont xs M = (case PopCont M of (k, M) \<Rightarrow> ApplyHelper k xs M)"

definition ApplyThunk :: "val \<Rightarrow> machine \<Rightarrow> machine result" where
  "ApplyThunk f M = ApplyHelper f [] M"

text \<open>A dereferenced null pointer is a read outside of any object.\<close>

fun TraverseWindings :: "dwind \<Rightarrow> dwind \<Rightarrow> machine \<Rightarrow> machine result" where
  "TraverseWindings Src NoWind M =
     (if same_vec Src NoWind then Cont [UndefinedVal] M
      else case Src of
        NoWind \<Rightarrow> Inl BufferOverread
      | DWind _ _ _ After Parent \<Rightarrow>
          if getDepth Src < 0 then Inl BufferOverread
          else ApplyThunk After ((PushCont (KLeave Src NoWind) M)\<lparr>CurDW := Parent\<rparr>))"
| "TraverseWindings Src (DWind a d Before After' P) M =
     (if same_vec Src (DWind a d Before After' P) then Cont [UndefinedVal] M
      else if getDepth Src < d
      then TraverseWindings Src P (PushCont (KEnter (DWind a d Before After' P)) M)
      else case Src of
        NoWind \<Rightarrow> Inl BufferOverread
      | DWind _ _ _ After Parent \<Rightarrow>
          ApplyThunk After ((PushCont (KLeave Src (DWind a d Before After' P)) M)\<lparr>CurDW := Parent\<rparr>))"

definition UnwindToBottom :: "machine \<Rightarrow> machine result" where
  "UnwindToBottom M = TraverseWindings (CurDW M) (BottomDW M) M"

definition CallCC :: "val \<Rightarrow> machine \<Rightarrow> machine result" where
  "CallCC InputProc M = ApplyHelper InputProc [EscapeProc (Stack M) (CurDW M)] M"

text \<open>The body of an escape procedure, and of each closure.\<close>

definition call_escape :: "cont list \<Rightarrow> dwind \<Rightarrow> val list \<Rightarrow> machine \<Rightarrow> machine result" where
  "call_escape SavedStack SavedDW xs M =
     TraverseWindings (CurDW M) SavedDW (PushCont (KRestore SavedStack xs) M)"

definition RestoreStack :: "cont list \<Rightarrow> machine \<Rightarrow> machine" where
  "RestoreStack st M = M\<lparr>Stack := st\<rparr>"

definition DynamicWind :: "val \<Rightarrow> val \<Rightarrow> val \<Rightarrow> machine \<Rightarrow> machine result" where
  "DynamicWind Before Thunk After M = ApplyHelper Before [] (PushCont (KWind Thunk Before After) M)"

fun call_cont :: "cont \<Rightarrow> val list \<Rightarrow> machine \<Rightarrow> machine result" where
  "call_cont (KUser n cs) xs M = Inr M"
| "call_cont (KEnter Dest) xs M =
     (case Dest of NoWind \<Rightarrow> Inl BufferOverread
      | DWind _ _ Before _ _ \<Rightarrow> ApplyThunk Before (PushCont (KEntered Dest) M))"
| "call_cont (KEntered Dest) xs M = Cont [UndefinedVal] (M\<lparr>CurDW := Dest\<rparr>)"
| "call_cont (KLeave Src Dest) xs M =
     (case Src of NoWind \<Rightarrow> Inl BufferOverread | DWind _ _ _ _ Parent \<Rightarrow> TraverseWindings Parent Dest M)"
| "call_cont (KRestore SavedStack SavedArgs) xs M = Cont SavedArgs (RestoreStack SavedStack M)"
| "call_cont (KWind Thunk Before After) xs M =
     (let PrevDW = CurDW M;
          W = DWind (length (Winds M)) (getDepth (CurDW M) + 1) Before After (CurDW M);
          M = M\<lparr>CurDW := W, Winds := Winds M @ [W]\<rparr>
      in ApplyHelper Thunk [] (PushCont (KThunkDone After PrevDW) M))"
| "call_cont (KThunkDone After PrevDW) ThunkResults M =
     ApplyHelper After [] ((PushCont (KResults ThunkResults) M)\<lparr>CurDW := PrevDW\<rparr>)"
| "call_cont (KResults ThunkResults) xs M = Cont ThunkResults M"

section \<open>Running\<close>

text \<open>
  What user code can do: return, call, call with a continuation of its own, capture the
  continuation, or wind. It only uses values that it was given, procedures of its own and data.
\<close>

datatype user_action =
    Return "val list" | Call val "val list" | PushCall nat "val list" val "val list"
  | CaptureCC val | Wind val val val

fun used :: "user_action \<Rightarrow> val list" where
  "used (Return xs) = xs"
| "used (Call f xs) = f # xs"
| "used (PushCall n cs f xs) = f # cs @ xs"
| "used (CaptureCC f) = [f]"
| "used (Wind b t a) = [b, t, a]"

definition allowed :: "machine \<Rightarrow> user_action \<Rightarrow> bool" where
  "allowed M act \<longleftrightarrow> list_all (\<lambda>v. v \<in> set (Seen M) \<or> (case v of UserProc _ \<Rightarrow> True | Datum _ \<Rightarrow> True | UndefinedVal \<Rightarrow> True | _ \<Rightarrow> False)) (used act)"

fun user_act :: "user_action \<Rightarrow> machine \<Rightarrow> machine result" where
  "user_act (Return xs) M = Cont xs M"
| "user_act (Call f xs) M = ApplyHelper f xs M"
| "user_act (PushCall n cs f xs) M = ApplyHelper f xs (PushCont (KUser n cs) M)"
| "user_act (CaptureCC f) M = CallCC f M"
| "user_act (Wind b t a) M = DynamicWind b t a M"

text \<open>One turn of the loop of \<open>Resume\<close>; an event of user code shows who was called in which winding.\<close>

datatype event = Internal | User val dwind user_action

definition resumed :: "machine \<Rightarrow> machine" where
  "resumed M = M\<lparr>DidCallContinuation := False\<rparr>"

definition given :: "val list \<Rightarrow> machine \<Rightarrow> machine" where
  "given vs M = M\<lparr>Seen := vs @ Seen M\<rparr>"

inductive Resume_step :: "machine \<Rightarrow> event \<Rightarrow> machine \<Rightarrow> bool" where
  step_cont: "\<not> Raised M \<Longrightarrow> Callee M = LambdaVal k \<Longrightarrow> (\<And>n cs. k \<noteq> KUser n cs) \<Longrightarrow>
    call_cont k (Args M) (resumed M) = Inr M' \<Longrightarrow> Resume_step M Internal M'"
| step_escape: "\<not> Raised M \<Longrightarrow> Callee M = EscapeProc st w \<Longrightarrow>
    call_escape st w (Args M) (resumed M) = Inr M' \<Longrightarrow> Resume_step M Internal M'"
| step_user: "\<not> Raised M \<Longrightarrow> Callee M = UserProc n \<Longrightarrow> allowed (given (Args M) M) act \<Longrightarrow>
    user_act act (given (Args M) (resumed M)) = Inr M' \<Longrightarrow> Resume_step M (User (UserProc n) (CurDW M) act) M'"
| step_user_cont: "\<not> Raised M \<Longrightarrow> Callee M = LambdaVal (KUser n cs) \<Longrightarrow> allowed (given (cs @ Args M) M) act \<Longrightarrow>
    user_act act (given (cs @ Args M) (resumed M)) = Inr M' \<Longrightarrow>
    Resume_step M (User (LambdaVal (KUser n cs)) (CurDW M) act) M'"
| step_error: "\<not> Raised M \<Longrightarrow> Callee M = Datum n \<Longrightarrow> Resume_step M Internal (M\<lparr>Raised := True\<rparr>)"

definition initial_machine :: machine where
  "initial_machine = \<lparr>Stack = [], Callee = UserProc 0, Args = [], DidCallContinuation = False, CurDW = NoWind,
     BottomDW = NoWind, Winds = [], Seen = [], Raised = False\<rparr>"

section \<open>Well formed machines\<close>

text \<open>
  Every winding that occurs is the vector at its address in the heap, so equal addresses mean equal
  windings; its parent is older, and its depth is one more.
\<close>

definition known :: "dwind list \<Rightarrow> dwind \<Rightarrow> bool" where
  "known H w \<longleftrightarrow> (case w of NoWind \<Rightarrow> True | DWind a _ _ _ _ \<Rightarrow> a < length H \<and> H ! a = w)"

fun ok_val :: "dwind list \<Rightarrow> val \<Rightarrow> bool" and ok_cont :: "dwind list \<Rightarrow> cont \<Rightarrow> bool" where
  "ok_val H (LambdaVal k) \<longleftrightarrow> ok_cont H k"
| "ok_val H (EscapeProc st w) \<longleftrightarrow> list_all (ok_cont H) st \<and> known H w"
| "ok_val H UndefinedVal \<longleftrightarrow> True"
| "ok_val H (Datum n) \<longleftrightarrow> True"
| "ok_val H (UserProc n) \<longleftrightarrow> True"
| "ok_val H BottomVal \<longleftrightarrow> True"
| "ok_cont H (KUser n cs) \<longleftrightarrow> list_all (ok_val H) cs"
| "ok_cont H (KEnter w) \<longleftrightarrow> known H w"
| "ok_cont H (KEntered w) \<longleftrightarrow> known H w"
| "ok_cont H (KLeave v w) \<longleftrightarrow> known H v \<and> known H w"
| "ok_cont H (KRestore st xs) \<longleftrightarrow> list_all (ok_cont H) st \<and> list_all (ok_val H) xs"
| "ok_cont H (KWind t b a) \<longleftrightarrow> ok_val H t \<and> ok_val H b \<and> ok_val H a"
| "ok_cont H (KThunkDone a w) \<longleftrightarrow> ok_val H a \<and> known H w"
| "ok_cont H (KResults xs) \<longleftrightarrow> list_all (ok_val H) xs"

definition ok_wind :: "dwind list \<Rightarrow> dwind \<Rightarrow> bool" where
  "ok_wind H w \<longleftrightarrow> (case w of NoWind \<Rightarrow> False
     | DWind a d b f P \<Rightarrow> d = getDepth P + 1 \<and> known H P \<and> ok_val H b \<and> ok_val H f)"

definition machine_ok :: "machine \<Rightarrow> bool" where
  "machine_ok M \<longleftrightarrow> list_all (ok_wind (Winds M)) (Winds M) \<and> known (Winds M) (CurDW M) \<and> known (Winds M) (BottomDW M)
     \<and> list_all (ok_cont (Winds M)) (Stack M) \<and> ok_val (Winds M) (Callee M)
     \<and> list_all (ok_val (Winds M)) (Args M) \<and> list_all (ok_val (Winds M)) (Seen M)"

lemma known_append: "known H w \<Longrightarrow> known (H @ G) w"
  by (auto simp: known_def nth_append split: dwind.splits)

lemma ok_append: "ok_val H v \<Longrightarrow> ok_val (H @ G) v" "ok_cont H k \<Longrightarrow> ok_cont (H @ G) k"
  by (induction H v and H k rule: ok_val_ok_cont.induct) (auto simp: list_all_iff known_append)

lemma ok_wind_append: "ok_wind H w \<Longrightarrow> ok_wind (H @ G) w"
  by (auto simp: ok_wind_def ok_append known_append split: dwind.splits)

named_theorems machine_ok \<open>operations of the machine keep it well formed\<close>

lemma PopCont_ok [machine_ok]: "machine_ok M \<Longrightarrow> PopCont M = (k, M') \<Longrightarrow> machine_ok M' \<and> ok_val (Winds M') k"
  by (auto simp: PopCont_def machine_ok_def split: list.splits)

lemma PushCont_ok [machine_ok]: "machine_ok M \<Longrightarrow> ok_cont (Winds M) k \<Longrightarrow> machine_ok (PushCont k M)"
  by (auto simp: PushCont_def machine_ok_def)

lemma PushCont_simps [simp]:
  "Winds (PushCont k M) = Winds M" "CurDW (PushCont k M) = CurDW M" "Stack (PushCont k M) = k # Stack M"
  "Seen (PushCont k M) = Seen M" "Args (PushCont k M) = Args M" "DidCallContinuation (PushCont k M) = DidCallContinuation M"
  by (simp_all add: PushCont_def)

lemma ApplyHelper_ok [machine_ok]:
  "machine_ok M \<Longrightarrow> ok_val (Winds M) f \<Longrightarrow> list_all (ok_val (Winds M)) xs \<Longrightarrow> ApplyHelper f xs M = Inr M' \<Longrightarrow> machine_ok M'"
  by (auto simp: ApplyHelper_def machine_ok_def Let_def split: if_splits)

lemma PopCont_Winds [simp]: "PopCont M = (k, M') \<Longrightarrow> Winds M' = Winds M"
  by (auto simp: PopCont_def split: list.splits)

lemma Cont_ok [machine_ok]:
  "machine_ok M \<Longrightarrow> list_all (ok_val (Winds M)) xs \<Longrightarrow> Cont xs M = Inr M' \<Longrightarrow> machine_ok M'"
  unfolding Cont_def by (cases "PopCont M") (auto dest: PopCont_ok intro: ApplyHelper_ok)

lemma known_parent: "list_all (ok_wind H) H \<Longrightarrow> known H (DWind a d b f P) \<Longrightarrow>
    d = getDepth P + 1 \<and> known H P \<and> ok_val H b \<and> ok_val H f"
  by (fastforce simp: known_def ok_wind_def list_all_length)

lemma CurDW_ok: "machine_ok M \<Longrightarrow> known (Winds M) w \<Longrightarrow> machine_ok (M\<lparr>CurDW := w\<rparr>)"
  by (simp add: machine_ok_def)

lemma leave_ok:
  assumes "machine_ok M" and "known (Winds M) (DWind a d b f P)" and "known (Winds M) Dest"
    and "ApplyThunk f ((PushCont (KLeave (DWind a d b f P) Dest) M)\<lparr>CurDW := P\<rparr>) = Inr M'"
  shows "machine_ok M'"
proof -
  have p: "known (Winds M) P" "ok_val (Winds M) f" using assms(1,2) known_parent by (fastforce simp: machine_ok_def)+
  have "machine_ok ((PushCont (KLeave (DWind a d b f P) Dest) M)\<lparr>CurDW := P\<rparr>)"
    using assms(1-3) p by (intro CurDW_ok PushCont_ok) auto
  from ApplyHelper_ok [OF this _ _ assms(4) [unfolded ApplyThunk_def]] show ?thesis using p(2) by simp
qed

lemma TraverseWindings_ok [machine_ok]:
  "machine_ok M \<Longrightarrow> known (Winds M) Src \<Longrightarrow> known (Winds M) Dest \<Longrightarrow> TraverseWindings Src Dest M = Inr M' \<Longrightarrow> machine_ok M'"
proof (induction Src Dest M rule: TraverseWindings.induct)
  case (1 Src M)
  then show ?case using Cont_ok [of M "[UndefinedVal]" M'] leave_ok [OF 1(1) _ 1(3)]
    by (cases Src) (auto simp: same_vec_def split: if_splits)
next
  case (2 Src a d b f P M)
  let ?D = "DWind a d b f P"
  have "known (Winds M) P" using 2 known_parent by (fastforce simp: machine_ok_def)
  then have "machine_ok M'" if "\<not> same_vec Src ?D" "getDepth Src < d"
    using 2 that by (simp add: PushCont_ok)
  moreover have "machine_ok M'" if "same_vec Src ?D" using 2 that Cont_ok [of M "[UndefinedVal]"] by simp
  moreover have "machine_ok M'" if "\<not> same_vec Src ?D" "\<not> getDepth Src < d"
    using that "2.prems" leave_ok [OF "2.prems"(1) _ "2.prems"(3)] by (cases Src) auto
  ultimately show ?case by blast
qed

lemma call_cont_ok [machine_ok]:
  assumes "machine_ok M" and "ok_cont (Winds M) k" and "list_all (ok_val (Winds M)) xs" and "call_cont k xs M = Inr M'"
  shows "machine_ok M'"
proof (cases k)
  case (KEnter w)
  then obtain a d b f P where w: "w = DWind a d b f P" using assms(4) by (cases w) auto
  then have "ok_val (Winds M) b" using known_parent assms(1,2) KEnter by (fastforce simp: machine_ok_def)
  then show ?thesis using assms ApplyHelper_ok [OF PushCont_ok [OF assms(1), of "KEntered w"], of b "[]"]
    by (simp add: KEnter w ApplyThunk_def)
next
  case (KEntered w)
  then show ?thesis using assms Cont_ok [OF CurDW_ok [OF assms(1)], of w "[UndefinedVal]"] by simp
next
  case (KLeave v w)
  then obtain a d b f P where v: "v = DWind a d b f P" using assms(4) by (cases v) auto
  then have "known (Winds M) P" using known_parent assms(1,2) KLeave by (fastforce simp: machine_ok_def)
  then show ?thesis using assms TraverseWindings_ok [OF assms(1), of P w M'] by (simp add: KLeave v)
next
  case (KRestore st ys)
  then have "machine_ok (RestoreStack st M)" using assms by (simp add: machine_ok_def RestoreStack_def)
  from Cont_ok [OF this, of ys M'] show ?thesis using assms by (simp add: KRestore RestoreStack_def)
next
  case (KWind t b a)
  let ?W = "DWind (length (Winds M)) (getDepth (CurDW M) + 1) b a (CurDW M)"
  let ?M = "M\<lparr>CurDW := ?W, Winds := Winds M @ [?W]\<rparr>"
  have "ok_wind (Winds M @ [?W]) ?W" using assms(1,2) by (simp add: KWind ok_wind_def machine_ok_def known_append ok_append)
  then have "machine_ok ?M" using assms(1)
    by (auto simp: machine_ok_def list_all_iff known_append ok_append ok_wind_append known_def [of _ ?W])
  then have "machine_ok (PushCont (KThunkDone a (CurDW M)) ?M)"
    using assms(1,2) by (intro PushCont_ok) (simp_all add: KWind ok_append known_append machine_ok_def)
  from ApplyHelper_ok [OF this, of t "[]"] show ?thesis using assms(2,4) by (simp add: KWind ok_append Let_def)
next
  case (KThunkDone a w)
  have "machine_ok ((PushCont (KResults xs) M)\<lparr>CurDW := w\<rparr>)"
    using assms by (intro CurDW_ok PushCont_ok) (simp_all add: KThunkDone)
  from ApplyHelper_ok [OF this, of a "[]"] show ?thesis using assms(2,4) by (simp add: KThunkDone)
next
  case (KResults ys)
  then show ?thesis using assms Cont_ok by simp
qed (use assms in simp)

lemma resumed_simps [simp]:
  "machine_ok (resumed M) = machine_ok M" "Winds (resumed M) = Winds M" "CurDW (resumed M) = CurDW M"
  "Stack (resumed M) = Stack M" "Seen (resumed M) = Seen M" "\<not> DidCallContinuation (resumed M)"
  by (simp_all add: resumed_def machine_ok_def)

lemma user_act_ok:
  assumes "machine_ok M" and "list_all (ok_val (Winds M)) vs" and "allowed (given vs M) act"
    and "user_act act (given vs (resumed M)) = Inr M'"
  shows "machine_ok M'"
proof -
  let ?G = "given vs (resumed M)"
  have g: "machine_ok ?G" "Winds ?G = Winds M" using assms(1,2) by (simp_all add: given_def machine_ok_def resumed_def)
  have u: "list_all (ok_val (Winds ?G)) (used act)"
  proof -
    have "ok_val (Winds M) v" if "v \<in> set (used act)" for v
    proof -
      have "v \<in> set vs \<or> v \<in> set (Seen M) \<or> (case v of UserProc _ \<Rightarrow> True | Datum _ \<Rightarrow> True | UndefinedVal \<Rightarrow> True | _ \<Rightarrow> False)"
        using assms(3) that by (auto simp: allowed_def list_all_iff given_def)
      moreover have "ok_val (Winds M) v" if "v \<in> set vs \<or> v \<in> set (Seen M)"
        using assms(1,2) that by (auto simp: machine_ok_def list_all_iff)
      moreover have "ok_val (Winds M) v" if "case v of UserProc _ \<Rightarrow> True | Datum _ \<Rightarrow> True | UndefinedVal \<Rightarrow> True | _ \<Rightarrow> False"
        using that by (cases v) simp_all
      ultimately show ?thesis by blast
    qed
    then show ?thesis by (simp add: list_all_iff g(2))
  qed
  show ?thesis
  proof (cases act)
    case (Return xs)
    then show ?thesis using assms(4) u Cont_ok [OF g(1), of xs M'] by simp
  next
    case (Call f xs)
    then show ?thesis using assms(4) u ApplyHelper_ok [OF g(1), of f xs M'] by simp
  next
    case (PushCall n cs f xs)
    then show ?thesis using assms(4) u ApplyHelper_ok [OF PushCont_ok [OF g(1), of "KUser n cs"], of f xs M'] by simp
  next
    case (CaptureCC f)
    then show ?thesis using assms(4) u g(1) ApplyHelper_ok [OF g(1), of f "[EscapeProc (Stack ?G) (CurDW ?G)]" M']
      by (simp add: CallCC_def machine_ok_def)
  next
    case (Wind b t a)
    then show ?thesis using assms(4) u ApplyHelper_ok [OF PushCont_ok [OF g(1), of "KWind t b a"], of b "[]" M']
      by (simp add: DynamicWind_def)
  qed
qed

interpretation machine: trace_invariant Resume_step initial_machine "\<lambda>_. machine_ok"
proof
  show "machine_ok initial_machine" by (simp add: machine_ok_def initial_machine_def known_def)
  fix es s e t assume ok: "machine_ok s" and "Resume_step s e t"
  from this(2) show "machine_ok t"
  proof cases
    case (step_cont k)
    moreover have "ok_cont (Winds s) k" "list_all (ok_val (Winds s)) (Args s)" using ok step_cont by (simp_all add: machine_ok_def)
    ultimately show ?thesis using ok call_cont_ok [of "resumed s" k "Args s" t] by simp
  next
    case (step_escape st w)
    moreover have "known (Winds s) (CurDW s)" "ok_val (Winds s) (Callee s)" "list_all (ok_val (Winds s)) (Args s)"
      using ok by (simp_all add: machine_ok_def)
    ultimately show ?thesis
      using TraverseWindings_ok [OF PushCont_ok [of "resumed s" "KRestore st (Args s)"], of "CurDW s" w t] ok
      by (simp add: call_escape_def)
  next
    case (step_user n act)
    moreover have "list_all (ok_val (Winds s)) (Args s)" using ok by (simp add: machine_ok_def)
    ultimately show ?thesis using user_act_ok [OF ok] by blast
  next
    case (step_user_cont n cs act)
    moreover have "list_all (ok_val (Winds s)) (cs @ Args s)" using ok step_user_cont by (simp add: machine_ok_def)
    ultimately show ?thesis using user_act_ok [OF ok] by blast
  next
    case (step_error n)
    then show ?thesis using ok by (simp add: machine_ok_def)
  qed
qed

section \<open>The way from one winding to another\<close>

text \<open>The windings that enclose a point, from the innermost on.\<close>

fun chain :: "dwind \<Rightarrow> dwind list" where
  "chain NoWind = []"
| "chain (DWind a d b f P) = DWind a d b f P # chain P"

fun before_call :: "dwind \<Rightarrow> val \<times> dwind" where
  "before_call (DWind a d b f P) = (b, P)" | "before_call NoWind = (UndefinedVal, NoWind)"

fun after_call :: "dwind \<Rightarrow> val \<times> dwind" where
  "after_call (DWind a d b f P) = (f, P)" | "after_call NoWind = (UndefinedVal, NoWind)"

text \<open>
  The specification: the after thunks of the windings that are left, from the inside, and then the
  before thunks of those that are entered, from the outside, each with the winding around it.
\<close>

definition windings_spec :: "dwind \<Rightarrow> dwind \<Rightarrow> (val \<times> dwind) list" where
  "windings_spec Src Dest =
     map after_call (takeWhile (\<lambda>w. w \<notin> set (chain Dest)) (chain Src))
     @ rev (map before_call (takeWhile (\<lambda>w. w \<notin> set (chain Src)) (chain Dest)))"

lemma chain_size: "w \<in> set (chain v) \<Longrightarrow> w \<noteq> v \<Longrightarrow> length (chain w) < length (chain v)"
proof (induction v rule: chain.induct)
  case (2 a d b f P)
  then show ?case by (cases "w = P") force+
qed simp

lemma chain_length: "w \<in> set (chain v) \<Longrightarrow> length (chain w) \<le> length (chain v)"
  using chain_size [of w v] by (cases "w = v") auto

lemma takeWhile_insert: "x \<notin> set xs \<Longrightarrow> takeWhile (\<lambda>w. w \<noteq> x \<and> w \<notin> A) xs = takeWhile (\<lambda>w. w \<notin> A) xs"
  by (induction xs) auto

lemma windings_spec_same: "windings_spec w w = []"
  by (cases w) (simp_all add: windings_spec_def)

lemma windings_spec_enter:
  assumes "length (chain Src) < length (chain (DWind a d b f P))"
  shows "windings_spec Src (DWind a d b f P) = windings_spec Src P @ [(b, P)]"
proof -
  have "DWind a d b f P \<notin> set (chain Src)" using chain_length [of "DWind a d b f P" Src] assms by force
  then show ?thesis by (simp add: windings_spec_def takeWhile_insert)
qed

lemma windings_spec_leave:
  assumes "length (chain Dest) \<le> length (chain (DWind a d b f P))" and "DWind a d b f P \<noteq> Dest"
  shows "windings_spec (DWind a d b f P) Dest = (f, P) # windings_spec P Dest"
proof -
  have "DWind a d b f P \<notin> set (chain Dest)" using chain_size [of "DWind a d b f P" Dest] assms by force
  then show ?thesis by (simp add: windings_spec_def takeWhile_insert)
qed

text \<open>In a well formed heap, addresses identify windings and depths measure chains.\<close>

lemma known_same: "known H v \<Longrightarrow> known H w \<Longrightarrow> same_vec v w \<longleftrightarrow> v = w"
  by (auto simp: known_def same_vec_def split: dwind.splits)

lemma known_depth: "list_all (ok_wind H) H \<Longrightarrow> known H w \<Longrightarrow> getDepth w = int (length (chain w))"
proof (induction w rule: chain.induct)
  case (2 a d b f P)
  then show ?case using known_parent [OF 2(2,3)] by simp
qed simp

section \<open>Traversing\<close>

lemma run_append: "run step s es t \<Longrightarrow> run step t fs u \<Longrightarrow> run step s (es @ fs) u"
proof (induction fs arbitrary: u rule: rev_induct)
  case Nil
  then show ?case by (auto elim: run.cases)
next
  case (snoc f fs)
  from snoc.prems(2) obtain v where "run step t fs v" "step v f u" by (cases rule: run.cases) auto
  then show ?case using run_snoc [OF snoc.IH [OF snoc.prems(1)]] by simp
qed

lemma run_one: "step s e t \<Longrightarrow> run step s [e] t"
  using run_snoc [OF run_Nil] by fastforce

text \<open>The calls of user code in a run, when each of them returns.\<close>

fun returned_calls :: "event list \<Rightarrow> (val \<times> dwind) list" where
  "returned_calls [] = []"
| "returned_calls (Internal # es) = returned_calls es"
| "returned_calls (User f w act # es) = (f, w) # returned_calls es"

definition all_return :: "event list \<Rightarrow> bool" where
  "all_return es \<longleftrightarrow> (\<forall>f w act. User f w act \<in> set es \<longrightarrow> act = Return [])"

lemma returned_calls_append [simp]: "returned_calls (es @ fs) = returned_calls es @ returned_calls fs"
  by (induction es rule: returned_calls.induct) auto

lemma all_return_simps [simp]:
  "all_return []" "all_return (es @ fs) \<longleftrightarrow> all_return es \<and> all_return fs"
  "all_return (Internal # es) \<longleftrightarrow> all_return es" "all_return (User f w act # es) \<longleftrightarrow> act = Return [] \<and> all_return es"
  by (auto simp: all_return_def)

text \<open>The state after the top continuation has been called with \<open>xs\<close>.\<close>

definition continued :: "val list \<Rightarrow> machine \<Rightarrow> machine" where
  "continued xs M = M\<lparr>Callee := (case Stack M of [] \<Rightarrow> BottomVal | k # _ \<Rightarrow> LambdaVal k), Args := xs,
     Stack := tl (Stack M), DidCallContinuation := True\<rparr>"

lemma Cont_continued: "\<not> DidCallContinuation M \<Longrightarrow> Cont xs M = Inr (continued xs M)"
  by (cases "Stack M") (simp_all add: Cont_def PopCont_def ApplyHelper_def continued_def)

lemma ApplyHelper_proc: "\<not> DidCallContinuation M \<Longrightarrow> f \<noteq> UndefinedVal \<Longrightarrow>
    ApplyHelper f xs M = Inr (M\<lparr>DidCallContinuation := True, Callee := f, Args := xs\<rparr>)"
  by (simp add: ApplyHelper_def)

lemma given_Nil: "given [] M = M"
  by (simp add: given_def)

text \<open>A user procedure without arguments that returns.\<close>

lemma user_returns:
  assumes "Callee M = UserProc n" and "Args M = []" and "\<not> Raised M"
  shows "Resume_step M (User (UserProc n) (CurDW M) (Return [])) (continued [] (resumed M))"
  using step_user [of M n "Return []"] assms by (simp add: given_Nil allowed_def Cont_continued)

lemma traverse:
  assumes "list_all (ok_wind (Winds M)) (Winds M)" and "known (Winds M) Src" and "known (Winds M) Dest"
    and "CurDW M = Src" and "\<not> DidCallContinuation M" and "\<not> Raised M"
    and "\<forall>(f, w) \<in> set (windings_spec Src Dest). \<exists>n. f = UserProc n"
  shows "\<exists>M1 es. TraverseWindings Src Dest M = Inr M1 \<and> run Resume_step M1 es (continued [UndefinedVal] (M\<lparr>CurDW := Dest\<rparr>))
    \<and> returned_calls es = windings_spec Src Dest \<and> all_return es"
  using assms
proof (induction "length (chain Src) + length (chain Dest)" arbitrary: Src Dest M rule: less_induct)
  case less
  note H = less.prems(1)
  consider "Src = Dest" | "Src \<noteq> Dest" "length (chain Src) < length (chain Dest)"
    | "Src \<noteq> Dest" "\<not> length (chain Src) < length (chain Dest)" by blast
  then show ?case
  proof cases
    case 1
    then have "TraverseWindings Src Dest M = Cont [UndefinedVal] M"
      using less.prems(3) by (cases Dest) (simp_all add: known_same [of "Winds M"] same_vec_def)
    then show ?thesis using less.prems 1 run_Nil by (auto simp: Cont_continued windings_spec_same intro!: exI [of _ "[]"])
  next
    case 2
    then obtain a d b f P where D: "Dest = DWind a d b f P" by (cases Dest) auto
    let ?M = "PushCont (KEnter Dest) M"
    have P: "known (Winds M) P" using known_parent [OF H] less.prems(3) D by blast
    have s: "windings_spec Src Dest = windings_spec Src P @ [(b, P)]" using windings_spec_enter 2 D by simp
    have "d = getDepth Dest" by (simp add: D)
    then have "TraverseWindings Src Dest M = TraverseWindings Src P ?M"
      using 2 known_same [OF less.prems(2,3)] known_depth [OF H less.prems(2)] known_depth [OF H less.prems(3)] by (simp add: D)
    moreover obtain M1 es where IH: "TraverseWindings Src P ?M = Inr M1"
      "run Resume_step M1 es (continued [UndefinedVal] (?M\<lparr>CurDW := P\<rparr>))" "returned_calls es = windings_spec Src P" "all_return es"
      using less.hyps [of Src P ?M] less.prems P s by (auto simp: D PushCont_def)
    moreover obtain n where b: "b = UserProc n" using less.prems(7) s by auto
    let ?A = "continued [UndefinedVal] (?M\<lparr>CurDW := P\<rparr>)"
    let ?B = "(PushCont (KEntered Dest) (resumed ?A))\<lparr>DidCallContinuation := True, Callee := b, Args := []\<rparr>"
    let ?C = "continued [] (resumed ?B)"
    have "Resume_step ?A Internal ?B"
      using less.prems(6) by (intro step_cont [of _ "KEnter Dest"])
        (simp_all add: continued_def D b ApplyThunk_def ApplyHelper_proc PushCont_def resumed_def)
    moreover have "Resume_step ?B (User b P (Return [])) ?C"
      using user_returns [of ?B n] less.prems(6) by (simp add: b continued_def PushCont_def resumed_def)
    moreover have "Resume_step ?C Internal (continued [UndefinedVal] (M\<lparr>CurDW := Dest\<rparr>))"
      using less.prems(6) by (intro step_cont [of _ "KEntered Dest"])
        (simp_all add: continued_def Cont_continued PushCont_def resumed_def)
    ultimately show ?thesis
      using run_append [OF IH(2) run_snoc [OF run_snoc [OF run_one]]] s
      by (intro exI [of _ M1] exI [of _ "es @ [Internal, User b P (Return []), Internal]"]) auto
  next
    case 3
    then obtain a d b f P where S: "Src = DWind a d b f P" by (cases Src; cases Dest) auto
    let ?M = "(PushCont (KLeave Src Dest) M)\<lparr>CurDW := P\<rparr>"
    have P: "known (Winds M) P" using known_parent [OF H] less.prems(2) S by blast
    have s: "windings_spec Src Dest = (f, P) # windings_spec P Dest" using windings_spec_leave 3 S by (simp add: not_less)
    obtain n where f: "f = UserProc n" using less.prems(7) s by auto
    let ?A = "?M\<lparr>DidCallContinuation := True, Callee := f, Args := []\<rparr>"
    let ?B = "continued [] (resumed ?A)"
    have ns: "\<not> same_vec Src Dest" using 3(1) known_same [OF less.prems(2,3)] by simp
    have nd: "\<not> getDepth Src < getDepth Dest"
      using 3(2) known_depth [OF H less.prems(2)] known_depth [OF H less.prems(3)] by simp
    have "TraverseWindings Src Dest M = ApplyThunk f ?M"
      using ns nd by (cases Dest) (simp_all add: S)
    then have t: "TraverseWindings Src Dest M = Inr ?A"
      using less.prems(5) by (simp add: ApplyThunk_def ApplyHelper_proc f PushCont_def)
    have ab: "Resume_step ?A (User f P (Return [])) ?B"
      using user_returns [of ?A n] less.prems(6) by (simp add: f PushCont_def)
    have "\<exists>M1 es. TraverseWindings P Dest (resumed ?B) = Inr M1
        \<and> run Resume_step M1 es (continued [UndefinedVal] ((resumed ?B)\<lparr>CurDW := Dest\<rparr>))
        \<and> returned_calls es = windings_spec P Dest \<and> all_return es"
      using less.prems P s by (intro less.hyps) (auto simp: S continued_def resumed_def PushCont_def)
    then obtain M1 es where IH: "TraverseWindings P Dest (resumed ?B) = Inr M1"
      "run Resume_step M1 es (continued [UndefinedVal] ((resumed ?B)\<lparr>CurDW := Dest\<rparr>))"
      "returned_calls es = windings_spec P Dest" "all_return es" by blast
    have bc: "Resume_step ?B Internal M1"
      using less.prems(6) IH(1) by (intro step_cont [of _ "KLeave Src Dest"]) (simp_all add: continued_def PushCont_def resumed_def S)
    have "continued [UndefinedVal] ((resumed ?B)\<lparr>CurDW := Dest\<rparr>) = continued [UndefinedVal] (M\<lparr>CurDW := Dest\<rparr>)"
      by (simp add: continued_def resumed_def PushCont_def)
    then show ?thesis using t run_Cons [where step = Resume_step, OF ab run_Cons [where step = Resume_step, OF bc IH(2)]] s IH(3,4)
      by (intro exI [of _ ?A] exI [of _ "[User f P (Return []), Internal] @ es"]) auto
  qed
qed

section \<open>Escaping and winding\<close>

text \<open>
  C33: Calling an escape procedure leaves and enters exactly the windings between its call and its
  capture: in every reachable state, if the before and after thunks on the way are procedures that
  return, the after thunks run from the inside out to the first common winding, the before thunks
  from there inwards, each in the winding around it; then the captured continuation receives the
  arguments, with the captured stack and in the captured winding.
\<close>

theorem escape_winds:
  assumes "run Resume_step initial_machine es0 M" and "\<not> Raised M" and "Callee M = EscapeProc st w"
    and "\<forall>(f, v) \<in> set (windings_spec (CurDW M) w). \<exists>n. f = UserProc n"
  shows "\<exists>es M'. run Resume_step M es M' \<and> returned_calls es = windings_spec (CurDW M) w \<and> all_return es
    \<and> CurDW M' = w \<and> Callee M' = (case st of [] \<Rightarrow> BottomVal | k # _ \<Rightarrow> LambdaVal k) \<and> Stack M' = tl st \<and> Args M' = Args M"
proof -
  have ok: "machine_ok M" using machine.holds [OF assms(1)] by simp
  let ?N = "PushCont (KRestore st (Args M)) (resumed M)"
  have r: "\<not> Raised ?N" "\<not> DidCallContinuation ?N" using assms(2) by (simp_all add: PushCont_def resumed_def)
  have k: "known (Winds ?N) (CurDW M)" "known (Winds ?N) w" "list_all (ok_wind (Winds ?N)) (Winds ?N)"
    using ok assms(3) by (simp_all add: machine_ok_def)
  obtain M1 es where t: "TraverseWindings (CurDW M) w ?N = Inr M1"
    "run Resume_step M1 es (continued [UndefinedVal] (?N\<lparr>CurDW := w\<rparr>))"
    "returned_calls es = windings_spec (CurDW M) w" "all_return es"
    using traverse [OF k(3,1,2) _ r(2,1) assms(4)] by auto
  have a: "Resume_step M Internal M1"
    using step_escape [of M st w M1] assms(2,3) t(1) by (simp add: call_escape_def)
  let ?A = "continued [UndefinedVal] (?N\<lparr>CurDW := w\<rparr>)"
  let ?B = "continued (Args M) (RestoreStack st (resumed ?A))"
  have b: "Resume_step ?A Internal ?B"
    using r(1) by (intro step_cont [of _ "KRestore st (Args M)"])
      (simp_all add: continued_def [of "[UndefinedVal]"] Cont_continued RestoreStack_def resumed_def PushCont_def)
  have "run Resume_step M (Internal # es @ [Internal]) ?B"
    using run_Cons [where step = Resume_step, OF a run_snoc [where step = Resume_step, OF t(2) b]] by simp
  then show ?thesis using t(3,4)
    by (intro exI [of _ "Internal # es @ [Internal]"] exI [of _ ?B])
      (simp add: continued_def RestoreStack_def resumed_def PushCont_def)
qed

text \<open>The steps are executable.\<close>

definition resume :: "machine \<Rightarrow> event \<Rightarrow> machine option" where
  "resume M e =
     (if Raised M then None
      else case (Callee M, e) of
        (UserProc n, User f w act) \<Rightarrow>
          if f = UserProc n \<and> w = CurDW M \<and> allowed (given (Args M) M) act
          then (case user_act act (given (Args M) (resumed M)) of Inl _ \<Rightarrow> None | Inr M' \<Rightarrow> Some M') else None
      | (LambdaVal k, Internal) \<Rightarrow>
          (case k of KUser _ _ \<Rightarrow> None
           | _ \<Rightarrow> (case call_cont k (Args M) (resumed M) of Inl _ \<Rightarrow> None | Inr M' \<Rightarrow> Some M'))
      | _ \<Rightarrow> None)"

lemma resume_step: "resume M e = Some M' \<Longrightarrow> Resume_step M e M'"
  by (auto simp: resume_def split: if_splits val.splits event.splits sum.splits cont.splits
      intro!: step_user step_cont)

text \<open>A capture outside of two windings, which is called inside of them.\<close>

definition example_winds :: "event list" where
  "example_winds = (let outer = DWind 0 1 (UserProc 1) (UserProc 2) NoWind; inner = DWind 1 2 (UserProc 3) (UserProc 4) outer in
     [User (UserProc 0) NoWind (CaptureCC (UserProc 5)), User (UserProc 5) NoWind (Wind (UserProc 1) (UserProc 6) (UserProc 2)),
      User (UserProc 1) NoWind (Return []), Internal, User (UserProc 6) outer (Wind (UserProc 3) (UserProc 7) (UserProc 4)),
      User (UserProc 3) outer (Return []), Internal, User (UserProc 7) inner (Call (EscapeProc [] NoWind) [Datum 7])])"

theorem escape_winds_witness:
  "\<exists>M es M'. run Resume_step initial_machine example_winds M \<and> run Resume_step M es M'
    \<and> map fst (returned_calls es) = [UserProc 4, UserProc 2] \<and> Callee M' = BottomVal \<and> Args M' = [Datum 7]"
proof -
  have "map_option (\<lambda>M. (Callee M, Args M, Raised M, windings_spec (CurDW M) NoWind)) (execute resume initial_machine example_winds)
      = Some (EscapeProc [] NoWind, [Datum 7], False,
          [(UserProc 4, DWind 0 1 (UserProc 1) (UserProc 2) NoWind), (UserProc 2, NoWind)])" by code_simp
  then obtain M where M: "execute resume initial_machine example_winds = Some M" "Callee M = EscapeProc [] NoWind"
    "Args M = [Datum 7]" "\<not> Raised M" "windings_spec (CurDW M) NoWind = [(UserProc 4, DWind 0 1 (UserProc 1) (UserProc 2) NoWind), (UserProc 2, NoWind)]"
    by auto
  have r: "run Resume_step initial_machine example_winds M" by (rule execute_run [OF resume_step M(1)])
  show ?thesis using escape_winds [OF r M(4,2)] M(3,5) r by force
qed

text \<open>
  C34: \<open>dynamic-wind\<close> without escapes: the before thunk runs in the winding of the call, the thunk in
  a new winding inside it, one deeper, the after thunk again in the winding of the call; then the
  continuation of the call receives the results of the thunk, and the winding is restored.
\<close>

theorem dynamic_wind_returns:
  assumes "Callee M = UserProc n" and "\<not> Raised M" and "allowed (given (Args M) M) (Return vs)"
  shows "\<exists>M'. run Resume_step M
      [User (UserProc n) (CurDW M) (Wind (UserProc b) (UserProc t) (UserProc a)),
       User (UserProc b) (CurDW M) (Return []), Internal,
       User (UserProc t) (DWind (length (Winds M)) (getDepth (CurDW M) + 1) (UserProc b) (UserProc a) (CurDW M)) (Return vs), Internal,
       User (UserProc a) (CurDW M) (Return []), Internal] M'
    \<and> CurDW M' = CurDW M \<and> Callee M' = (case Stack M of [] \<Rightarrow> BottomVal | k # _ \<Rightarrow> LambdaVal k)
    \<and> Stack M' = tl (Stack M) \<and> Args M' = vs"
proof -
  let ?W = "DWind (length (Winds M)) (getDepth (CurDW M) + 1) (UserProc b) (UserProc a) (CurDW M)"
  let ?G = "given (Args M) (resumed M)"
  let ?A = "?G\<lparr>Stack := KWind (UserProc t) (UserProc b) (UserProc a) # Stack M, DidCallContinuation := True, Callee := UserProc b, Args := []\<rparr>"
  let ?B = "continued [] (resumed ?A)"
  let ?C = "?G\<lparr>Stack := KThunkDone (UserProc a) (CurDW M) # Stack M, DidCallContinuation := True, Callee := UserProc t, Args := [],
      CurDW := ?W, Winds := Winds M @ [?W]\<rparr>"
  let ?D = "continued vs (resumed ?C)"
  let ?E = "?C\<lparr>Stack := KResults vs # Stack M, Callee := UserProc a, CurDW := CurDW M\<rparr>"
  let ?F = "continued [] (resumed ?E)"
  let ?Z = "continued vs (resumed ?F)"
  note eval = continued_def [of "[]"] continued_def [of vs] resumed_def given_def PushCont_def
  have 1: "Resume_step M (User (UserProc n) (CurDW M) (Wind (UserProc b) (UserProc t) (UserProc a))) ?A"
    using assms(1,2) by (intro step_user) (simp_all add: allowed_def DynamicWind_def ApplyHelper_def eval)
  have 2: "Resume_step ?A (User (UserProc b) (CurDW M) (Return [])) ?B"
    using user_returns [of ?A b] assms(2) by (simp add: eval)
  have 3: "Resume_step ?B Internal ?C"
    using assms(2) by (intro step_cont [of _ "KWind (UserProc t) (UserProc b) (UserProc a)"]) (simp_all add: ApplyHelper_def Let_def eval)
  have 4: "Resume_step ?C (User (UserProc t) ?W (Return vs)) ?D"
    using step_user [of ?C t "Return vs" ?D] assms(2,3) by (simp add: given_Nil Cont_continued) (simp add: eval allowed_def)
  have 5: "Resume_step ?D Internal ?E"
    using assms(2) by (intro step_cont [of _ "KThunkDone (UserProc a) (CurDW M)"]) (simp_all add: ApplyHelper_def eval)
  have 6: "Resume_step ?E (User (UserProc a) (CurDW M) (Return [])) ?F"
    using user_returns [of ?E a] assms(2) by (simp add: eval)
  have 7: "Resume_step ?F Internal ?Z"
    using assms(2) by (intro step_cont [of _ "KResults vs"]) (simp_all add: Cont_continued, simp_all add: eval)
  note cons = run_Cons [where step = Resume_step]
  have "run Resume_step M
      [User (UserProc n) (CurDW M) (Wind (UserProc b) (UserProc t) (UserProc a)), User (UserProc b) (CurDW M) (Return []),
       Internal, User (UserProc t) ?W (Return vs), Internal, User (UserProc a) (CurDW M) (Return []), Internal] ?Z"
    by (rule cons [OF 1 cons [OF 2 cons [OF 3 cons [OF 4 cons [OF 5 cons [OF 6 run_one [where step = Resume_step, OF 7]]]]]]])
  then show ?thesis by (intro exI [of _ ?Z] conjI) (simp_all add: eval)
qed

theorem dynamic_wind_returns_witness:
  "\<exists>M'. run Resume_step initial_machine
      [User (UserProc 0) NoWind (Wind (UserProc 1) (UserProc 2) (UserProc 3)),
       User (UserProc 1) NoWind (Return []), Internal,
       User (UserProc 2) (DWind 0 1 (UserProc 1) (UserProc 3) NoWind) (Return [Datum 7]), Internal,
       User (UserProc 3) NoWind (Return []), Internal] M' \<and> Callee M' = BottomVal \<and> Args M' = [Datum 7]"
  using dynamic_wind_returns [of initial_machine 0 "[Datum 7]" 1 2 3]
  by (auto simp: initial_machine_def allowed_def)

end
