(* ===== verification/ImportSets.thy ===== *)
theory ImportSets
  imports Result
begin

text \<open>
  Modules, import sets and environments (classes \<open>Module\<close>, \<open>ImportSet\<close> and \<open>Environment\<close> of
  \<open>schir/include/schir/Value.h\<close>, \<open>schir/lib/Context.cpp\<close>, and \<open>OpGen::Import\<close> of \<open>schir/lib/OpGen.cpp\<close>).
  Identifiers are interned, so the identity of their strings is the equality of their texts. The
  entries of the maps are mangled names; the values behind them belong to the evaluator.
\<close>

section \<open>Import sets\<close>

text \<open>The order of a module is the one in which its hash map is iterated.\<close>

type_synonym module_map = "(string \<times> string) list"

datatype import_set =
    Library module_map
  | Only import_set "string list"
  | Except import_set "string list"
  | Prefix import_set string
  | Rename import_set "(string \<times> string) list"

fun getModule :: "import_set \<Rightarrow> module_map" where
  "getModule (Library M) = M"
| "getModule (Only P xs) = getModule P"
| "getModule (Except P xs) = getModule P"
| "getModule (Prefix P p) = getModule P"
| "getModule (Rename P rs) = getModule P"

fun isInIdentifierList :: "string \<Rightarrow> string list \<Rightarrow> bool" where
  "isInIdentifierList S [] \<longleftrightarrow> False"
| "isInIdentifierList S (S2 # xs) \<longleftrightarrow> (if S = S2 then True else isInIdentifierList S xs)"

fun consume_front :: "string \<Rightarrow> string \<Rightarrow> string option" where
  "consume_front s [] = Some s"
| "consume_front [] (p # ps) = None"
| "consume_front (c # cs) (p # ps) = (if c = p then consume_front cs ps else None)"

text \<open>\<open>Lookup\<close>, with \<open>LookupFromPairs\<close>, which looks for the new name of a pair.\<close>

fun pair_with_value :: "string \<Rightarrow> (string \<times> string) list \<Rightarrow> string option" where
  "pair_with_value S [] = None"
| "pair_with_value S ((Key, Value) # rows) = (if S = Value then Some Key else pair_with_value S rows)"

fun Lookup :: "import_set \<Rightarrow> string \<Rightarrow> string option" where
  "Lookup (Library M) S = map_of M S"
| "Lookup (Only P xs) S = (if isInIdentifierList S xs then Lookup P S else None)"
| "Lookup (Except P xs) S = (if \<not> isInIdentifierList S xs then Lookup P S else None)"
| "Lookup (Prefix P p) S = (case consume_front S p of None \<Rightarrow> None | Some Str \<Rightarrow> Lookup P Str)"
| "Lookup (Rename P rs) S = (case pair_with_value S rs of None \<Rightarrow> None | Some Key \<Rightarrow> Lookup P Key)"

text \<open>\<open>FilterName\<close>, with \<open>FilterFromPairs\<close>: the name that a name of the module gets, if any.\<close>

fun FilterFromPairs :: "(string \<times> string) list \<Rightarrow> string \<Rightarrow> string" where
  "FilterFromPairs [] S = S"
| "FilterFromPairs ((Key, Value) # rows) S = (if S = Key then Value else FilterFromPairs rows S)"

fun FilterName :: "import_set \<Rightarrow> string \<Rightarrow> string option result" where
  "FilterName (Library M) S = check (map_of M S \<noteq> None) (Inr (Some S))"
| "FilterName (Only P xs) S = andThen (FilterName P S) (\<lambda>r. Inr (case r of None \<Rightarrow> None
     | Some S \<Rightarrow> if isInIdentifierList S xs then Some S else None))"
| "FilterName (Except P xs) S = andThen (FilterName P S) (\<lambda>r. Inr (case r of None \<Rightarrow> None
     | Some S \<Rightarrow> if \<not> isInIdentifierList S xs then Some S else None))"
| "FilterName (Prefix P p) S = andThen (FilterName P S) (\<lambda>r. Inr (case r of None \<Rightarrow> None | Some S \<Rightarrow> Some (p @ S)))"
| "FilterName (Rename P rs) S = andThen (FilterName P S) (\<lambda>r. Inr (case r of None \<Rightarrow> None
     | Some S \<Rightarrow> Some (FilterFromPairs rs S)))"

text \<open>What the iterator of an import set yields.\<close>

fun iterate :: "import_set \<Rightarrow> module_map \<Rightarrow> (string option \<times> string) list result" where
  "iterate I [] = Inr []"
| "iterate I ((Orig, Mangled) # M) =
     andThen (FilterName I Orig) (\<lambda>Name. andThen (iterate I M) (\<lambda>rest. Inr ((Name, Mangled) # rest)))"

section \<open>Environments\<close>

type_synonym environment = "string \<Rightarrow> string option"

definition ImportValue :: "environment \<Rightarrow> string \<Rightarrow> string \<Rightarrow> bool \<times> environment" where
  "ImportValue Env Name Mangled =
     (case Env Name of
        None \<Rightarrow> (True, Env(Name \<mapsto> Mangled))
      | Some Entry \<Rightarrow> (Mangled = Entry, Env))"

text \<open>\<open>OpGen::Import\<close>; an error is reported for a name, and the names before it stay imported.\<close>

fun import_loop :: "environment \<Rightarrow> (string option \<times> string) list \<Rightarrow> string option \<times> environment" where
  "import_loop Env [] = (None, Env)"
| "import_loop Env ((Name, Mangled) # rest) =
     (case Name of
        None \<Rightarrow> import_loop Env rest
      | Some Name \<Rightarrow> (case ImportValue Env Name Mangled of
            (True, Env) \<Rightarrow> import_loop Env rest
          | (False, Env) \<Rightarrow> (Some Name, Env)))"

definition Import :: "environment \<Rightarrow> import_set \<Rightarrow> (string option \<times> environment) result" where
  "Import Env I = andThen (iterate I (getModule I)) (\<lambda>es. Inr (import_loop Env es))"

section \<open>The reference\<close>

text \<open>The meaning of import sets in R7RS: names with what they stand for.\<close>

fun bindings :: "import_set \<Rightarrow> (string \<times> string) list" where
  "bindings (Library M) = M"
| "bindings (Only P xs) = filter (\<lambda>(x, m). x \<in> set xs) (bindings P)"
| "bindings (Except P xs) = filter (\<lambda>(x, m). x \<notin> set xs) (bindings P)"
| "bindings (Prefix P p) = map (\<lambda>(x, m). (p @ x, m)) (bindings P)"
| "bindings (Rename P rs) = map (\<lambda>(x, m). (case map_of rs x of None \<Rightarrow> x | Some y \<Rightarrow> y, m)) (bindings P)"

text \<open>Sets without a rename.\<close>

fun no_rename :: "import_set \<Rightarrow> bool" where
  "no_rename (Library M) \<longleftrightarrow> True"
| "no_rename (Only P xs) \<longleftrightarrow> no_rename P"
| "no_rename (Except P xs) \<longleftrightarrow> no_rename P"
| "no_rename (Prefix P p) \<longleftrightarrow> no_rename P"
| "no_rename (Rename P rs) \<longleftrightarrow> False"

lemma isInIdentifierList_set: "isInIdentifierList S xs \<longleftrightarrow> S \<in> set xs"
  by (induction xs) auto

lemma consume_front_append: "consume_front s p = Some r \<longleftrightarrow> s = p @ r"
  by (induction s p rule: consume_front.induct) auto

lemma FilterFromPairs_map: "FilterFromPairs rs x = (case map_of rs x of None \<Rightarrow> x | Some y \<Rightarrow> y)"
  by (induction rs x rule: FilterFromPairs.induct) auto

lemma pair_with_value_mem: "pair_with_value y rs = Some x \<Longrightarrow> (x, y) \<in> set rs"
  by (induction y rs rule: pair_with_value.induct) (auto split: if_splits)

text \<open>The names that iteration gives the names of a module.\<close>

fun filtered :: "import_set \<Rightarrow> string \<Rightarrow> string option" where
  "filtered (Library M) x = Some x"
| "filtered (Only P xs) x = (case filtered P x of None \<Rightarrow> None | Some y \<Rightarrow> if y \<in> set xs then Some y else None)"
| "filtered (Except P xs) x = (case filtered P x of None \<Rightarrow> None | Some y \<Rightarrow> if y \<notin> set xs then Some y else None)"
| "filtered (Prefix P p) x = map_option ((@) p) (filtered P x)"
| "filtered (Rename P rs) x = map_option (FilterFromPairs rs) (filtered P x)"

lemma FilterName_filtered: "x \<in> fst ` set (getModule I) \<Longrightarrow> FilterName I x = Inr (filtered I x)"
  by (induction I) (auto simp: isInIdentifierList_set map_of_eq_None_iff check_def split: option.splits)

lemma bindings_filtered: "(y, m) \<in> set (bindings I) \<longleftrightarrow> (\<exists>x. (x, m) \<in> set (getModule I) \<and> filtered I x = Some y)"
proof (induction I arbitrary: y)
  case (Rename P rs)
  have "(y, m) \<in> set (bindings (Rename P rs)) \<longleftrightarrow> (\<exists>z. (z, m) \<in> set (bindings P) \<and> y = FilterFromPairs rs z)"
    by (auto simp: FilterFromPairs_map image_iff Bex_def)
  also have "\<dots> \<longleftrightarrow> (\<exists>x. (x, m) \<in> set (getModule P) \<and> filtered (Rename P rs) x = Some y)"
    using Rename by auto
  finally show ?case by simp
next
  case (Prefix P p)
  have "(y, m) \<in> set (bindings (Prefix P p)) \<longleftrightarrow> (\<exists>z. (z, m) \<in> set (bindings P) \<and> y = p @ z)"
    by (auto simp: image_iff Bex_def)
  then show ?case using Prefix by auto
qed (auto split: option.splits if_splits)

lemma iterate_filtered:
  "fst ` set M \<subseteq> fst ` set (getModule I) \<Longrightarrow> iterate I M = Inr (map (\<lambda>(x, m). (filtered I x, m)) M)"
  by (induction I M rule: iterate.induct) (auto simp: FilterName_filtered)
section \<open>Importing\<close>

text \<open>The named entries of the iteration.\<close>

definition named :: "(string option \<times> string) list \<Rightarrow> (string \<times> string) set" where
  "named es = {(y, m) | y m. (Some y, m) \<in> set es}"

lemma named_simps [simp]:
  "named [] = {}" "named ((None, m) # es) = named es" "named ((Some y, m) # es) = insert (y, m) (named es)"
  by (auto simp: named_def)

definition compatible :: "environment \<Rightarrow> (string \<times> string) set \<Rightarrow> bool" where
  "compatible Env B \<longleftrightarrow> (\<forall>(y, m) \<in> B. Env y = None \<or> Env y = Some m) \<and> (\<forall>(y, m) \<in> B. \<forall>(y', m') \<in> B. y = y' \<longrightarrow> m = m')"

lemma compatible_insert:
  "compatible Env (insert (y, m) B) \<longleftrightarrow> (Env y = None \<or> Env y = Some m) \<and> compatible (Env(y \<mapsto> m)) B"
proof
  assume a: "compatible Env (insert (y, m) B)"
  have "(Env(y \<mapsto> m)) y' = None \<or> (Env(y \<mapsto> m)) y' = Some m'" if "(y', m') \<in> B" for y' m'
    using a that by (cases "y' = y") (fastforce simp: compatible_def)+
  then show "(Env y = None \<or> Env y = Some m) \<and> compatible (Env(y \<mapsto> m)) B"
    using a by (auto simp: compatible_def)
next
  assume a: "(Env y = None \<or> Env y = Some m) \<and> compatible (Env(y \<mapsto> m)) B"
  have b: "Env y' = None \<or> Env y' = Some m'" "y' = y \<longrightarrow> m' = m" if "(y', m') \<in> B" for y' m'
    using a that by (cases "y' = y"; fastforce simp: compatible_def)+
  then show "compatible Env (insert (y, m) B)" using a unfolding compatible_def by (auto dest: b)
qed

lemma import_loop_named:
  "(fst (import_loop Env es) = None \<longleftrightarrow> compatible Env (named es))
    \<and> (compatible Env (named es) \<longrightarrow> (\<forall>y m. snd (import_loop Env es) y = Some m \<longleftrightarrow> Env y = Some m \<or> (y, m) \<in> named es))"
proof (induction Env es rule: import_loop.induct)
  case (1 Env)
  then show ?case by (simp add: compatible_def)
next
  case (2 Env Name Mangled rest)
  show ?case
  proof (cases Name)
    case None
    then show ?thesis using "2.IH"(1) by simp
  next
    case (Some y)
    show ?thesis
    proof (cases "Env y = None \<or> Env y = Some Mangled")
      case True
      let ?E = "Env(y \<mapsto> Mangled)"
      have v: "ImportValue Env y Mangled = (True, ?E)" using True by (auto simp: ImportValue_def fun_upd_idem)
      have step: "import_loop Env ((Name, Mangled) # rest) = import_loop ?E rest" by (simp add: Some v)
      have u: "?E z = Some m \<longleftrightarrow> Env z = Some m \<or> (z, m) = (y, Mangled)" for z m using True by auto
      have c: "compatible Env (named ((Name, Mangled) # rest)) \<longleftrightarrow> compatible ?E (named rest)"
        using True by (simp add: Some compatible_insert)
      have n: "(z, m) \<in> named ((Name, Mangled) # rest) \<longleftrightarrow> (z, m) = (y, Mangled) \<or> (z, m) \<in> named rest" for z m
        by (simp add: Some)
      have "(fst (import_loop ?E rest) = None \<longleftrightarrow> compatible ?E (named rest))
          \<and> (compatible ?E (named rest) \<longrightarrow> (\<forall>z m. snd (import_loop ?E rest) z = Some m \<longleftrightarrow> ?E z = Some m \<or> (z, m) \<in> named rest))"
        by (rule "2.IH"(2) [OF Some v [symmetric] refl])
      then show ?thesis unfolding step c u n by blast
    next
      case False
      then have "ImportValue Env y Mangled = (False, Env)" by (auto simp: ImportValue_def split: option.splits)
      moreover have "\<not> compatible Env (named ((Name, Mangled) # rest))" using False by (simp add: Some compatible_insert)
      ultimately show ?thesis by (simp add: Some)
    qed
  qed
qed

lemma named_iterate: "named (map (\<lambda>(x, m). (filtered I x, m)) (getModule I)) = set (bindings I)"
proof -
  have "(y, m) \<in> named (map (\<lambda>(x, m). (filtered I x, m)) (getModule I)) \<longleftrightarrow> (y, m) \<in> set (bindings I)" for y m
    unfolding bindings_filtered named_def by (force simp: image_iff)
  then show ?thesis by auto
qed



lemma map_of_filter_in: "map_of (filter (\<lambda>(x, m). x \<in> A) xs) y = (if y \<in> A then map_of xs y else None)"
  and map_of_filter_not_in: "map_of (filter (\<lambda>(x, m). x \<notin> A) xs) y = (if y \<notin> A then map_of xs y else None)"
  by (induction xs) auto

lemma map_of_prefix:
  "map_of (map (\<lambda>(x, m). (p @ x, m)) xs) y = (case consume_front y p of None \<Rightarrow> None | Some r \<Rightarrow> map_of xs r)"
proof (cases "consume_front y p")
  case None
  have n: "y = p @ r \<longleftrightarrow> False" for r using None consume_front_append [of y p r] by simp
  have "map_of (map (\<lambda>(x, m). (p @ x, m)) xs) y = None"
    unfolding map_of_eq_None_iff by (auto simp: n simp del: n [symmetric])
  then show ?thesis using None by simp
next
  case (Some r)
  then have "y = p @ r" by (simp add: consume_front_append)
  then show ?thesis using Some by (induction xs) auto
qed

text \<open>
  C36: Looking a name up in an import set agrees with its bindings when no part of it renames; but a
  rename hides every name that is not one of its new names, although iteration imports it.
\<close>

theorem lookup_reference:
  "(no_rename I \<longrightarrow> Lookup I y = map_of (bindings I) y)
    \<and> (\<forall>P rs. I = Rename P rs \<longrightarrow> y \<notin> snd ` set rs \<longrightarrow> Lookup I y = None)"
proof (intro conjI impI allI)
  show "no_rename I \<Longrightarrow> Lookup I y = map_of (bindings I) y"
  proof (induction I arbitrary: y)
    case (Prefix P p)
    then show ?case by (simp add: map_of_prefix split: option.split)
  qed (simp_all add: map_of_filter_in map_of_filter_not_in isInIdentifierList_set)
  fix P rs assume "I = Rename P rs" and y: "y \<notin> snd ` set rs"
  moreover have "pair_with_value y rs = None" using y pair_with_value_mem by (cases "pair_with_value y rs") force+
  ultimately show "Lookup I y = None" by simp
qed

theorem lookup_reference_witness:
  "Lookup (Only (Library [(''a'', ''m1''), (''b'', ''m2'')]) [''b'']) ''b'' = Some ''m2''
    \<and> Lookup (Rename (Library [(''a'', ''m1''), (''b'', ''m2'')]) [(''a'', ''c'')]) ''b'' = None
    \<and> (''b'', ''m2'') \<in> set (bindings (Rename (Library [(''a'', ''m1''), (''b'', ''m2'')]) [(''a'', ''c'')]))"
  using lookup_reference [of "Only (Library [(''a'', ''m1''), (''b'', ''m2'')]) [''b'']" "''b''"]
    lookup_reference [of "Rename (Library [(''a'', ''m1''), (''b'', ''m2'')]) [(''a'', ''c'')]" "''b''"]
  by simp

end
