(* ===== verification/Builtins.thy ===== *)
theory Builtins
  imports Utf8 Result
begin

text \<open>
  The builtin procedures on numbers, strings, lists and vectors (\<open>schir/lib/Builtins.cpp\<close>). They
  work on objects of the heap that are shared by reference, so the heap is explicit: a value is an
  immediate or the address of an object. Arithmetic on doubles is a parameter. Source locations of
  pairs, ports and the procedures of the evaluator are left out.
\<close>

section \<open>Values and the heap\<close>

datatype ref = Null | Undef | Empty | BoolV bool | IntV "32 word" | CharV u32 | Ptr nat

datatype 'f object = OFloat 'f | OString string | OSymbol string | OPair ref ref | OVector "ref list" | OOther

type_synonym 'f heap = "'f object list"

definition obj :: "'f heap \<Rightarrow> ref \<Rightarrow> 'f object option" where
  "obj H v = (case v of Ptr a \<Rightarrow> if a < length H then Some (H ! a) else None | _ \<Rightarrow> None)"

definition pair_at :: "'f heap \<Rightarrow> ref \<Rightarrow> (ref \<times> ref) option" where
  "pair_at H v = (case obj H v of Some (OPair a d) \<Rightarrow> Some (a, d) | _ \<Rightarrow> None)"

definition getStringRef :: "'f heap \<Rightarrow> ref \<Rightarrow> string option" where
  "getStringRef H v = (case obj H v of Some (OString s) \<Rightarrow> Some s | Some (OSymbol s) \<Rightarrow> Some s | _ \<Rightarrow> None)"

definition vector_at :: "'f heap \<Rightarrow> ref \<Rightarrow> ref list option" where
  "vector_at H v = (case obj H v of Some (OVector xs) \<Rightarrow> Some xs | _ \<Rightarrow> None)"

definition alloc :: "'f object \<Rightarrow> 'f heap \<Rightarrow> ref \<times> 'f heap" where
  "alloc x H = (Ptr (length H), H @ [x])"

text \<open>
  How a builtin ends: it calls its continuation, it raises an error, or it returns without either
  (the assertion of the loop that calls it fails).
\<close>

datatype ending = Continue "ref list" | RaiseError string "ref list" | NoContinuation

type_synonym 'f builtin = "ref list \<Rightarrow> 'f heap \<Rightarrow> (ending \<times> 'f heap) result"

definition returning :: "ref \<Rightarrow> 'f heap \<Rightarrow> (ending \<times> 'f heap) result" where
  "returning v H = Inr (Continue [v], H)"

definition raising :: "string \<Rightarrow> ref list \<Rightarrow> 'f heap \<Rightarrow> (ending \<times> 'f heap) result" where
  "raising msg vs H = Inr (RaiseError msg vs, H)"

definition allocating :: "'f object \<Rightarrow> 'f heap \<Rightarrow> (ending \<times> 'f heap) result" where
  "allocating x H = (case alloc x H of (v, H) \<Rightarrow> returning v H)"

section \<open>Arithmetic\<close>

record 'f double_ops =
  double_of :: "32 word \<Rightarrow> 'f"
  dadd :: "'f \<Rightarrow> 'f \<Rightarrow> 'f"
  dsub :: "'f \<Rightarrow> 'f \<Rightarrow> 'f"
  dmul :: "'f \<Rightarrow> 'f \<Rightarrow> 'f"
  ddiv :: "'f \<Rightarrow> 'f \<Rightarrow> 'f"
  dpositive :: "'f \<Rightarrow> bool"
  dzero :: "'f \<Rightarrow> bool"

definition float_at :: "'f heap \<Rightarrow> ref \<Rightarrow> 'f option" where
  "float_at H v = (case obj H v of Some (OFloat x) \<Rightarrow> Some x | _ \<Rightarrow> None)"

definition isNumber :: "'f heap \<Rightarrow> ref \<Rightarrow> bool" where
  "isNumber H v \<longleftrightarrow> (case v of IntV _ \<Rightarrow> True | _ \<Rightarrow> float_at H v \<noteq> None)"

definition getAsDouble :: "'f double_ops \<Rightarrow> 'f heap \<Rightarrow> ref \<Rightarrow> 'f" where
  "getAsDouble D H v =
     (case float_at H v of Some x \<Rightarrow> x | None \<Rightarrow> (case v of IntV i \<Rightarrow> double_of D i | _ \<Rightarrow> double_of D 0))"

datatype number_op = OpAdd | OpSub | OpMul | OpDiv

definition fits :: "int \<Rightarrow> bool" where
  "fits n \<longleftrightarrow> - (2 ^ 31) \<le> n \<and> n < 2 ^ 31"

definition int_result :: "int \<Rightarrow> 32 word result" where
  "int_result n = (if fits n then Inr (word_of_int n) else Inl SignedOverflow)"

text \<open>The value of a step, or the error that was raised.\<close>

datatype reduced = Accum ref | Failed string "ref list"

definition op_int :: "'f double_ops \<Rightarrow> number_op \<Rightarrow> 32 word \<Rightarrow> 32 word \<Rightarrow> 'f heap \<Rightarrow> (reduced \<times> 'f heap) result" where
  "op_int D Op X Y H =
     (case Op of
        OpAdd \<Rightarrow> andThen (int_result (sint X + sint Y)) (\<lambda>z. Inr (Accum (IntV z), H))
      | OpSub \<Rightarrow> andThen (int_result (sint X - sint Y)) (\<lambda>z. Inr (Accum (IntV z), H))
      | OpMul \<Rightarrow> andThen (int_result (sint X * sint Y)) (\<lambda>z. Inr (Accum (IntV z), H))
      | OpDiv \<Rightarrow> if Y = 0 then Inr (Failed ''divide by exact zero'' [IntV Y], H)
                 else (case alloc (OFloat (ddiv D (double_of D X) (double_of D Y))) H of (v, H) \<Rightarrow> Inr (Accum v, H)))"

definition op_double :: "'f double_ops \<Rightarrow> number_op \<Rightarrow> 'f \<Rightarrow> 'f \<Rightarrow> 'f" where
  "op_double D Op = (case Op of OpAdd \<Rightarrow> dadd D | OpSub \<Rightarrow> dsub D | OpMul \<Rightarrow> dmul D | OpDiv \<Rightarrow> ddiv D)"

text \<open>The operations on doubles change the object of their first operand.\<close>

definition op_float :: "'f double_ops \<Rightarrow> number_op \<Rightarrow> ref \<Rightarrow> ref \<Rightarrow> 'f heap \<Rightarrow> 'f heap result" where
  "op_float D Op V Y H =
     (case (V, float_at H V) of
        (Ptr a, Some x) \<Rightarrow> Inr (H[a := OFloat (op_double D Op x (getAsDouble D H Y))])
      | _ \<Rightarrow> Inl AssertionFailed)"

fun arithmetic_reduce :: "'f double_ops \<Rightarrow> number_op \<Rightarrow> ref \<Rightarrow> ref list \<Rightarrow> 'f heap \<Rightarrow> (reduced \<times> 'f heap) result" where
  "arithmetic_reduce D Op V [] H = Inr (Accum V, H)"
| "arithmetic_reduce D Op V (X # Args) H =
     (if \<not> isNumber H X then Inr (Failed ''expecting number: {}'' [X], H)
      else if float_at H V \<noteq> None \<or> float_at H X \<noteq> None
      then andThen
             (if float_at H V = None
              then (case V of IntV i \<Rightarrow> Inr (alloc (OFloat (double_of D i)) H) | _ \<Rightarrow> Inl AssertionFailed)
              else Inr (V, H))
             (\<lambda>(V, H). andThen (op_float D Op V X H) (\<lambda>H. arithmetic_reduce D Op V Args H))
      else (case (V, X) of
        (IntV i, IntV j) \<Rightarrow>
          andThen (op_int D Op i j H) (\<lambda>(r, H).
            case r of Accum V \<Rightarrow> arithmetic_reduce D Op V Args H | Failed m vs \<Rightarrow> Inr (Failed m vs, H))
      | _ \<Rightarrow> Inl AssertionFailed))"

definition finish_reduce :: "(reduced \<times> 'f heap) result \<Rightarrow> (ending \<times> 'f heap) result" where
  "finish_reduce r = andThen r (\<lambda>(r, H). case r of Accum v \<Rightarrow> returning v H | Failed m vs \<Rightarrow> raising m vs H)"

definition add :: "'f double_ops \<Rightarrow> 'f builtin" where
  "add D Args H = finish_reduce (arithmetic_reduce D OpAdd (IntV 0) Args H)"

definition mul :: "'f double_ops \<Rightarrow> 'f builtin" where
  "mul D Args H = finish_reduce (arithmetic_reduce D OpMul (IntV 1) Args H)"

definition sub :: "'f double_ops \<Rightarrow> 'f builtin" where
  "sub D Args H =
     (case Args of
        X # Y # Rest \<Rightarrow> finish_reduce (arithmetic_reduce D OpSub X (Y # Rest) H)
      | _ \<Rightarrow> finish_reduce (arithmetic_reduce D OpSub (IntV 0) Args H))"

definition div_builtin :: "'f double_ops \<Rightarrow> 'f builtin" where
  "div_builtin D Args H =
     (case Args of
        X # Y # Rest \<Rightarrow> finish_reduce (arithmetic_reduce D OpDiv X (Y # Rest) H)
      | _ \<Rightarrow> finish_reduce (arithmetic_reduce D OpDiv (IntV 1) Args H))"

definition is_positive :: "'f double_ops \<Rightarrow> 'f builtin" where
  "is_positive D Args H =
     (case Args of
        [Input] \<Rightarrow> if \<not> isNumber H Input then raising ''expecting number'' [] H
                   else returning (BoolV (dpositive D (getAsDouble D H Input))) H
      | _ \<Rightarrow> raising ''invalid arity'' [] H)"

definition is_zero :: "'f double_ops \<Rightarrow> 'f builtin" where
  "is_zero D Args H =
     (case Args of
        [Input] \<Rightarrow> if \<not> isNumber H Input then raising ''expecting number'' [] H
                   else returning (BoolV (dzero D (getAsDouble D H Input))) H
      | _ \<Rightarrow> raising ''invalid arity'' [] H)"

section \<open>Strings\<close>

text \<open>The arguments of \<open>string_append\<close>, checked in order.\<close>

fun string_args :: "'f heap \<Rightarrow> ref list \<Rightarrow> ref + string list" where
  "string_args H [] = Inr []"
| "string_args H (Arg # Args) =
     (case getStringRef H Arg of
        None \<Rightarrow> Inl Arg
      | Some s \<Rightarrow> (case string_args H Args of Inl bad \<Rightarrow> Inl bad | Inr ss \<Rightarrow> Inr (s # ss)))"

definition string_append :: "'f builtin" where
  "string_append Args H =
     (case string_args H Args of
        Inl Arg \<Rightarrow> raising ''expecting string-like object: {}'' [Arg] H
      | Inr ss \<Rightarrow> allocating (OString (concat ss)) H)"

lemma drop_front_shorter: "drop_front s = Some (c, r) \<Longrightarrow> length r < length s"
  using decode_bytes [of s] by (auto simp: drop_front_def split: prod.splits if_splits)

function count_chars :: "string \<Rightarrow> nat" where
  "count_chars s = (case drop_front s of None \<Rightarrow> 0 | Some (_, r) \<Rightarrow> count_chars r + 1)"
  by pat_completeness auto
termination count_chars
  by (relation "measure length") (auto simp: drop_front_shorter)

declare count_chars.simps [simp del]

definition string_length :: "'f builtin" where
  "string_length Args H =
     (case Args of
        [Arg] \<Rightarrow> (case getStringRef H Arg of
           None \<Rightarrow> raising ''expecting string-like object: {}'' [Arg] H
         | Some s \<Rightarrow> returning (IntV (of_nat (count_chars s))) H)
      | _ \<Rightarrow> raising ''invalid arity'' [] H)"

text \<open>An index argument: an integer that is not negative.\<close>

definition index_arg :: "ref \<Rightarrow> nat option" where
  "index_arg v = (case v of IntV i \<Rightarrow> if 0 \<le> sint i then Some (nat (sint i)) else None | _ \<Rightarrow> None)"

fun nth_char :: "nat \<Rightarrow> string \<Rightarrow> u32 option" where
  "nth_char 0 s = (case drop_front s of None \<Rightarrow> None | Some (c, r) \<Rightarrow> Some c)"
| "nth_char (Suc k) s = (case drop_front s of None \<Rightarrow> None | Some (c, r) \<Rightarrow> nth_char k r)"

definition string_ref :: "'f builtin" where
  "string_ref Args H =
     (case Args of
        [Arg, Index] \<Rightarrow> (case getStringRef H Arg of
           None \<Rightarrow> raising ''expecting string-like object: {}'' [Arg] H
         | Some s \<Rightarrow> (case index_arg Index of
             None \<Rightarrow> raising ''expecting positive integer'' [] H
           | Some K \<Rightarrow> (case nth_char K s of
               None \<Rightarrow> raising ''invalid index for string: {0} {1}'' [Index, Arg] H
             | Some c \<Rightarrow> returning (CharV c) H)))
      | _ \<Rightarrow> raising ''invalid arity'' [] H)"

text \<open>A failing \<open>drop_front\<close> leaves the view as it is.\<close>

fun drop_chars :: "nat \<Rightarrow> string \<Rightarrow> string" where
  "drop_chars 0 s = s"
| "drop_chars (Suc k) s = drop_chars k (case drop_front s of None \<Rightarrow> s | Some (c, r) \<Rightarrow> r)"

definition copied :: "nat \<Rightarrow> nat option \<Rightarrow> string \<Rightarrow> string" where
  "copied StartPos EndPos s =
     (let View = drop_chars StartPos s
      in case EndPos of
           None \<Rightarrow> View
         | Some e \<Rightarrow> let Back = drop_chars (e - StartPos) View in take (length View - length Back) View)"

definition string_copy :: "'f builtin" where
  "string_copy Args H =
     (if 3 < length Args then raising ''invalid arity'' [] H
      else case Args of
        [] \<Rightarrow> raising ''expecting string-like object'' [] H
      | Arg # Rest \<Rightarrow> (case getStringRef H Arg of
          None \<Rightarrow> raising ''expecting string-like object'' [] H
        | Some s \<Rightarrow>
            if list_ex (\<lambda>v. index_arg v = None) Rest then raising ''expecting positive integer'' [] H
            else (case map index_arg Rest of
                [] \<Rightarrow> allocating (OString (copied 0 None s)) H
              | [Some i] \<Rightarrow> allocating (OString (copied i None s)) H
              | [Some i, Some e] \<Rightarrow> allocating (OString (copied i (Some e) s)) H
              | _ \<Rightarrow> Inl Unreachable)))"

definition string_to_symbol :: "'f builtin" where
  "string_to_symbol Args H =
     (case Args of
        [Arg] \<Rightarrow> (case obj H Arg of
           Some (OString s) \<Rightarrow> allocating (OSymbol s) H
         | _ \<Rightarrow> raising ''expecting string: {}'' [Arg] H)
      | _ \<Rightarrow> raising ''invalid arity'' [] H)"

definition symbol_to_string :: "'f builtin" where
  "symbol_to_string Args H =
     (case Args of
        [Arg] \<Rightarrow> (case obj H Arg of
           Some (OSymbol s) \<Rightarrow> allocating (OString s) H
         | _ \<Rightarrow> raising ''expecting symbol: {}'' [Arg] H)
      | _ \<Rightarrow> raising ''invalid arity'' [] H)"

section \<open>Lists\<close>

text \<open>\<open>Value::cdr\<close>: null for anything but a pair; a null value itself cannot be asked.\<close>

definition Value_cdr :: "'f heap \<Rightarrow> ref \<Rightarrow> ref result" where
  "Value_cdr H v =
     (if v = Null then Inl BufferOverread else Inr (case pair_at H v of Some (a, d) \<Rightarrow> d | None \<Rightarrow> Null))"

text \<open>The loop of \<open>length_helper\<close>: one value advances by one pair, the other by two.\<close>

primrec length_helper_loop :: "nat \<Rightarrow> 'f heap \<Rightarrow> ref \<Rightarrow> ref \<Rightarrow> 32 word \<Rightarrow> ref result" where
  "length_helper_loop 0 H Cur CurFast Count = Inl OutOfFuel"
| "length_helper_loop (Suc n) H Cur CurFast Count =
     (if Cur = Null then Inl BufferOverread
      else if Cur = Empty then Inr (IntV Count)
      else case pair_at H Cur of
        None \<Rightarrow> Inr Null
      | Some (a, d) \<Rightarrow>
          andThen (case pair_at H CurFast of Some (a2, d2) \<Rightarrow> Value_cdr H d2 | None \<Rightarrow> Inr Null)
            (\<lambda>CurFast. if d = CurFast then Inr (IntV (- 1)) else length_helper_loop n H d CurFast (Count + 1)))"

definition length_helper :: "'f heap \<Rightarrow> ref \<Rightarrow> ref result" where
  "length_helper H Cur = length_helper_loop (length H + 1) H Cur Cur 0"

definition length_builtin :: "'f builtin" where
  "length_builtin Args H =
     (case Args of
        [Arg] \<Rightarrow> andThen (length_helper H Arg) (\<lambda>Result.
          if Result = Null then raising ''expecting a list: {}'' [Arg] H else returning Result H)
      | _ \<Rightarrow> raising ''invalid arity'' [] H)"

definition cons_builtin :: "'f builtin" where
  "cons_builtin Args H =
     (case Args of [a, d] \<Rightarrow> allocating (OPair a d) H | _ \<Rightarrow> raising ''invalid arity'' [] H)"

definition car_builtin :: "'f builtin" where
  "car_builtin Args H =
     (case Args of
        [Arg] \<Rightarrow> (case pair_at H Arg of Some (a, d) \<Rightarrow> returning a H | None \<Rightarrow> raising ''expecting pair: {}'' [Arg] H)
      | _ \<Rightarrow> raising ''invalid arity'' [] H)"

definition cdr_builtin :: "'f builtin" where
  "cdr_builtin Args H =
     (case Args of
        [Arg] \<Rightarrow> (case pair_at H Arg of Some (a, d) \<Rightarrow> returning d H | None \<Rightarrow> raising ''expecting pair: {}'' [Arg] H)
      | _ \<Rightarrow> raising ''invalid arity'' [] H)"

text \<open>\<open>CreateList\<close>.\<close>

fun CreateList :: "ref list \<Rightarrow> 'f heap \<Rightarrow> ref \<times> 'f heap" where
  "CreateList [] H = (Empty, H)"
| "CreateList (x # xs) H = (case CreateList xs H of (d, H) \<Rightarrow> alloc (OPair x d) H)"

definition list_builtin :: "'f builtin" where
  "list_builtin Args H = (case CreateList Args H of (v, H) \<Rightarrow> returning v H)"

text \<open>\<open>append_rec\<close> recurses down the list, so on a circular one it does not return.\<close>

primrec append_rec :: "nat \<Rightarrow> 'f heap \<Rightarrow> ref \<Rightarrow> ref \<Rightarrow> (ref \<times> 'f heap) result" where
  "append_rec 0 H List Tail = Inl OutOfFuel"
| "append_rec (Suc n) H List Tail =
     (if List = Null then Inl BufferOverread
      else if List = Empty then Inr (Tail, H)
      else case pair_at H List of
        None \<Rightarrow> Inr (Null, H)
      | Some (a, d) \<Rightarrow> andThen (append_rec n H d Tail) (\<lambda>(V, H).
          Inr (if V = Null then (Null, H) else alloc (OPair a V) H)))"

fun append_loop :: "nat \<Rightarrow> ref list \<Rightarrow> ref \<Rightarrow> 'f heap \<Rightarrow> (ending \<times> 'f heap) result" where
  "append_loop n [] NewList H = returning NewList H"
| "append_loop n (List # Rev) NewList H =
     andThen (append_rec n H List NewList) (\<lambda>(NewList, H).
       if NewList = Null then raising ''expecting proper list'' [] H else append_loop n Rev NewList H)"

definition append_builtin :: "nat \<Rightarrow> 'f builtin" where
  "append_builtin n Args H =
     (if Args = [] then returning Empty H else append_loop n (rev (butlast Args)) (last Args) H)"

fun make_list_loop :: "nat \<Rightarrow> ref \<Rightarrow> ref \<Rightarrow> 'f heap \<Rightarrow> ref \<times> 'f heap" where
  "make_list_loop 0 Default Result H = (Result, H)"
| "make_list_loop (Suc k) Default Result H =
     (case alloc (OPair Default Result) H of (Result, H) \<Rightarrow> make_list_loop k Default Result H)"

definition make_list :: "'f builtin" where
  "make_list Args H =
     (if length Args < 1 \<or> 2 < length Args then raising ''invalid arity'' [] H
      else case index_arg (Args ! 0) of
        None \<Rightarrow> raising ''expecting positive integer'' [] H
      | Some K \<Rightarrow> (case make_list_loop K (if length Args = 2 then Args ! 1 else Undef) Empty H of (v, H) \<Rightarrow> returning v H))"

text \<open>The pair at an index; a cast of something else fails its assertion.\<close>

fun nth_pair :: "nat \<Rightarrow> 'f heap \<Rightarrow> ref \<Rightarrow> ref result" where
  "nth_pair k H v =
     (case pair_at H v of
        None \<Rightarrow> Inl AssertionFailed
      | Some (a, d) \<Rightarrow> (case k of 0 \<Rightarrow> Inr v | Suc k \<Rightarrow> nth_pair k H d))"

declare nth_pair.simps [simp del]

text \<open>The checks that \<open>list_ref\<close> and \<open>list_set\<close> share; an improper list ends them without a word.\<close>

definition list_index :: "ref \<Rightarrow> ref \<Rightarrow> 'f heap \<Rightarrow> (ending + ref) result" where
  "list_index List Index H =
     (if pair_at H List = None then Inr (Inl (RaiseError ''expecting non-empty list'' []))
      else andThen (length_helper H List) (\<lambda>Length.
        case Length of
          IntV Len \<Rightarrow> (case index_arg Index of
              None \<Rightarrow> Inr (Inl (RaiseError ''expecting positive integer'' []))
            | Some K \<Rightarrow>
                if 0 \<le> sint Len \<and> sint Len \<le> int K then Inr (Inl (RaiseError ''index is out of range'' []))
                else andThen (nth_pair K H List) (\<lambda>P. Inr (Inr P)))
        | _ \<Rightarrow> Inr (Inl NoContinuation)))"

definition list_ref :: "'f builtin" where
  "list_ref Args H =
     (case Args of
        [List, Index] \<Rightarrow> andThen (list_index List Index H) (\<lambda>r. case r of
            Inl e \<Rightarrow> Inr (e, H)
          | Inr P \<Rightarrow> (case pair_at H P of Some (a, d) \<Rightarrow> returning a H | None \<Rightarrow> Inl AssertionFailed))
      | _ \<Rightarrow> raising ''invalid arity'' [] H)"

definition list_set :: "'f builtin" where
  "list_set Args H =
     (case Args of
        [List, Index, Obj] \<Rightarrow> andThen (list_index List Index H) (\<lambda>r. case r of
            Inl e \<Rightarrow> Inr (e, H)
          | Inr P \<Rightarrow> (case (P, pair_at H P) of
              (Ptr p, Some (a, d)) \<Rightarrow> returning Undef (H[p := OPair Obj d])
            | _ \<Rightarrow> Inl AssertionFailed))
      | _ \<Rightarrow> raising ''invalid arity'' [] H)"

section \<open>Vectors\<close>

definition vector_builtin :: "'f builtin" where
  "vector_builtin Args H = allocating (OVector Args) H"

definition vector_length :: "'f builtin" where
  "vector_length Args H =
     (case Args of
        [Arg] \<Rightarrow> (case vector_at H Arg of
           None \<Rightarrow> raising ''expecting a vector'' [] H
         | Some xs \<Rightarrow> returning (IntV (of_nat (length xs))) H)
      | _ \<Rightarrow> raising ''invalid arity'' [] H)"

definition make_vector :: "'f builtin" where
  "make_vector Args H =
     (if length Args < 1 \<or> 2 < length Args then raising ''invalid arity'' [] H
      else case index_arg (Args ! 0) of
        None \<Rightarrow> raising ''expecting positive integer'' [] H
      | Some K \<Rightarrow> allocating (OVector (replicate K (if length Args = 2 then Args ! 1 else Undef))) H)"

definition vector_ref :: "'f builtin" where
  "vector_ref Args H =
     (case Args of
        [Arg, Index] \<Rightarrow> (case vector_at H Arg of
           None \<Rightarrow> raising ''expecting a vector'' [] H
         | Some xs \<Rightarrow> (case index_arg Index of
             None \<Rightarrow> raising ''expecting positive integer'' [] H
           | Some K \<Rightarrow> if length xs \<le> K then raising ''index is out of range'' [] H else returning (xs ! K) H))
      | _ \<Rightarrow> raising ''invalid arity'' [] H)"

definition vector_set :: "'f builtin" where
  "vector_set Args H =
     (case Args of
        [Arg, Index, Obj] \<Rightarrow> (case (Arg, vector_at H Arg) of
           (Ptr p, Some xs) \<Rightarrow> (case index_arg Index of
             None \<Rightarrow> raising ''expecting positive integer'' [] H
           | Some K \<Rightarrow> if length xs \<le> K then raising ''index out of range'' [] H
                       else returning Undef (H[p := OVector (xs[K := Obj])]))
         | _ \<Rightarrow> raising ''expecting vector'' [] H)
      | _ \<Rightarrow> raising ''invalid arity'' [] H)"

section \<open>Strings are sequences of characters\<close>

definition utf8 :: "u32 list \<Rightarrow> string" where
  "utf8 cs = concat (map encode_utf8 cs)"

lemma utf8_simps [simp]: "utf8 [] = []" "utf8 (c # cs) = encode_utf8 c @ utf8 cs"
  by (simp_all add: utf8_def)

lemma drop_front_utf8 [simp]:
  "drop_front [] = None" "scalar c \<Longrightarrow> drop_front (encode_utf8 c @ s) = Some (c, s)"
proof -
  show "drop_front [] = None" by code_simp
qed (simp add: decode_encode)

lemma count_chars_utf8: "list_all scalar cs \<Longrightarrow> count_chars (utf8 cs) = length cs"
  by (induction cs) (simp_all add: count_chars.simps)

lemma nth_char_utf8: "list_all scalar cs \<Longrightarrow> nth_char k (utf8 cs) = (if k < length cs then Some (cs ! k) else None)"
proof (induction k arbitrary: cs)
  case 0
  then show ?case by (cases cs) simp_all
next
  case (Suc k)
  then show ?case by (cases cs) simp_all
qed

lemma drop_chars_utf8: "list_all scalar cs \<Longrightarrow> drop_chars k (utf8 cs) = utf8 (drop k cs)"
proof (induction k arbitrary: cs)
  case (Suc k)
  then show ?case using Suc.IH [of "[]"] Suc.IH [of "tl cs"] by (cases cs) simp_all
qed simp

lemma utf8_append: "utf8 (cs @ ds) = utf8 cs @ utf8 ds"
  by (simp add: utf8_def)

lemma copied_utf8:
  assumes "list_all scalar cs"
  shows "copied i e (utf8 cs) = utf8 (case e of None \<Rightarrow> drop i cs | Some e \<Rightarrow> take (e - i) (drop i cs))"
proof (cases e)
  case (Some e')
  let ?v = "drop i cs"
  have v: "list_all scalar ?v" using assms by (auto simp: list_all_iff dest: in_set_dropD)
  have split: "utf8 ?v = utf8 (take (e' - i) ?v) @ utf8 (drop (e' - i) ?v)"
    unfolding utf8_append [symmetric] by (simp only: append_take_drop_id)
  have "copied i e (utf8 cs) = take (length (utf8 ?v) - length (utf8 (drop (e' - i) ?v))) (utf8 ?v)"
    by (simp only: Some copied_def Let_def drop_chars_utf8 [OF assms] drop_chars_utf8 [OF v] option.case)
  also have "\<dots> = utf8 (take (e' - i) ?v)"
    unfolding split by (simp del: drop_drop)
  finally show ?thesis by (simp add: Some)
qed (simp add: copied_def drop_chars_utf8 [OF assms])



section \<open>The length of a list\<close>

text \<open>The values that repeated \<open>cdr\<close>s reach, null behind the end.\<close>

definition next_cdr :: "'f heap \<Rightarrow> ref \<Rightarrow> ref" where
  "next_cdr H v = (case pair_at H v of Some (a, d) \<Rightarrow> d | None \<Rightarrow> Null)"

definition nth_cdr :: "'f heap \<Rightarrow> ref \<Rightarrow> nat \<Rightarrow> ref" where
  "nth_cdr H v i = (next_cdr H ^^ i) v"

definition is_pair :: "'f heap \<Rightarrow> ref \<Rightarrow> bool" where
  "is_pair H v \<longleftrightarrow> pair_at H v \<noteq> None"

text \<open>A list ends behind \<open>n\<close> pairs in a value that is no pair, or it is circular.\<close>

definition ends_after :: "'f heap \<Rightarrow> ref \<Rightarrow> nat \<Rightarrow> bool" where
  "ends_after H v n \<longleftrightarrow> (\<forall>i<n. is_pair H (nth_cdr H v i)) \<and> \<not> is_pair H (nth_cdr H v n)"

definition circular :: "'f heap \<Rightarrow> ref \<Rightarrow> bool" where
  "circular H v \<longleftrightarrow> (\<forall>i. is_pair H (nth_cdr H v i))"

definition no_null_cdr :: "'f heap \<Rightarrow> bool" where
  "no_null_cdr H \<longleftrightarrow> list_all (\<lambda>x. case x of OPair a d \<Rightarrow> d \<noteq> Null | _ \<Rightarrow> True) H"

lemma ends_or_circular: "circular H v \<or> (\<exists>n. ends_after H v n)"
proof (cases "circular H v")
  case False
  then obtain i where i: "\<not> is_pair H (nth_cdr H v i)" by (auto simp: circular_def)
  then have "ends_after H v (LEAST i. \<not> is_pair H (nth_cdr H v i))"
    using LeastI [of "\<lambda>i. \<not> is_pair H (nth_cdr H v i)", OF i] not_less_Least unfolding ends_after_def by blast
  then show ?thesis by blast
qed simp

lemma nth_cdr_Suc [simp]: "nth_cdr H v 0 = v" "nth_cdr H v (Suc i) = next_cdr H (nth_cdr H v i)"
  by (simp_all add: nth_cdr_def)

lemma nth_cdr_add: "nth_cdr H v (i + j) = nth_cdr H (nth_cdr H v i) j"
  by (simp add: nth_cdr_def funpow_add add.commute [of i])

lemma pair_bound: "pair_at H v = Some (a, d) \<Longrightarrow> \<exists>p < length H. v = Ptr p \<and> H ! p = OPair a d"
  by (auto simp: pair_at_def obj_def split: ref.splits object.splits if_splits)

lemma pair_cdr: "no_null_cdr H \<Longrightarrow> pair_at H v = Some (a, d) \<Longrightarrow> d \<noteq> Null"
  using pair_bound by (fastforce simp: no_null_cdr_def list_all_length)

lemma not_pair [simp]: "pair_at H Null = None" "pair_at H Empty = None"
  by (simp_all add: pair_at_def obj_def)

lemma pair_not_null: "is_pair H v \<Longrightarrow> v \<noteq> Null \<and> v \<noteq> Empty"
  by (auto simp: is_pair_def)

lemma next_cdr_nonpair: "\<not> is_pair H v \<Longrightarrow> next_cdr H v = Null"
  by (cases "pair_at H v") (simp_all add: is_pair_def next_cdr_def)

lemma behind_end: "ends_after H v n \<Longrightarrow> n < i \<Longrightarrow> nth_cdr H v i = Null"
proof (induction i)
  case (Suc i)
  then show ?case by (cases "i = n") (auto simp: ends_after_def next_cdr_nonpair is_pair_def intro!: next_cdr_nonpair)
qed simp

lemma ends_inject:
  assumes "ends_after H v n" and "i < j" and "j \<le> n"
  shows "nth_cdr H v i \<noteq> nth_cdr H v j"
proof
  assume e: "nth_cdr H v i = nth_cdr H v j"
  have "nth_cdr H v (i + (n - j)) = nth_cdr H v n" using nth_cdr_add [of H v i "n - j"] nth_cdr_add [of H v j "n - j"] e assms by simp
  moreover have "i + (n - j) < n" using assms by linarith
  ultimately show False using assms(1) unfolding ends_after_def by metis
qed

lemma fast_cdr:
  assumes "no_null_cdr H"
  shows "(case pair_at H v of Some (a, d) \<Rightarrow> Value_cdr H d | None \<Rightarrow> Inr Null) = Inr (next_cdr H (next_cdr H v))"
  using pair_cdr [OF assms] by (auto simp: Value_cdr_def next_cdr_def split: option.splits)

text \<open>The state of the loop: position \<open>i\<close> and position \<open>2 i\<close>.\<close>

lemma length_loop_step:
  assumes "no_null_cdr H" and "nth_cdr H v i \<noteq> Null"
  shows "length_helper_loop (Suc k) H (nth_cdr H v i) (nth_cdr H v (2 * i)) c =
    (if nth_cdr H v i = Empty then Inr (IntV c)
     else if \<not> is_pair H (nth_cdr H v i) then Inr Null
     else if nth_cdr H v (i + 1) = nth_cdr H v (2 * (i + 1)) then Inr (IntV (- 1))
     else length_helper_loop k H (nth_cdr H v (i + 1)) (nth_cdr H v (2 * (i + 1))) (c + 1))"
proof (cases "pair_at H (nth_cdr H v i)")
  case (Some p)
  have n: "nth_cdr H v (2 * (i + 1)) = next_cdr H (next_cdr H (nth_cdr H v (2 * i)))" by simp
  obtain a d where p: "pair_at H (nth_cdr H v i) = Some (a, d)" using Some by (cases p) auto
  have "nth_cdr H v (i + 1) = d" using p by (simp add: next_cdr_def)
  moreover have "nth_cdr H v i \<noteq> Empty" using p by auto
  ultimately show ?thesis using assms(2) p
    by (simp only: length_helper_loop.simps fast_cdr [OF assms(1)] andThen.simps is_pair_def option.case prod.case n if_False simp_thms option.distinct)
qed (use assms(2) in \<open>simp add: is_pair_def\<close>)

lemma length_loop_ends:
  assumes H: "no_null_cdr H" and e: "ends_after H v n" and v: "nth_cdr H v n \<noteq> Null"
  shows "i \<le> n \<Longrightarrow> n < i + k \<Longrightarrow> length_helper_loop k H (nth_cdr H v i) (nth_cdr H v (2 * i)) (of_nat i)
    = Inr (if nth_cdr H v n = Empty then IntV (of_nat n) else Null)"
proof (induction k arbitrary: i)
  case (Suc k)
  have live: "nth_cdr H v j \<noteq> Null" if "j \<le> n" for j
  proof (cases "j = n")
    case False
    then have "is_pair H (nth_cdr H v j)" using e that by (simp add: ends_after_def del: nth_cdr_Suc)
    then show ?thesis using pair_not_null by blast
  qed (use v in simp)
  have nn: "nth_cdr H v i \<noteq> Null" using live Suc.prems(1) by blast
  show ?case
  proof (cases "i = n")
    case True
    then show ?thesis using e length_loop_step [OF H nn] by (simp add: ends_after_def del: length_helper_loop.simps nth_cdr_Suc)
  next
    case False
    then have i: "i < n" using Suc.prems(1) by simp
    then have "is_pair H (nth_cdr H v i)" using e by (simp add: ends_after_def del: nth_cdr_Suc)
    then have p: "is_pair H (nth_cdr H v i)" "nth_cdr H v i \<noteq> Empty" using pair_not_null by blast+
    have "nth_cdr H v (i + 1) \<noteq> nth_cdr H v (2 * (i + 1))"
    proof (cases "2 * (i + 1) \<le> n")
      case True
      then show ?thesis using ends_inject [OF e, of "i + 1" "2 * (i + 1)"] by simp
    next
      case False
      then have "nth_cdr H v (2 * (i + 1)) = Null" using behind_end [OF e] by (simp del: nth_cdr_Suc)
      moreover have "nth_cdr H v (i + 1) \<noteq> Null" using live [of "i + 1"] i by (simp del: nth_cdr_Suc)
      ultimately show ?thesis by simp
    qed
    then show ?thesis using Suc.IH [of "i + 1"] Suc.prems i p length_loop_step [OF H nn, of k "of_nat i"]
      by (simp del: length_helper_loop.simps nth_cdr_Suc add: add.commute)
  qed
qed simp

lemma length_loop_circular:
  assumes H: "no_null_cdr H" and c: "circular H v"
    and m: "nth_cdr H v m = nth_cdr H v (2 * m)"
  shows "i < m \<Longrightarrow> m < i + k \<Longrightarrow> length_helper_loop k H (nth_cdr H v i) (nth_cdr H v (2 * i)) c' = Inr (IntV (- 1))"
proof (induction k arbitrary: i c')
  case (Suc k)
  have p: "is_pair H (nth_cdr H v i)" using c by (simp add: circular_def)
  then have n: "nth_cdr H v i \<noteq> Null" "nth_cdr H v i \<noteq> Empty" by (auto simp: is_pair_def)
  show ?case
  proof (cases "nth_cdr H v (i + 1) = nth_cdr H v (2 * (i + 1))")
    case True
    then show ?thesis using length_loop_step [OF H n(1), of k c'] p n by (simp del: length_helper_loop.simps nth_cdr_Suc)
  next
    case False
    then have "i + 1 \<noteq> m" using m by metis
    then show ?thesis using Suc.IH [of "i + 1" "c' + 1"] Suc.prems False length_loop_step [OF H n(1), of k c'] p n
      by (simp del: length_helper_loop.simps nth_cdr_Suc)
  qed
qed simp

text \<open>On a circular list the two positions meet within as many steps as the heap has objects.\<close>

lemma circular_meets:
  assumes "circular H v"
  shows "\<exists>m. 0 < m \<and> m \<le> length H \<and> nth_cdr H v m = nth_cdr H v (2 * m)"
proof -
  let ?f = "nth_cdr H v"
  have "?f ` {..length H} \<subseteq> Ptr ` {..<length H}"
    using assms pair_bound by (fastforce simp: circular_def is_pair_def)
  then have "card (?f ` {..length H}) \<le> length H"
    using card_mono [of "Ptr ` {..<length H}" "?f ` {..length H}"] card_image [of Ptr "{..<length H}"]
    by (simp add: inj_on_def)
  then have "\<not> inj_on ?f {..length H}" using card_image [of ?f "{..length H}"] by auto
  then obtain a b where ab: "a < b" "b \<le> length H" "?f a = ?f b"
    by (auto simp: inj_on_def) (metis nat_neq_iff)
  define l where "l = b - a"
  have l: "0 < l" "a + l = b" using ab by (simp_all add: l_def)
  have period: "?f (i + l) = ?f i" if "a \<le> i" for i
  proof -
    have "?f (b + (i - a)) = ?f (a + (i - a))" using ab(3) by (simp add: nth_cdr_add)
    moreover have "b + (i - a) = i + l" "a + (i - a) = i" using that l(2) by linarith+
    ultimately show ?thesis by (simp only:)
  qed
  have periods: "?f (i + k * l) = ?f i" if "a \<le> i" for i k
  proof (induction k)
    case (Suc k)
    have "?f (i + Suc k * l) = ?f ((i + k * l) + l)" by (simp add: algebra_simps)
    then show ?case using period [of "i + k * l"] that Suc by simp
  qed simp
  define m where "m = (if a = 0 then l else l * ((a + l - 1) div l))"
  have m: "a \<le> m" "m \<le> b" "0 < m" "\<exists>k. m = k * l"
  proof -
    show "\<exists>k. m = k * l" by (cases "a = 0") (auto simp: m_def intro: exI [of _ 1])
    have "l * ((a + l - 1) div l) = (a + l - 1) - (a + l - 1) mod l" by (simp add: minus_mod_eq_mult_div)
    moreover have "(a + l - 1) mod l \<le> l - 1" using l(1) mod_less_divisor [of l "a + l - 1"] by linarith
    ultimately show "a \<le> m" "m \<le> b" "0 < m" using l by (auto simp: m_def)
  qed
  then obtain k where "m = k * l" by blast
  then have "?f (2 * m) = ?f m" using periods [OF m(1), of k] by (simp add: mult_2)
  then show ?thesis using m ab(2) by (intro exI [of _ m]) auto
qed

lemma ends_bound: "ends_after H v n \<Longrightarrow> n \<le> length H"
proof -
  assume e: "ends_after H v n"
  have "inj_on (nth_cdr H v) {..<n}" using ends_inject [OF e] by (auto simp: inj_on_def) (metis nat_neq_iff order_less_imp_le)
  moreover have "nth_cdr H v ` {..<n} \<subseteq> Ptr ` {..<length H}"
    using e pair_bound by (fastforce simp: ends_after_def is_pair_def)
  ultimately have "n \<le> card (Ptr ` {..<length H})"
    using card_mono [of "Ptr ` {..<length H}" "nth_cdr H v ` {..<n}"] by (simp add: card_image)
  then show ?thesis using card_image_le [of "{..<length H}" Ptr] by simp
qed

text \<open>
  C37: \<open>length_helper\<close> returns on every list, within as many turns as the heap has objects and one
  more: the number of pairs of a list that ends in the empty list, the null value for one that ends
  in something else, and -1 for a circular one; and every list is one of these.
\<close>

theorem length_helper_correct:
  assumes "no_null_cdr H" and "v \<noteq> Null"
  shows "(\<forall>n. ends_after H v n \<longrightarrow> length_helper H v = Inr (if nth_cdr H v n = Empty then IntV (of_nat n) else Null))
    \<and> (circular H v \<longrightarrow> length_helper H v = Inr (IntV (- 1)))
    \<and> (circular H v \<or> (\<exists>n. ends_after H v n))"
proof (intro conjI allI impI)
  fix n assume e: "ends_after H v n"
  have "nth_cdr H v n \<noteq> Null"
  proof (cases n)
    case (Suc m)
    then have "is_pair H (nth_cdr H v m)" using e by (simp add: ends_after_def del: nth_cdr_Suc)
    then show ?thesis using pair_cdr [OF assms(1)] Suc by (auto simp: is_pair_def next_cdr_def)
  qed (use assms(2) in simp)
  from length_loop_ends [OF assms(1) e this, of 0 "length H + 1"] ends_bound [OF e]
  show "length_helper H v = Inr (if nth_cdr H v n = Empty then IntV (of_nat n) else Null)"
    by (simp add: length_helper_def del: length_helper_loop.simps)
next
  assume c: "circular H v"
  obtain m where "0 < m" "m \<le> length H" "nth_cdr H v m = nth_cdr H v (2 * m)" using circular_meets [OF c] by blast
  then show "length_helper H v = Inr (IntV (- 1))"
    using length_loop_circular [OF assms(1) c, of m 0 "length H + 1" 0] by (simp add: length_helper_def del: length_helper_loop.simps)
qed (rule ends_or_circular)

theorem length_helper_correct_witness:
  "length_helper [OPair Undef (Ptr 1), OPair Undef (Ptr 0) :: int object] (Ptr 0) = Inr (IntV (- 1))"
proof -
  let ?H = "[OPair Undef (Ptr 1), OPair Undef (Ptr 0) :: int object]"
  have "nth_cdr ?H (Ptr 0) i \<in> {Ptr 0, Ptr 1}" for i
    by (induction i) (auto simp: next_cdr_def pair_at_def obj_def)
  moreover have "is_pair ?H (Ptr 0)" "is_pair ?H (Ptr 1)" by (simp_all add: is_pair_def pair_at_def obj_def)
  ultimately have "is_pair ?H (nth_cdr ?H (Ptr 0) i)" for i by (metis empty_iff insert_iff)
  then have "circular ?H (Ptr 0)" by (simp add: circular_def)
  moreover have "no_null_cdr ?H" by (simp add: no_null_cdr_def)
  ultimately show ?thesis using length_helper_correct [of ?H "Ptr 0"] by blast
qed

section \<open>Arithmetic and sharing\<close>

text \<open>The first \<open>n\<close> objects are the same afterwards, the one that \<open>V\<close> names left out.\<close>

definition untouched :: "nat \<Rightarrow> ref \<Rightarrow> 'f heap \<Rightarrow> 'f heap \<Rightarrow> bool" where
  "untouched n V H H' \<longleftrightarrow> length H \<le> length H' \<and> (\<forall>i < n. V \<noteq> Ptr i \<longrightarrow> H' ! i = H ! i)"

lemma untouched_refl [simp]: "untouched n V H H"
  by (simp add: untouched_def)

lemma untouched_trans:
  "untouched n V H H' \<Longrightarrow> untouched n W H' H'' \<Longrightarrow> (\<And>i. i < n \<Longrightarrow> W = Ptr i \<Longrightarrow> V = Ptr i) \<Longrightarrow> untouched n V H H''"
  by (fastforce simp: untouched_def)

lemma op_float_untouched: "op_float D Op V Y H = Inr H' \<Longrightarrow> untouched n V H H'"
  by (auto simp: op_float_def untouched_def split: ref.splits option.splits)

lemma alloc_untouched: "alloc x H = (v, H') \<Longrightarrow> n \<le> length H \<Longrightarrow> untouched n V H H' \<and> (\<exists>a. v = Ptr a \<and> n \<le> a)"
  by (auto simp: alloc_def untouched_def nth_append)

lemma op_int_untouched:
  "op_int D Op i j H = Inr (r, H') \<Longrightarrow> n \<le> length H
    \<Longrightarrow> untouched n V H H' \<and> (\<forall>W. r = Accum W \<longrightarrow> (\<exists>z. W = IntV z) \<or> (\<exists>a. W = Ptr a \<and> n \<le> a))"
  by (cases Op) (auto simp: op_int_def andThen_Inr alloc_def untouched_def nth_append split: if_splits)

lemma reduce_untouched:
  "arithmetic_reduce D Op V Args H = Inr (r, H') \<Longrightarrow> n \<le> length H \<Longrightarrow> untouched n V H H'"
proof (induction Args arbitrary: V H)
  case (Cons X Args)
  have grown: "n \<le> length H1" if "untouched n V H H1" for V H1
    using that Cons.prems(2) by (simp add: untouched_def)
  consider "\<not> isNumber H X" | "isNumber H X" "float_at H V \<noteq> None"
    | "isNumber H X" "float_at H V = None" "float_at H X \<noteq> None" | "isNumber H X" "float_at H V = None" "float_at H X = None"
    by blast
  then show ?case
  proof cases
    case 2
    then obtain H1 where "op_float D Op V X H = Inr H1" "arithmetic_reduce D Op V Args H1 = Inr (r, H')"
      using Cons.prems(1) by (auto simp: andThen_Inr)
    then show ?thesis using Cons.IH grown op_float_untouched untouched_trans by metis
  next
    case 3
    then obtain i H1 H2 v where i: "V = IntV i" "alloc (OFloat (double_of D i)) H = (v, H1)" "op_float D Op v X H1 = Inr H2"
        "arithmetic_reduce D Op v Args H2 = Inr (r, H')"
      using Cons.prems(1) by (auto simp: andThen_Inr split: ref.splits)
    have v: "untouched n V H H1" "\<exists>a. v = Ptr a \<and> n \<le> a" using alloc_untouched [OF i(2) Cons.prems(2)] by auto
    have "untouched n v H1 H2" by (rule op_float_untouched [OF i(3)])
    moreover have "n \<le> length H2"
      using op_float_untouched [OF i(3), of n] grown [OF v(1)] by (simp add: untouched_def)
    then have "untouched n v H2 H'" by (rule Cons.IH [OF i(4)])
    ultimately have "untouched n v H1 H'" by (rule untouched_trans) simp
    with v(1) show ?thesis by (rule untouched_trans) (use v(2) in auto)
  next
    case 4
    then obtain i j where ij: "V = IntV i" "X = IntV j" using Cons.prems(1) by (cases V; cases X) auto
    then obtain s H1 where i: "op_int D Op i j H = Inr (s, H1)"
        "(case s of Accum W \<Rightarrow> arithmetic_reduce D Op W Args H1 | Failed m vs \<Rightarrow> Inr (Failed m vs, H1)) = Inr (r, H')"
      using Cons.prems(1) 4 by (auto simp: andThen_Inr)
    have u: "untouched n V H H1" "\<And>W. s = Accum W \<Longrightarrow> (\<exists>z. W = IntV z) \<or> (\<exists>a. W = Ptr a \<and> n \<le> a)"
      using op_int_untouched [OF i(1) Cons.prems(2)] by auto
    show ?thesis
    proof (cases s)
      case (Accum W)
      then have "untouched n W H1 H'" using Cons.IH i(2) grown [OF u(1)] by simp
      with u(1) show ?thesis by (rule untouched_trans) (use u(2) [OF Accum] in auto)
    qed (use u(1) i(2) in auto)
  qed (use Cons.prems in auto)
qed simp

lemma finish_Inr: "finish_reduce m = Inr (e, H') \<Longrightarrow> \<exists>r. m = Inr (r, H')"
  by (cases m) (auto simp: finish_reduce_def returning_def raising_def split: reduced.splits)

text \<open>
  C39: What arithmetic does to objects that are shared. A sum or a product changes no object that
  existed before. A difference or a quotient changes at most the object of its first operand, and if
  that is a floating point number it does change it: the number becomes the result and is returned.
\<close>

theorem arithmetic_sharing:
  "((add D Args H = Inr (e, H') \<or> mul D Args H = Inr (e, H')) \<longrightarrow> take (length H) H' = H)
    \<and> ((sub D (V # W # Args) H = Inr (e, H') \<or> div_builtin D (V # W # Args) H = Inr (e, H'))
        \<longrightarrow> (\<forall>i < length H. V \<noteq> Ptr i \<longrightarrow> H' ! i = H ! i))
    \<and> (a < length H \<and> H ! a = OFloat x \<and> isNumber H W
        \<longrightarrow> sub D [Ptr a, W] H = Inr (Continue [Ptr a], H[a := OFloat (dsub D x (getAsDouble D H W))])
          \<and> div_builtin D [Ptr a, W] H = Inr (Continue [Ptr a], H[a := OFloat (ddiv D x (getAsDouble D H W))]))"
proof (intro conjI)
  have "take (length H) H' = H" if "untouched (length H) (IntV i) H H'" for i
    using that by (auto simp: untouched_def intro!: nth_equalityI)
  then show "(add D Args H = Inr (e, H') \<or> mul D Args H = Inr (e, H')) \<longrightarrow> take (length H) H' = H"
    using reduce_untouched finish_Inr unfolding add_def mul_def by (metis order_refl)
next
  have "\<forall>i < length H. V \<noteq> Ptr i \<longrightarrow> H' ! i = H ! i" if "finish_reduce (arithmetic_reduce D Op V (W # Args) H) = Inr (e, H')" for Op
    using finish_Inr [OF that] reduce_untouched unfolding untouched_def by (metis order_refl)
  then show "(sub D (V # W # Args) H = Inr (e, H') \<or> div_builtin D (V # W # Args) H = Inr (e, H'))
      \<longrightarrow> (\<forall>i < length H. V \<noteq> Ptr i \<longrightarrow> H' ! i = H ! i)"
    by (auto simp: sub_def div_builtin_def simp del: arithmetic_reduce.simps)
next
  show "a < length H \<and> H ! a = OFloat x \<and> isNumber H W
      \<longrightarrow> sub D [Ptr a, W] H = Inr (Continue [Ptr a], H[a := OFloat (dsub D x (getAsDouble D H W))])
        \<and> div_builtin D [Ptr a, W] H = Inr (Continue [Ptr a], H[a := OFloat (ddiv D x (getAsDouble D H W))])"
    by (auto simp: sub_def div_builtin_def float_at_def obj_def op_float_def op_double_def finish_reduce_def returning_def)
qed

theorem arithmetic_sharing_witness:
  "sub \<lparr>double_of = sint, dadd = (+), dsub = (-), dmul = (*), ddiv = (div), dpositive = (<) 0, dzero = (=) 0\<rparr>
     [Ptr 0, IntV 2] [OFloat 5] = Inr (Continue [Ptr 0], [OFloat 3])"
  using arithmetic_sharing [of "\<lparr>double_of = sint, dadd = (+), dsub = (-), dmul = (*), ddiv = (div), dpositive = (<) 0, dzero = (=) (0 :: int)\<rparr>"
      "[]" "[OFloat 5]" "RaiseError [] []" "[]" "Null" "IntV 2" 0 5]
  by (simp add: isNumber_def getAsDouble_def float_at_def obj_def)

section \<open>Appending lists\<close>

text \<open>A chain of pairs that holds \<open>xs\<close> and goes on with \<open>t\<close>; a proper list goes on with the empty list.\<close>

fun list_chain :: "'f heap \<Rightarrow> ref \<Rightarrow> ref list \<Rightarrow> ref \<Rightarrow> bool" where
  "list_chain H v [] t \<longleftrightarrow> v = t"
| "list_chain H v (x # xs) t \<longleftrightarrow> (\<exists>d. pair_at H v = Some (x, d) \<and> list_chain H d xs t)"

lemma pair_at_grown: "pair_at H v = Some p \<Longrightarrow> pair_at (H @ N) v = Some p"
  by (auto simp: pair_at_def obj_def nth_append split: ref.splits if_splits)

lemma chain_grown: "list_chain H v xs t \<Longrightarrow> list_chain (H @ N) v xs t"
  by (induction xs arbitrary: v) (auto dest: pair_at_grown)

lemma chain_append: "list_chain H v xs u \<Longrightarrow> list_chain H u ys t \<Longrightarrow> list_chain H v (xs @ ys) t"
  by (induction xs arbitrary: v) auto

lemma append_rec_chain:
  "list_chain H v xs Empty \<Longrightarrow> length xs < n \<Longrightarrow> t \<noteq> Null
    \<Longrightarrow> \<exists>V N. append_rec n H v t = Inr (V, H @ N) \<and> list_chain (H @ N) V xs t \<and> V \<noteq> Null \<and> length N = length xs"
proof (induction xs arbitrary: v n)
  case Nil
  then show ?case by (cases n) auto
next
  case (Cons x xs)
  then obtain d m where d: "pair_at H v = Some (x, d)" "list_chain H d xs Empty" "n = Suc m" "length xs < m"
    by (cases n) auto
  obtain V N where V: "append_rec m H d t = Inr (V, H @ N)" "list_chain (H @ N) V xs t" "V \<noteq> Null" "length N = length xs"
    using Cons.IH [OF d(2,4) Cons.prems(3)] by blast
  have "v \<noteq> Null" "v \<noteq> Empty" using d(1) by auto
  then have "append_rec n H v t = Inr (Ptr (length (H @ N)), H @ (N @ [OPair x V]))"
    using d V by (simp add: alloc_def)
  moreover have "list_chain (H @ (N @ [OPair x V])) (Ptr (length (H @ N))) (x # xs) t"
    using chain_grown [OF V(2), of "[OPair x V]"] by (simp add: pair_at_def obj_def nth_append)
  ultimately show ?case using V(4) by (intro exI conjI) auto
qed

lemma append_loop_chain:
  "list_all2 (\<lambda>v xs. list_chain H v xs Empty \<and> length xs < n) vs xss \<Longrightarrow> t \<noteq> Null
    \<Longrightarrow> \<exists>V N. append_loop n vs t H = Inr (Continue [V], H @ N) \<and> list_chain (H @ N) V (concat (rev xss)) t
      \<and> length N = length (concat xss)"
proof (induction vs arbitrary: xss H t)
  case Nil
  then show ?case by (auto simp: returning_def)
next
  case (Cons v vs)
  then obtain xs yss where x: "xss = xs # yss" "list_chain H v xs Empty" "length xs < n"
      "list_all2 (\<lambda>v xs. list_chain H v xs Empty \<and> length xs < n) vs yss"
    by (auto simp: list_all2_Cons1)
  obtain V N where V: "append_rec n H v t = Inr (V, H @ N)" "list_chain (H @ N) V xs t" "V \<noteq> Null" "length N = length xs"
    using append_rec_chain [OF x(2,3) Cons.prems(2)] by blast
  have "list_all2 (\<lambda>v xs. list_chain (H @ N) v xs Empty \<and> length xs < n) vs yss"
    using x(4) by (rule list_all2_mono) (auto intro: chain_grown)
  from Cons.IH [OF this V(3)] obtain W M where W: "append_loop n vs V (H @ N) = Inr (Continue [W], (H @ N) @ M)"
      "list_chain ((H @ N) @ M) W (concat (rev yss)) V" "length M = length (concat yss)"
    by blast
  have "list_chain (H @ (N @ M)) W (concat (rev xss)) t"
    using chain_append [OF W(2) chain_grown [OF V(2), of M]] x(1) by simp
  moreover have "append_loop n (v # vs) t H = Inr (Continue [W], H @ (N @ M))" using V(1,3) W(1) by simp
  ultimately show ?case using V(4) W(3) x(1) by (intro exI conjI) auto
qed

text \<open>
  C38: Appending proper lists and a last value calls the continuation with a list of the elements of
  all of them, in order, that goes on with the last value itself. The pairs of the result are new,
  one for each element; the lists are not changed and are still what they were.
\<close>

theorem append_lists:
  assumes "list_all2 (\<lambda>v xs. list_chain H v xs Empty \<and> length xs < n) vs xss" and "t \<noteq> Null"
  shows "\<exists>V N. append_builtin n (vs @ [t]) H = Inr (Continue [V], H @ N)
    \<and> list_chain (H @ N) V (concat xss) t \<and> length N = length (concat xss)
    \<and> list_all2 (\<lambda>v xs. list_chain (H @ N) v xs Empty) vs xss"
proof -
  have "list_all2 (\<lambda>v xs. list_chain H v xs Empty \<and> length xs < n) (rev vs) (rev xss)" using assms(1) by simp
  from append_loop_chain [OF this assms(2)] obtain V N where V: "append_loop n (rev vs) t H = Inr (Continue [V], H @ N)"
      "list_chain (H @ N) V (concat xss) t" "length N = length (concat (rev xss))"
    by auto
  moreover have "list_all2 (\<lambda>v xs. list_chain (H @ N) v xs Empty) vs xss"
    using assms(1) by (rule list_all2_mono) (auto intro: chain_grown)
  moreover have "length (concat (rev xss)) = length (concat xss)" by (simp add: length_concat rev_map [symmetric])
  ultimately show ?thesis by (auto simp: append_builtin_def)
qed

theorem append_lists_witness:
  "\<exists>V N. append_builtin 3 [Ptr 0, Ptr 0, IntV 7] [OPair Undef Empty :: int object] = Inr (Continue [V], [OPair Undef Empty] @ N)
    \<and> list_chain ([OPair Undef Empty] @ N) V [Undef, Undef] (IntV 7)"
  using append_lists [of "[OPair Undef Empty :: int object]" 3 "[Ptr 0, Ptr 0]" "[[Undef], [Undef]]" "IntV 7"]
  by (auto simp: pair_at_def obj_def)

section \<open>Sums of integers\<close>

lemma fits_sint [simp]: "fits (sint (x :: 32 word))"
  using sint_range_size [of x] by (simp add: word_size fits_def)

lemma sint_plus: "fits (sint x + sint y) \<Longrightarrow> sint (x + y :: 32 word) = sint x + sint y"
  using signed_take_bit_int_eq_self [of 31 "sint x + sint y"]
  by (simp add: fits_def sint_word_add)

definition sums_fit :: "int \<Rightarrow> int list \<Rightarrow> bool" where
  "sums_fit n xs \<longleftrightarrow> (\<forall>k \<le> length xs. fits (n + sum_list (take k xs)))"

lemma sums_fit_simps:
  "sums_fit n [] \<longleftrightarrow> fits n" "sums_fit n (x # xs) \<longleftrightarrow> fits n \<and> sums_fit (n + x) xs"
proof -
  have "sums_fit n (x # xs) \<longleftrightarrow> (\<forall>k \<in> {..Suc (length xs)}. fits (n + sum_list (take k (x # xs))))"
    by (auto simp: sums_fit_def)
  also have "{..Suc (length xs)} = insert 0 (Suc ` {..length xs})" by (rule atMost_Suc_eq_insert_0)
  also have "(\<forall>k \<in> insert 0 (Suc ` {..length xs}). fits (n + sum_list (take k (x # xs)))) \<longleftrightarrow> fits n \<and> sums_fit (n + x) xs"
    by (auto simp: sums_fit_def add.assoc)
  finally show "sums_fit n (x # xs) \<longleftrightarrow> fits n \<and> sums_fit (n + x) xs" .
qed (simp add: sums_fit_def)

lemma sums_fit_first: "sums_fit n xs \<Longrightarrow> fits n"
  by (cases xs) (simp_all add: sums_fit_simps)

lemma reduce_int:
  "arithmetic_reduce D Op (IntV x) (IntV y # Xs) H = andThen (op_int D Op x y H) (\<lambda>(r, H).
    case r of Accum V \<Rightarrow> arithmetic_reduce D Op V Xs H | Failed m vs \<Rightarrow> Inr (Failed m vs, H))"
  by (simp add: float_at_def obj_def isNumber_def)

lemma reduce_ints:
  "arithmetic_reduce D OpAdd (IntV x) (map IntV ys) H =
    (if sums_fit (sint x) (map sint ys) then Inr (Accum (IntV (word_of_int (sint x + sum_list (map sint ys)))), H)
     else Inl SignedOverflow)"
proof (induction ys arbitrary: x)
  case (Cons y ys)
  show ?case
  proof (cases "fits (sint x + sint y)")
    case True
    then show ?thesis using Cons.IH [of "x + y"]
      by (simp add: reduce_int op_int_def int_result_def sint_plus sums_fit_simps add.assoc del: arithmetic_reduce.simps)
  next
    case False
    then have "\<not> sums_fit (sint x + sint y) (map sint ys)" using sums_fit_first by blast
    then show ?thesis using False
      by (simp add: reduce_int op_int_def int_result_def sums_fit_simps del: arithmetic_reduce.simps)
  qed
qed (simp add: sums_fit_simps)

text \<open>
  A sum of exact integers is their sum, if no sum of the first ones leaves the range of 32-bit
  integers; otherwise the addition of two signed integers overflows.
\<close>

theorem add_integers:
  "add D (map IntV xs) H =
    (if sums_fit 0 (map sint xs) then returning (IntV (word_of_int (sum_list (map sint xs)))) H else Inl SignedOverflow)"
  using reduce_ints [of D 0 xs H] by (simp add: add_def finish_reduce_def)

end
