(* ===== verification/ParserTotal.thy ===== *)
theory ParserTotal
  imports Parser LexerSafety
begin

text \<open>
  The reader terminates and never reads outside the source. Every call of the recursive descent is
  measured by the input that is left (\<open>budget\<close>) and by its depth in the grammar (\<open>rank\<close>); the lemmas
  are stated in a small Hoare style over results (\<open>okay\<close>).
\<close>

section \<open>Results without lexer faults\<close>

definition okay :: "('a \<Rightarrow> bool) \<Rightarrow> 'a result \<Rightarrow> bool" where
  "okay Q m \<longleftrightarrow> (case m of Inl e \<Rightarrow> e \<noteq> OutOfFuel \<and> e \<noteq> BufferOverread | Inr x \<Rightarrow> Q x)"

lemma okay_simps [simp]:
  "okay Q (Inr x) = Q x" "okay Q (Inl AssertionFailed)" "okay Q (Inl Unreachable)"
  "\<not> okay Q (Inl OutOfFuel)" "\<not> okay Q (Inl BufferOverread)"
  by (simp_all add: okay_def)

lemma okay_andThen: "okay Q m \<Longrightarrow> (\<And>x. Q x \<Longrightarrow> okay R (f x)) \<Longrightarrow> okay R (andThen m f)"
  by (cases m) (auto simp: okay_def)

lemma okay_check: "(b \<Longrightarrow> okay Q m) \<Longrightarrow> okay Q (check b m)"
  by (simp add: check_def)

lemma okay_mono: "okay Q m \<Longrightarrow> (\<And>x. Q x \<Longrightarrow> R x) \<Longrightarrow> okay R m"
  by (cases m) (auto simp: okay_def)

lemma okay_get_value: "(\<And>v. r = Usable v \<Longrightarrow> okay Q (k v)) \<Longrightarrow> okay Q (get_value r k)"
  by (cases r) (simp_all add: get_value_def)

lemma okay_if: "(b \<Longrightarrow> okay Q r) \<Longrightarrow> (\<not> b \<Longrightarrow> okay Q r') \<Longrightarrow> okay Q (if b then r else r')"
  and okay_list: "(xs = [] \<Longrightarrow> okay Q r) \<Longrightarrow> (\<And>y ys. xs = y # ys \<Longrightarrow> okay Q (f y ys)) \<Longrightarrow>
    okay Q (case xs of [] \<Rightarrow> r | y # ys \<Rightarrow> f y ys)"
  and okay_option: "(m = None \<Longrightarrow> okay Q r) \<Longrightarrow> (\<And>y. m = Some y \<Longrightarrow> okay Q (g y)) \<Longrightarrow>
    okay Q (case m of None \<Rightarrow> r | Some y \<Rightarrow> g y)"
  and okay_prod: "(\<And>a b. z = (a, b) \<Longrightarrow> okay Q (h a b)) \<Longrightarrow> okay Q (case z of (a, b) \<Rightarrow> h a b)"
  by (auto split: list.split option.split prod.split)

section \<open>The input that is left\<close>

definition good :: "nat \<Rightarrow> parser \<Rightarrow> bool" where
  "good n P \<longleftrightarrow> lexer_ok n (TheLexer P)
     \<and> (Kind (Tok P) = tok_numeric_constant \<longrightarrow> (\<exists>b\<le>n. LitBegin (Tok P) = Some b))"

definition budget :: "nat \<Rightarrow> parser \<Rightarrow> nat" where
  "budget n P = n - BufferPtr (TheLexer P) + (if Kind (Tok P) \<in> eof_kinds then 0 else 1)"

text \<open>What every step of the parser keeps: the state is good, no input comes back, no error is lost.\<close>

definition after :: "nat \<Rightarrow> parser \<Rightarrow> parser \<Rightarrow> bool" where
  "after n P P' \<longleftrightarrow> good n P' \<and> budget n P' \<le> budget n P \<and> (HasError P \<longrightarrow> HasError P')"

lemma after_refl: "good n P \<Longrightarrow> after n P P"
  and after_trans: "after n P P' \<Longrightarrow> after n P' P'' \<Longrightarrow> after n P P''"
  by (auto simp: after_def)

lemma good_update [simp]:
  "good n (P\<lparr>PrevTok := t\<rparr>) = good n P" "good n (P\<lparr>IsFinished := b\<rparr>) = good n P"
  "good n (P\<lparr>ErrTok := t\<rparr>) = good n P" "good n (P\<lparr>ErrorMsg := m\<rparr>) = good n P"
  "good n (P\<lparr>LiteralResult := m\<rparr>) = good n P" "good n (P\<lparr>IsNeoteric := b\<rparr>) = good n P"
  "good n (P\<lparr>CurStartTok := t\<rparr>) = good n P" "good n (P\<lparr>Terminator := k\<rparr>) = good n P"
  "good n (P\<lparr>IsCurlyInfixEnabled := b\<rparr>) = good n P"
  by (simp_all add: good_def)

lemma budget_update [simp]:
  "budget n (P\<lparr>PrevTok := t\<rparr>) = budget n P" "budget n (P\<lparr>IsFinished := b\<rparr>) = budget n P"
  "budget n (P\<lparr>ErrTok := t\<rparr>) = budget n P" "budget n (P\<lparr>ErrorMsg := m\<rparr>) = budget n P"
  "budget n (P\<lparr>LiteralResult := m\<rparr>) = budget n P" "budget n (P\<lparr>IsNeoteric := b\<rparr>) = budget n P"
  "budget n (P\<lparr>CurStartTok := t\<rparr>) = budget n P" "budget n (P\<lparr>Terminator := k\<rparr>) = budget n P"
  "budget n (P\<lparr>IsCurlyInfixEnabled := b\<rparr>) = budget n P"
  by (simp_all add: budget_def)

lemma HasError_update [simp]:
  "HasError (P\<lparr>PrevTok := t\<rparr>) = HasError P" "HasError (P\<lparr>IsFinished := b\<rparr>) = HasError P"
  "HasError (P\<lparr>ErrTok := t\<rparr>) = HasError P" "HasError (P\<lparr>ErrorMsg := m\<rparr>) \<longleftrightarrow> m \<noteq> []"
  "HasError (P\<lparr>LiteralResult := m\<rparr>) = HasError P" "HasError (P\<lparr>IsNeoteric := b\<rparr>) = HasError P"
  "HasError (P\<lparr>CurStartTok := t\<rparr>) = HasError P" "HasError (P\<lparr>Terminator := k\<rparr>) = HasError P"
  "HasError (P\<lparr>IsCurlyInfixEnabled := b\<rparr>) = HasError P" "HasError (P\<lparr>TheLexer := L\<rparr>) = HasError P"
  "HasError (P\<lparr>Tok := t\<rparr>) = HasError P"
  by (simp_all add: HasError_def)

text \<open>A state after a token: strictly less input when the token before was no end marker.\<close>

definition consumed :: "nat \<Rightarrow> parser \<Rightarrow> parser \<Rightarrow> bool" where
  "consumed n P P' \<longleftrightarrow> after n P P' \<and> (Kind (Tok P) \<notin> eof_kinds \<longrightarrow> budget n P' < budget n P)"

lemma lex_directives_okay:
  "lexer_ok n (TheLexer P) \<Longrightarrow> n - BufferPtr (TheLexer P) < k \<Longrightarrow>
    okay (\<lambda>P'. good n P' \<and> (HasError P \<longrightarrow> HasError P')
      \<and> BufferPtr (TheLexer P) \<le> BufferPtr (TheLexer P')
      \<and> (Kind (Tok P') \<notin> eof_kinds \<longrightarrow> BufferPtr (TheLexer P) < BufferPtr (TheLexer P'))) (lex_directives k P)"
proof (induction k arbitrary: P)
  case (Suc k)
  obtain L t where L: "Lex (TheLexer P) = Some (L, t)" "lexer_ok n L"
    "BufferPtr (TheLexer P) \<le> BufferPtr L" "BufferPtr L \<le> n"
    "Kind t \<notin> eof_kinds \<Longrightarrow> BufferPtr (TheLexer P) < BufferPtr L"
    using Lex_step [OF Suc.prems(1)] by (auto simp: lexer_ok_def)
  have start: "\<exists>b\<le>n. LitBegin t = Some b" using Lex_token_start [OF Suc.prems(1) L(1)] by blast
  let ?P = "P\<lparr>TheLexer := L, Tok := t\<rparr>"
  show ?case
  proof (cases "Kind t = tok_parser_directive \<and> LiteralData t = ''#!curly-infix''")
    case False
    then have "lex_directives (Suc k) P = Inr ?P" using L(1) by (auto simp: Let_def)
    then show ?thesis using L start by (simp add: good_def)
  next
    case True
    then have "BufferPtr (TheLexer P) < BufferPtr L" using L(5) by (simp add: eof_kinds_def)
    moreover have "lex_directives (Suc k) P = lex_directives k (?P\<lparr>IsCurlyInfixEnabled := True\<rparr>)"
      using True L(1) by (simp add: Let_def)
    moreover have "okay (\<lambda>P'. good n P' \<and> (HasError (?P\<lparr>IsCurlyInfixEnabled := True\<rparr>) \<longrightarrow> HasError P')
      \<and> BufferPtr L \<le> BufferPtr (TheLexer P')
      \<and> (Kind (Tok P') \<notin> eof_kinds \<longrightarrow> BufferPtr L < BufferPtr (TheLexer P')))
      (lex_directives k (?P\<lparr>IsCurlyInfixEnabled := True\<rparr>))"
      using Suc.IH [of "?P\<lparr>IsCurlyInfixEnabled := True\<rparr>"] L calculation Suc.prems(2) by simp
    ultimately show ?thesis by (auto elim!: okay_mono)
  qed
qed simp

lemma ConsumeToken_okay:
  assumes "good n P"
  shows "okay (consumed n P) (ConsumeToken P)"
proof -
  have "n - BufferPtr (TheLexer P) < length (Buffer (TheLexer P)) + 1"
    using assms by (auto simp: good_def lexer_ok_def well_terminated_def)
  then have "okay (\<lambda>P'. good n P' \<and> (HasError P \<longrightarrow> HasError P')
      \<and> BufferPtr (TheLexer P) \<le> BufferPtr (TheLexer P')
      \<and> (Kind (Tok P') \<notin> eof_kinds \<longrightarrow> BufferPtr (TheLexer P) < BufferPtr (TheLexer P'))) (ConsumeToken P)"
    using lex_directives_okay [of n "P\<lparr>PrevTok := Tok P\<rparr>" "length (Buffer (TheLexer P)) + 1"] assms
    unfolding ConsumeToken_def LexToken_def by (simp add: good_def [of n P] del: lex_directives.simps)
  then show ?thesis
    by (rule okay_mono) (auto simp: consumed_def after_def budget_def good_def lexer_ok_def)
qed


section \<open>The operations without recursion\<close>

text \<open>
  What a call promises about its result: an undefined value comes with an error message, and a call
  that starts with a token of its own uses up input or finishes the parser without a value.
\<close>

definition kept :: "nat \<Rightarrow> parser \<Rightarrow> 'f ValueResult \<times> parser \<Rightarrow> bool" where
  "kept n P x \<longleftrightarrow> after n P (snd x) \<and> (fst x = UndefinedValue \<longrightarrow> HasError (snd x))"

definition stepped :: "nat \<Rightarrow> parser \<Rightarrow> 'f ValueResult \<times> parser \<Rightarrow> bool" where
  "stepped n P x \<longleftrightarrow> kept n P x
     \<and> (budget n (snd x) < budget n P \<or> (IsFinished (snd x) \<and> \<not> isUsable (fst x)))"

lemma isUsable_simps [simp]:
  "isUsable (Usable v)" "\<not> isUsable NoValue" "\<not> isUsable UndefinedValue"
  by (simp_all add: isUsable_def)

lemma SetError_kept:
  assumes "good n P" "Msg \<noteq> []"
  shows "okay (kept n P) (SetError t Msg P)"
proof -
  have *: "okay (kept n P) (andThen (ConsumeToken Q) (\<lambda>P. Inr (UndefinedValue, P)))"
    if "good n Q" "budget n Q = budget n P" "HasError Q" for Q
    using that by (intro okay_andThen [OF ConsumeToken_okay]) (auto simp: consumed_def after_def kept_def)
  show ?thesis
    using assms by (auto simp: SetError_def Let_def CheckTerminator_def kept_def after_def intro!: *)
qed

lemma SetError_error:
  assumes "good n P" "Msg \<noteq> []" "Kind (Tok P) \<in> eof_kinds \<Longrightarrow> Kind (Tok P) = tok_eof \<or> IsFinished P"
  shows "okay (\<lambda>x. HasError (snd x) \<and> stepped n P x) (SetError t Msg P)"
proof -
  have *: "okay (\<lambda>x. HasError (snd x) \<and> stepped n P x) (andThen (ConsumeToken Q) (\<lambda>P. Inr (UndefinedValue, P)))"
    if "good n Q" "budget n Q = budget n P" "HasError Q" "Kind (Tok Q) \<notin> eof_kinds" for Q
    using that by (intro okay_andThen [OF ConsumeToken_okay])
      (auto simp: consumed_def after_def kept_def stepped_def)
  show ?thesis
    using assms by (auto simp: SetError_def Let_def CheckTerminator_def intro!: *)
      (auto simp: stepped_def kept_def after_def)
qed

lemma SetError_stepped:
  assumes "good n P" "Msg \<noteq> []" "Kind (Tok P) \<in> eof_kinds \<Longrightarrow> Kind (Tok P) = tok_eof \<or> IsFinished P"
  shows "okay (stepped n P) (SetError t Msg P)"
  by (rule okay_mono [OF SetError_error [OF assms]]) auto

lemma ConsumeToken_stepped:
  assumes "good n P" "Kind (Tok P) \<notin> eof_kinds"
  shows "okay (stepped n P) (andThen (ConsumeToken P) (\<lambda>P. Inr (Usable (v P), P)))"
  using assms by (intro okay_andThen [OF ConsumeToken_okay])
    (auto simp: consumed_def after_def kept_def stepped_def)

lemma of_option_okay: "(\<And>x. m = Some x \<Longrightarrow> okay Q (f x)) \<Longrightarrow> okay Q (andThen (of_option Unreachable m) f)"
  by (cases m) auto

lemma char_constant_okay: "okay (\<lambda>r. \<forall>m. r = Inl m \<longrightarrow> m \<noteq> []) (char_constant s)"
  unfolding char_constant_def
  by (auto intro!: of_option_okay split: option.splits list.splits)

lemma literal_loop_okay: "okay (\<lambda>(e, s). e \<noteq> Some []) (literal_loop s acc)"
proof (induction s acc rule: literal_loop.induct)
  case (2 c span acc)
  show ?case
    by (subst literal_loop.simps, intro okay_if okay_list okay_option of_option_okay okay_prod)
      ((rule "2.IH"; assumption) | simp)+
qed simp

lemma tryParseInteger_okay: "okay (\<lambda>_. True) (tryParseInteger s r)"
  by (auto simp: tryParseInteger_def Let_def)

lemma if_not_None: "x \<noteq> None \<Longrightarrow> y \<noteq> None \<Longrightarrow> (if b then x else y) \<noteq> None"
  by simp

lemma parseNumberPrefix_in_buffer:
  "i \<le> n \<Longrightarrow> well_terminated buf n \<Longrightarrow> parseNumberPrefix buf i e x \<noteq> None"
proof (induction i arbitrary: e x rule: upto_induct)
  case (step i)
  show ?case
  proof (cases "buf ! i = CHR ''#''")
    case False
    then show ?thesis using step.prems step.hyps by (subst parseNumberPrefix.simps) (simp add: well_terminated_rd)
  next
    case True
    have i: "i + 2 \<le> n"
      using step.hyps
      by (intro well_terminated_inner [OF step.prems]) (simp_all add: True NUL_def vertical_iff)
    have r: "rd buf i = Some (buf ! i)" "rd buf (i + 1) = Some (buf ! (i + 1))"
      using step.prems i by (simp_all add: well_terminated_rd)
    have IH: "parseNumberPrefix buf (i + 2) e' x' \<noteq> None" for e' x'
      using i step.IH step.prems by simp
    show ?thesis
      by (subst parseNumberPrefix.simps)
        (simp only: r True bind.bind_lunit Let_def not_True_eq_False if_False,
          intro if_not_None IH option.distinct)
  qed
qed

lemma ParseNumber_okay:
  assumes g: "good n P" and k: "Kind (Tok P) = tok_numeric_constant"
  shows "okay (stepped n P) (ParseNumber F P)"
proof -
  obtain b where b: "LitBegin (Tok P) = Some b" "b \<le> n" using g k by (auto simp: good_def)
  have wt: "well_terminated (Buffer (TheLexer P)) n" using g by (auto simp: good_def lexer_ok_def)
  obtain bad Cur e r where pre: "parseNumberPrefix (Buffer (TheLexer P)) b None None = Some (bad, Cur, e, r)"
    using parseNumberPrefix_in_buffer [OF b(2) wt] by (metis not_None_eq prod.exhaust)
  have eof: "Kind (Tok P) \<notin> eof_kinds" using k by (simp add: eof_kinds_def)
  have val: "okay (stepped n P) (Inr (Usable v, P'))" if "consumed n P P'" for v P'
    using that eof by (auto simp: stepped_def kept_def consumed_def)
  have err: "okay (stepped n P) (SetError t ''invalid numerical syntax'' P')" if "consumed n P P'" for t P'
  proof (rule okay_mono [OF SetError_kept])
    show "good n P'" using that by (simp add: consumed_def after_def)
    fix x assume "kept n P' x"
    then show "stepped n P x"
      using that eof by (auto simp: kept_def stepped_def consumed_def after_def)
  qed simp
  show ?thesis
    using val err SetError_stepped [OF g, of "''unsupported number prefix''"] eof
    by (auto simp: ParseNumber_def b pre Let_def
        intro!: okay_andThen [OF tryParseInteger_okay] okay_andThen [OF ConsumeToken_okay [OF g]]
        split: option.split)
qed

lemma ParseLiteralImpl_okay:
  assumes g: "good n P" and k: "Kind (Tok P) \<notin> eof_kinds"
  shows "okay (\<lambda>(failed, P'). stepped n P (if failed then UndefinedValue else Usable v, P')) (ParseLiteralImpl P)"
proof -
  have c: "okay (\<lambda>(failed, P'). stepped n P (if failed then UndefinedValue else Usable v, P'))
      (andThen (ConsumeToken Q) (\<lambda>P. Inr (False, P)))"
    if "good n Q" "Kind (Tok Q) \<notin> eof_kinds" "budget n Q = budget n P" "HasError Q = HasError P" for Q
    using that by (intro okay_andThen [OF ConsumeToken_okay])
      (auto simp: consumed_def after_def kept_def stepped_def)
  have e: "okay (\<lambda>(failed, P'). stepped n P (if failed then UndefinedValue else Usable v, P'))
      (andThen (SetError t m Q :: (unit ValueResult \<times> parser) result) (\<lambda>(_, P). Inr (True, P)))"
    if "good n Q" "Kind (Tok Q) \<notin> eof_kinds" "budget n Q = budget n P" "m \<noteq> []" "HasError Q = HasError P" for Q t m
    using that by (intro okay_andThen [OF SetError_error [of n Q]])
      (auto simp: after_def kept_def stepped_def)
  show ?thesis
    using g k unfolding ParseLiteralImpl_def Let_def
    by (intro okay_check okay_andThen [OF literal_loop_okay]) (auto intro!: c e split: option.split)
qed


section \<open>The recursive descent\<close>

fun rank :: "'f call \<Rightarrow> nat" where
  "rank (CallExpr t) = 4"
| "rank (CallDatum t) = 2"
| "rank (CallExprAbbrev t s) = 1"
| "rank CallListStart = 1"
| "rank (CallListBody t) = 6"
| "rank (CallSkipComments t) = 1"
| "rank (CallList t) = 5"
| "rank (CallDottedCdr t) = 1"
| "rank (CallNeotericExpr t) = 3"
| "rank (CallNeotericSuffix v) = 1"
| "rank CallCurlyInfixListStart = 1"
| "rank (CallCurlyInfixList t) = 6"
| "rank (CallVectorStart b) = 1"
| "rank (CallVector t Xs b) = 5"

text \<open>The calls that start with a token of their own, and those that are made on it.\<close>

fun starts :: "'f call \<Rightarrow> bool" where
  "starts (CallListBody t) = False"
| "starts (CallSkipComments t) = False"
| "starts (CallList t) = False"
| "starts (CallNeotericSuffix v) = False"
| "starts (CallCurlyInfixList t) = False"
| "starts (CallVector t Xs b) = False"
| "starts _ = True"

fun made_on :: "'f call \<Rightarrow> parser \<Rightarrow> bool" where
  "made_on (CallExprAbbrev t s) P \<longleftrightarrow> Kind (Tok P) \<notin> eof_kinds"
| "made_on (CallVectorStart b) P \<longleftrightarrow> Kind (Tok P) \<notin> eof_kinds"
| "made_on _ P \<longleftrightarrow> True"

definition promise :: "nat \<Rightarrow> 'f call \<Rightarrow> parser \<Rightarrow> 'f ValueResult \<times> parser \<Rightarrow> bool" where
  "promise n c P x \<longleftrightarrow> kept n P x \<and> (starts c \<longrightarrow> stepped n P x)"

definition self_ok :: "nat \<Rightarrow> nat \<Rightarrow> 'f self \<Rightarrow> bool" where
  "self_ok n m self \<longleftrightarrow> (\<forall>c P. good n P \<and> made_on c P \<and> 7 * budget n P + rank c \<le> m \<longrightarrow>
     okay (promise n c P) (self c P))"

lemma self_okD:
  "self_ok n m self \<Longrightarrow> good n P \<Longrightarrow> made_on c P \<Longrightarrow> 7 * budget n P + rank c \<le> m \<Longrightarrow>
    okay (promise n c P) (self c P)"
  by (simp add: self_ok_def)

lemmas promise_simps = promise_def stepped_def kept_def consumed_def after_def

text \<open>
  The shape of a body is taken apart by these rules, one for every kind of call; what remains is
  arithmetic on the budget.
\<close>

lemma okay_andThen_if:
  "okay R (if b then andThen x f else andThen y f) \<Longrightarrow> okay R (andThen (if b then x else y) f)"
  by (cases b) auto

lemma promise_ConsumeToken:
  "good n P' \<Longrightarrow> (\<And>x. consumed n P' x \<Longrightarrow> okay (promise n c P) (f x)) \<Longrightarrow>
    okay (promise n c P) (andThen (ConsumeToken P') f)"
  by (rule okay_andThen [OF ConsumeToken_okay])

lemma promise_SetError:
  "good n P' \<Longrightarrow> Msg \<noteq> [] \<Longrightarrow> (\<And>x. kept n P' x \<Longrightarrow> promise n c P x) \<Longrightarrow>
    okay (promise n c P) (SetError t Msg P')"
  by (rule okay_mono [OF SetError_kept])

lemma promise_self:
  "self_ok n m self \<Longrightarrow> good n P' \<Longrightarrow> made_on c' P' \<Longrightarrow> 7 * budget n P' + rank c' \<le> m \<Longrightarrow>
    (\<And>x. promise n c' P' x \<Longrightarrow> okay (promise n c P) (f x)) \<Longrightarrow>
    okay (promise n c P) (andThen (self c' P') f)"
  by (rule okay_andThen [OF self_okD])

lemma promise_tail:
  "self_ok n m self \<Longrightarrow> good n P' \<Longrightarrow> made_on c' P' \<Longrightarrow> 7 * budget n P' + rank c' \<le> m \<Longrightarrow>
    (\<And>x. promise n c' P' x \<Longrightarrow> promise n c P x) \<Longrightarrow> okay (promise n c P) (self c' P')"
  by (rule okay_mono [OF self_okD])

lemmas okay_structure = okay_if okay_prod okay_get_value okay_andThen_if okay_check
  promise_ConsumeToken promise_SetError

lemma not_eof_kinds [simp]:
  "tok_l_paren \<notin> eof_kinds" "tok_l_brace \<notin> eof_kinds" "tok_l_square \<notin> eof_kinds"
  "tok_r_paren \<notin> eof_kinds" "tok_r_brace \<notin> eof_kinds" "tok_r_square \<notin> eof_kinds"
  "tok_period \<notin> eof_kinds" "tok_comment_datum \<notin> eof_kinds" "tok_vector_lparen \<notin> eof_kinds"
  "tok_bytevector_lparen \<notin> eof_kinds" "tok_numeric_constant \<notin> eof_kinds"
  "tok_identifier \<notin> eof_kinds" "tok_relaxed_identifier \<notin> eof_kinds"
  "tok_extern_name \<notin> eof_kinds" "tok_char_constant \<notin> eof_kinds" "tok_true \<notin> eof_kinds"
  "tok_false \<notin> eof_kinds" "tok_string_literal \<notin> eof_kinds" "tok_symbol_literal \<notin> eof_kinds"
  "tok_quote \<notin> eof_kinds" "tok_quasiquote \<notin> eof_kinds" "tok_unquote \<notin> eof_kinds"
  "tok_unquote_splicing \<notin> eof_kinds" "tok_parser_directive \<notin> eof_kinds" "tok_unknown \<notin> eof_kinds"
  by (simp_all add: eof_kinds_def)

lemma ParseExpr_okay:
  assumes ok: "self_ok n m self" and "good n P" and "7 * budget n P + rank (CallExpr t) \<le> Suc m"
  shows "okay (promise n (CallExpr t) P) (ParseExpr self t P)"
  using assms(2-) unfolding ParseExpr_def Let_def
  by (intro okay_structure promise_self [OF ok] promise_tail [OF ok]) (auto simp: promise_simps)

lemma ParseExprAbbrev_okay:
  assumes ok: "self_ok n m self" and "good n P" and "7 * budget n P + rank (CallExprAbbrev t s) \<le> Suc m" and "made_on (CallExprAbbrev t s) P"
  shows "okay (promise n (CallExprAbbrev t s) P) (ParseExprAbbrev self t s P)"
  using assms(2-) unfolding ParseExprAbbrev_def Let_def
  by (intro okay_structure promise_self [OF ok] promise_tail [OF ok]) (auto simp: promise_simps)

lemma ParseListStart_okay:
  assumes ok: "self_ok n m self" and "good n P" and "7 * budget n P + rank CallListStart \<le> Suc m"
  shows "okay (promise n CallListStart P) (ParseListStart self P)"
  using assms(2-) unfolding ParseListStart_def Let_def
  by (intro okay_structure promise_self [OF ok] promise_tail [OF ok]) (auto simp: promise_simps)

lemma ParseListBody_okay:
  assumes ok: "self_ok n m self" and "good n P" and "7 * budget n P + rank (CallListBody t) \<le> Suc m"
  shows "okay (promise n (CallListBody t) P) (ParseListBody self t P)"
  using assms(2-) unfolding ParseListBody_def Let_def
  by (intro okay_structure promise_self [OF ok] promise_tail [OF ok]) (auto simp: promise_simps)

lemma skip_datum_comments_okay:
  assumes ok: "self_ok n m self" and "good n P" and "7 * budget n P + rank (CallSkipComments t) \<le> Suc m"
  shows "okay (promise n (CallSkipComments t) P) (skip_datum_comments self t P)"
  using assms(2-) unfolding skip_datum_comments_def Let_def
  by (intro okay_structure promise_self [OF ok] promise_tail [OF ok]) (auto simp: promise_simps)

lemma ParseList_okay:
  assumes ok: "self_ok n m self" and "good n P" and "7 * budget n P + rank (CallList t) \<le> Suc m"
  shows "okay (promise n (CallList t) P) (ParseList self t P)"
  using assms(2-) unfolding ParseList_def Let_def
  by (intro okay_structure promise_self [OF ok] promise_tail [OF ok]) (auto simp: promise_simps)

lemma ParseDottedCdr_okay:
  assumes ok: "self_ok n m self" and "good n P" and "7 * budget n P + rank (CallDottedCdr t) \<le> Suc m"
  shows "okay (promise n (CallDottedCdr t) P) (ParseDottedCdr self t P)"
  using assms(2-) unfolding ParseDottedCdr_def Let_def
  by (intro okay_structure promise_self [OF ok] promise_tail [OF ok]) (auto simp: promise_simps)

lemma ParseNeotericExpr_okay:
  assumes ok: "self_ok n m self" and "good n P" and "7 * budget n P + rank (CallNeotericExpr t) \<le> Suc m"
  shows "okay (promise n (CallNeotericExpr t) P) (ParseNeotericExpr self t P)"
  using assms(2-) unfolding ParseNeotericExpr_def Let_def
  by (intro okay_structure promise_self [OF ok] promise_tail [OF ok]) (auto simp: promise_simps)

lemma ParseNeotericSuffix_okay:
  assumes ok: "self_ok n m self" and "good n P" and "7 * budget n P + rank (CallNeotericSuffix v) \<le> Suc m"
  shows "okay (promise n (CallNeotericSuffix v) P) (ParseNeotericSuffix self v P)"
  using assms(2-) unfolding ParseNeotericSuffix_def Let_def
  by (cases "Kind (Tok P)"; simp only: TokenKind.case; intro okay_structure promise_self [OF ok] promise_tail [OF ok]) (auto simp: promise_simps)

lemma ParseCurlyInfixListStart_okay:
  assumes ok: "self_ok n m self" and "good n P" and "7 * budget n P + rank CallCurlyInfixListStart \<le> Suc m"
  shows "okay (promise n CallCurlyInfixListStart P) (ParseCurlyInfixListStart self P)"
  using assms(2-) unfolding ParseCurlyInfixListStart_def Let_def
  by (intro okay_structure promise_self [OF ok] promise_tail [OF ok]) (auto simp: promise_simps)

lemma ParseVectorStart_okay:
  assumes ok: "self_ok n m self" and "good n P" and "7 * budget n P + rank (CallVectorStart b) \<le> Suc m" and "made_on (CallVectorStart b) P"
  shows "okay (promise n (CallVectorStart b) P) (ParseVectorStart self b P)"
  using assms(2-) unfolding ParseVectorStart_def Let_def
  by (intro okay_structure promise_self [OF ok] promise_tail [OF ok]) (auto simp: promise_simps)

lemma ParseVector_okay:
  assumes ok: "self_ok n m self" and "good n P" and "7 * budget n P + rank (CallVector t Xs b) \<le> Suc m"
  shows "okay (promise n (CallVector t Xs b) P) (ParseVector self t Xs b P)"
  using assms(2-) unfolding ParseVector_def Let_def
  by (intro okay_structure promise_self [OF ok] promise_tail [OF ok]) (auto simp: promise_simps)

lemma value_equal_okay: "okay (\<lambda>_. True) (value_equal F v w)"
  by (induction F v w rule: value_equal.induct)
    (auto split: Value.split intro!: okay_andThen)

lemma simple_loop_okay: "okay (\<lambda>_. True) (simple_loop F Xs I)"
proof (induction F Xs I rule: simple_loop.induct)
  case (1 F Xs I)
  show ?case
    by (subst simple_loop.simps, intro okay_if okay_andThen [OF value_equal_okay])
      (use "1.IH" in simp_all)
qed

lemma MapCurlyInfixList_okay: "okay (\<lambda>_. True) (MapCurlyInfixList F v L)"
  unfolding MapCurlyInfixList_def Let_def
  by (intro okay_if okay_andThen_if okay_andThen [OF simple_loop_okay]) auto

lemma ParseCurlyInfixList_okay:
  assumes ok: "self_ok n m self" and "good n P" and "7 * budget n P + rank (CallCurlyInfixList t) \<le> Suc m"
  shows "okay (promise n (CallCurlyInfixList t) P) (ParseCurlyInfixList F self t P)"
  using assms(2-) unfolding ParseCurlyInfixList_def Let_def
  by (intro okay_structure okay_andThen [OF MapCurlyInfixList_okay] promise_self [OF ok])
    (auto simp: promise_simps)

lemma ParseLiteral_stepped:
  assumes "good n P" "Kind (Tok P) \<notin> eof_kinds"
  shows "okay (stepped n P) (ParseString P)" "okay (stepped n P) (ParseEscapedSymbol P)"
  unfolding ParseString_def ParseEscapedSymbol_def
  by (rule okay_andThen [OF ParseLiteralImpl_okay [OF assms, of VEmpty]],
      auto simp: stepped_def kept_def)+

lemma ParseSymbol_stepped:
  assumes "good n P" "Kind (Tok P) \<notin> eof_kinds"
  shows "okay (stepped n P) (ParseSymbol P)" "okay (stepped n P) (ParseExternName P)"
  unfolding ParseSymbol_def ParseExternName_def Let_def
  by (rule ConsumeToken_stepped [OF assms])+

lemma ParseCharConstant_stepped:
  assumes "good n P" "Kind (Tok P) \<notin> eof_kinds"
  shows "okay (stepped n P) (ParseCharConstant P)"
  unfolding ParseCharConstant_def
  by (intro okay_check okay_andThen [OF char_constant_okay])
    (auto intro!: SetError_stepped assms ConsumeToken_stepped [OF assms] split: sum.split simp: assms)

lemma promise_stepped: "okay (stepped n P) m \<Longrightarrow> okay (promise n c P) m"
  by (erule okay_mono) (auto simp: promise_def stepped_def)

lemma ParseDatum_okay:
  assumes ok: "self_ok n m self" and "good n P" and "7 * budget n P + rank (CallDatum t) \<le> Suc m"
  shows "okay (promise n (CallDatum t) P) (ParseDatum F self t P)"
proof -
  have comment: "okay (promise n (CallDatum t) P) (andThen (ConsumeToken P) (\<lambda>P.
          andThen (self (CallExpr t) P) (\<lambda>(_, P).
          if Kind (Tok P) = tok_eof \<or> Kind (Tok P) = Terminator P then Inr (NoValue, P)
          else self (CallExpr t) P)))" if "Kind (Tok P) = tok_comment_datum"
    using assms(2-) that
    by (intro okay_structure promise_self [OF ok] promise_tail [OF ok]) (auto simp: promise_simps)
  note leaf = promise_stepped [OF ParseNumber_okay] promise_stepped [OF ParseSymbol_stepped(1)]
    promise_stepped [OF ParseSymbol_stepped(2)] promise_stepped [OF ParseCharConstant_stepped]
    promise_stepped [OF ParseLiteral_stepped(1)] promise_stepped [OF ParseLiteral_stepped(2)]
    promise_stepped [OF ConsumeToken_stepped]
  have err: "okay (promise n (CallDatum t) P) (SetError x msg P)"
    if "msg \<noteq> []" "Kind (Tok P) \<notin> eof_kinds \<or> Kind (Tok P) = tok_eof" for x msg
    using that assms(2) by (intro promise_stepped [OF SetError_stepped]) auto
  have call: "okay (promise n (CallDatum t) P) (self c P')"
    if "good n P'" "made_on c P'" "budget n P' = budget n P" "rank c = 1" "starts c"
       "HasError P' = HasError P" for c P'
    using that assms(3) by (intro promise_tail [OF ok]) (auto simp: promise_simps)
  have eof: "okay (promise n (CallDatum t) P) (SetError x msg (P\<lparr>IsFinished := True\<rparr>))" if "msg \<noteq> []" for x msg
  proof -
    have "okay (stepped n (P\<lparr>IsFinished := True\<rparr>)) (SetError x msg (P\<lparr>IsFinished := True\<rparr>))"
      using assms(2) that by (intro SetError_stepped) simp_all
    then show ?thesis by (rule okay_mono) (auto simp: promise_simps)
  qed
  show ?thesis
    using assms(2)
    by (cases "Kind (Tok P)") (simp_all add: ParseDatum_def Let_def leaf err call eof comment)
qed

lemma parse_okay:
  "good n P \<Longrightarrow> made_on c P \<Longrightarrow> 7 * budget n P + rank c \<le> k \<Longrightarrow> okay (promise n c P) (parse F k c P)"
proof (induction k arbitrary: c P)
  case 0
  have "0 < rank c" by (cases c) simp_all
  with 0 show ?case by simp
next
  case (Suc k)
  have ok: "self_ok n k (parse F k)" using Suc.IH by (simp add: self_ok_def)
  show ?case
    using Suc.prems
    by (cases c; simp only: parse.simps call.case)
      (erule (1) ParseExpr_okay [OF ok] ParseDatum_okay [OF ok] ParseExprAbbrev_okay [OF ok]
        ParseListStart_okay [OF ok] ParseListBody_okay [OF ok] skip_datum_comments_okay [OF ok]
        ParseList_okay [OF ok] ParseDottedCdr_okay [OF ok] ParseNeotericExpr_okay [OF ok]
        ParseNeotericSuffix_okay [OF ok] ParseCurlyInfixListStart_okay [OF ok]
        ParseCurlyInfixList_okay [OF ok] ParseVectorStart_okay [OF ok] ParseVector_okay [OF ok]; simp)+
qed
section \<open>The interface\<close>

lemma LexToken_okay:
  assumes "lexer_ok n (TheLexer P)"
  shows "okay (\<lambda>P'. good n P' \<and> (HasError P \<longrightarrow> HasError P')
    \<and> budget n P' \<le> n - BufferPtr (TheLexer P) + 1) (LexToken P)"
proof -
  have "n - BufferPtr (TheLexer P) < length (Buffer (TheLexer P)) + 1"
    using assms by (auto simp: lexer_ok_def well_terminated_def)
  from lex_directives_okay [OF assms this] show ?thesis
    unfolding LexToken_def by (rule okay_mono) (auto simp: budget_def)
qed

lemma TryConsumeToken_okay:
  assumes "good n P" "m \<noteq> []"
  shows "okay (\<lambda>x. after n P (snd x)) (TryConsumeToken K m P)"
  unfolding TryConsumeToken_def using assms
  by (intro okay_if okay_andThen [OF SetError_kept] okay_andThen [OF ConsumeToken_okay])
    (auto simp: kept_def consumed_def)

lemma PrimeToken_okay:
  assumes "lexer_ok n (TheLexer P)"
  shows "okay (\<lambda>x. good n (snd x) \<and> budget n (snd x) \<le> n - BufferPtr (TheLexer P) + 1) (PrimeToken Term P)"
proof -
  have attempt: "okay (\<lambda>x. good n (snd x) \<and> budget n (snd x) \<le> N) (TryConsumeToken K m Q)"
    if "good n Q" "budget n Q \<le> N" "m \<noteq> []" for N K m Q
    by (rule okay_mono [OF TryConsumeToken_okay]) (use that in \<open>auto simp: after_def\<close>)
  show ?thesis
    unfolding PrimeToken_def Let_def
    by (rule okay_andThen [OF LexToken_okay [OF assms]]) (intro okay_if attempt, auto)
qed

lemma okay_iff:
  "okay Q m \<longleftrightarrow> m \<noteq> Inl OutOfFuel \<and> m \<noteq> Inl BufferOverread \<and> (\<forall>x. m = Inr x \<longrightarrow> Q x)"
  by (cases m) (auto simp: okay_def)

lemma Parse_okay:
  assumes "lexer_ok n L" "7 * (n - BufferPtr L) + 12 \<le> k"
  shows "okay (\<lambda>(r, P). IsFinished P \<and> good n P \<and> (r = UndefinedValue \<longrightarrow> HasError P)) (Parse F k Term (new_parser L))"
proof -
  have c: "CheckTerminator (new_parser L) = (False, new_parser L)"
    by (simp add: CheckTerminator_def new_parser_def default_token_def)
  have l: "TheLexer (new_parser L) = L" by (simp add: new_parser_def)
  show ?thesis
    unfolding Parse_def c prod.case Let_def if_False
    using assms PrimeToken_okay [of n "new_parser L" Term]
    by (intro okay_andThen [OF PrimeToken_okay [of n]] okay_prod okay_andThen [OF parse_okay [of n]])
      (auto simp: l promise_simps)
qed

lemma ParseTopLevelExpr_okay:
  assumes "good n P" "7 * budget n P + 4 \<le> k"
  shows "okay (\<lambda>(r, P'). after n P P' \<and> (r = UndefinedValue \<longrightarrow> HasError P')
    \<and> (IsFinished P' \<or> budget n P' < budget n P)) (ParseTopLevelExpr F k P)"
proof -
  have g: "good n (snd (CheckTerminator P))" "budget n (snd (CheckTerminator P)) = budget n P"
    "HasError (snd (CheckTerminator P)) = HasError P"
    "fst (CheckTerminator P) = IsFinished (snd (CheckTerminator P))"
    using assms by (auto simp: CheckTerminator_def Let_def)
  show ?thesis
    unfolding ParseTopLevelExpr_def Let_def using g assms
    by (intro okay_prod okay_if okay_mono [OF parse_okay [of n]]) (auto simp: promise_simps)
qed

text \<open>
  The loop of \<open>SchirScheme::ParseTopLevelCommands\<close> that finishes parsing after an error.
\<close>

primrec finish_parsing :: "'f float_ops \<Rightarrow> nat \<Rightarrow> nat \<Rightarrow> parser \<Rightarrow> parser result" where
  "finish_parsing F fuel 0 P = Inl OutOfFuel"
| "finish_parsing F fuel (Suc k) P =
     (if \<not> IsFinished P
      then andThen (ParseTopLevelExpr F fuel P) (\<lambda>(_, P). finish_parsing F fuel k P)
      else Inr P)"

lemma finish_parsing_okay:
  "good n P \<Longrightarrow> 7 * budget n P + 4 \<le> fuel \<Longrightarrow> budget n P + 1 < k \<Longrightarrow>
    okay (\<lambda>P'. IsFinished P' \<and> after n P P') (finish_parsing F fuel k P)"
proof (induction k arbitrary: P)
  case (Suc k)
  show ?case
  proof (cases "IsFinished P")
    case False
    have "okay (\<lambda>P'. IsFinished P' \<and> after n P P')
        (andThen (ParseTopLevelExpr F fuel P) (\<lambda>(_, P). finish_parsing F fuel k P))"
    proof (rule okay_andThen [OF ParseTopLevelExpr_okay [OF Suc.prems(1,2)]])
      fix x assume x: "case x of (r, P') \<Rightarrow> after n P P' \<and> (r = UndefinedValue \<longrightarrow> HasError P')
        \<and> (IsFinished P' \<or> budget n P' < budget n P)"
      obtain r P' where p: "x = (r, P')" by (cases x)
      show "okay (\<lambda>P'. IsFinished P' \<and> after n P P') (case x of (_, P) \<Rightarrow> finish_parsing F fuel k P)"
      proof (cases "IsFinished P'")
        case True
        then show ?thesis using x p Suc.prems(3) by (cases k) auto
      next
        case False
        then have "okay (\<lambda>P''. IsFinished P'' \<and> after n P' P'') (finish_parsing F fuel k P')"
          using x p Suc.prems by (intro Suc.IH) (auto simp: after_def)
        then show ?thesis using x p by (auto elim!: okay_mono intro: after_trans)
      qed
    qed
    then show ?thesis using False by simp
  qed (use Suc.prems in \<open>simp add: after_refl\<close>)
qed simp




end
