(* ===== verification/WsFrame.thy ===== *)
theory WsFrame
  imports Prelude Result
begin

text \<open>
  WebSocket frames (\<open>nbdl/include/nbdl/websocket/detail/message_reader.hpp\<close>, \<open>message_sender.hpp\<close>).
  A socket is the sequence of bytes it will deliver; a read of more bytes than are left transfers
  these and completes with an error code. A promise that rejects with an error code is \<open>None\<close>, one that resolves is \<open>Some\<close> of
  the frame context and the bytes that are left.
\<close>

section \<open>The reader\<close>

type_synonym bytes = "u8 list"

datatype read_event = message_t | close_t | bad_input_t | ping_t | pong_t | error_code_t

record frame_context_t =
  buf_1 :: bytes
  extended_length_buf :: bytes
  mask_key :: bytes
  payload :: bytes

text \<open>\<open>buf_1\<close> is zero at first; the other two arrays are uninitialized, for any \<open>e\<close> and \<open>k\<close>.\<close>

definition new_frame_context :: "bytes \<Rightarrow> bytes \<Rightarrow> frame_context_t" where
  "new_frame_context e k = \<lparr>buf_1 = [0, 0], extended_length_buf = e, mask_key = k, payload = []\<rparr>"

type_synonym conn = "frame_context_t \<times> bytes"

definition async_read :: "nat \<Rightarrow> bytes \<Rightarrow> (bytes \<times> bytes) option" where
  "async_read n socket = (if n \<le> length socket then Some (take n socket, drop n socket) else None)"

text \<open>Reading into the front of an array.\<close>

definition into :: "bytes \<Rightarrow> bytes \<Rightarrow> bytes" where
  "into buf bs = bs @ drop (length bs) buf"

definition has_mask_key :: "frame_context_t \<Rightarrow> bool" where
  "has_mask_key ctx \<longleftrightarrow> drop_bit 7 (buf_1 ctx ! 1) \<noteq> 0"

definition has_fin_bit :: "frame_context_t \<Rightarrow> bool" where
  "has_fin_bit ctx \<longleftrightarrow> drop_bit 7 (buf_1 ctx ! 0) \<noteq> 0"

definition length_code :: "frame_context_t \<Rightarrow> u8" where
  "length_code ctx = buf_1 ctx ! 1 AND 0x7F"

definition read_frame_header :: "conn \<Rightarrow> conn option" where
  "read_frame_header st = (case st of (ctx, socket) \<Rightarrow> do {
     (bs, rest) \<leftarrow> async_read 2 socket;
     Some (ctx\<lparr>buf_1 := bs\<rparr>, rest) })"

definition read_extended_length :: "conn \<Rightarrow> conn option" where
  "read_extended_length st = (case st of (ctx, socket) \<Rightarrow>
     if length_code ctx = 126 then do {
       (bs, rest) \<leftarrow> async_read 2 socket;
       Some (ctx\<lparr>extended_length_buf := into (extended_length_buf ctx) bs\<rparr>, rest) }
     else if length_code ctx = 127 then do {
       (bs, rest) \<leftarrow> async_read 8 socket;
       Some (ctx\<lparr>extended_length_buf := into (extended_length_buf ctx) bs\<rparr>, rest) }
     else Some (ctx, socket))"

definition read_masking_key :: "conn \<Rightarrow> conn option" where
  "read_masking_key st = (case st of (ctx, socket) \<Rightarrow>
     if has_mask_key ctx then do {
       (bs, rest) \<leftarrow> async_read 4 socket;
       Some (ctx\<lparr>mask_key := into (mask_key ctx) bs\<rparr>, rest) }
     else Some (ctx, socket))"

text \<open>
  \<open>buf[k] << (8 * i)\<close>: the byte is promoted to an \<open>int\<close>, so the shift is on 32 bits, and the result is
  sign extended to the \<open>uint64_t\<close> it is combined with.
\<close>

definition shifted :: "u8 \<Rightarrow> nat \<Rightarrow> u64 result" where
  "shifted c n = (if n < 32 then Inr (scast (push_bit n (ucast c :: i32))) else Inl InvalidShift)"

definition length_loop :: "frame_context_t \<Rightarrow> nat \<Rightarrow> u64 result" where
  "length_loop x n = fold (\<lambda>i acc. andThen acc (\<lambda>len. andThen (shifted (extended_length_buf x ! (n - 1 - i)) (8 * i))
     (\<lambda>b. Inr (len OR b)))) [0..<n] (Inr 0)"

definition get_payload_length :: "frame_context_t \<Rightarrow> u64 result" where
  "get_payload_length x =
     (if length_code x = 126 then length_loop x 2
      else if length_code x = 127 then length_loop x 8
      else Inr (ucast (length_code x)))"

text \<open>The first \<open>n\<close> bytes of the payload are unmasked.\<close>

definition unmask :: "frame_context_t \<Rightarrow> nat \<Rightarrow> frame_context_t" where
  "unmask ctx n = ctx\<lparr>payload :=
     fold (\<lambda>i p. p[i := p ! i XOR mask_key ctx ! (i mod 4)]) [0..<n] (payload ctx)\<rparr>"

definition read_payload :: "conn \<Rightarrow> (read_event \<times> conn) result" where
  "read_payload st = (case st of (ctx, socket) \<Rightarrow> andThen (get_payload_length ctx) (\<lambda>len.
     case async_read (unat len) socket of
       None \<Rightarrow> Inr (error_code_t, ctx\<lparr>payload := payload ctx @ into (replicate (unat len) 0) socket\<rparr>, [])
     | Some (bs, rest) \<Rightarrow>
         let ctx = ctx\<lparr>payload := payload ctx @ bs\<rparr>;
             ctx = (if has_mask_key ctx then unmask ctx (unat len) else ctx)
         in Inr (message_t, ctx, rest)))"

definition read_close_payload :: "conn \<Rightarrow> (read_event \<times> conn) result" where
  "read_close_payload st = (case st of (ctx, socket) \<Rightarrow> andThen (get_payload_length ctx) (\<lambda>len.
     case async_read (unat len) socket of
       None \<Rightarrow> Inr (error_code_t,
         ctx\<lparr>payload := into (take (unat len) (payload ctx @ replicate (unat len) 0)) socket\<rparr>, [])
     | Some (bs, rest) \<Rightarrow>
         let ctx = ctx\<lparr>payload := bs\<rparr>;
             ctx = (if has_mask_key ctx then unmask ctx (unat len) else ctx)
         in Inr (close_t, ctx, rest)))"

definition opcode_dispatch :: "conn \<Rightarrow> (read_event \<times> conn) result" where
  "opcode_dispatch st = (let opcode = buf_1 (fst st) ! 0 AND 0x0F in
     if opcode = 0x0 \<or> opcode = 0x1 \<or> opcode = 0x2 then read_payload st
     else if opcode = 0x8 then read_close_payload st
     else if opcode = 0x9 then Inr (ping_t, st)
     else if opcode = 0xA then Inr (pong_t, st)
     else Inr (bad_input_t, st))"

text \<open>One round of the promises of \<open>keep_reading\<close>.\<close>

definition read_frame :: "conn \<Rightarrow> (read_event \<times> conn) result" where
  "read_frame st = (case do {
       st \<leftarrow> read_frame_header st;
       st \<leftarrow> read_extended_length st;
       read_masking_key st } of
     None \<Rightarrow> Inr (error_code_t, st)
   | Some st \<Rightarrow> opcode_dispatch st)"

lemma async_read_Some: "async_read n s = Some (bs, rest) \<longleftrightarrow> s = bs @ rest \<and> length bs = n"
  by (auto simp: async_read_def)

lemma dispatch_consumes:
  "opcode_dispatch (ctx, s) = Inr (ev, ctx', rest) \<Longrightarrow> ev = error_code_t \<or> length rest \<le> length s"
proof -
  have "read_payload (ctx, s) = Inr (ev, ctx', rest) \<Longrightarrow> ev = error_code_t \<or> length rest \<le> length s"
    "read_close_payload (ctx, s) = Inr (ev, ctx', rest) \<Longrightarrow> ev = error_code_t \<or> length rest \<le> length s"
    by (auto simp: read_payload_def read_close_payload_def async_read_def andThen_Inr Let_def split: if_splits)
  then show "opcode_dispatch (ctx, s) = Inr (ev, ctx', rest) \<Longrightarrow> ?thesis"
    by (auto simp: opcode_dispatch_def Let_def split: if_splits)
qed

lemma prefix_consumes:
  "read_frame_header (ctx, s) = Some (ctx', rest) \<Longrightarrow> length rest < length s"
  "read_extended_length (ctx, s) = Some (ctx', rest) \<Longrightarrow> length rest \<le> length s"
  "read_masking_key (ctx, s) = Some (ctx', rest) \<Longrightarrow> length rest \<le> length s"
  by (auto simp: read_frame_header_def read_extended_length_def read_masking_key_def async_read_def
      split: if_splits)

lemma read_frame_consumes:
  "read_frame (ctx, s) = Inr (ev, ctx', rest) \<Longrightarrow> ev = error_code_t \<or> length rest < length s"
  by (fastforce simp: read_frame_def split: option.splits bind_splits
      dest: dispatch_consumes prefix_consumes)

declare andThen_cong [fundef_cong]

text \<open>
  The loop of \<open>message_reader::keep_reading\<close>, as the calls of its handler with the payload of the
  context. An event that is rejected ends the loop.
\<close>

function keep_reading :: "frame_context_t \<Rightarrow> bytes \<Rightarrow> (read_event \<times> bytes) list result" where
  "keep_reading ctx socket = andThen (read_frame (ctx, socket)) (\<lambda>(ev, ctx', rest).
     if ev = message_t then
       if has_fin_bit ctx'
       then andThen (keep_reading (ctx'\<lparr>payload := []\<rparr>) rest) (\<lambda>es. Inr ((ev, payload ctx') # es))
       else keep_reading ctx' rest
     else if ev = ping_t \<or> ev = pong_t
       then andThen (keep_reading ctx' rest) (\<lambda>es. Inr ((ev, payload ctx') # es))
     else Inr [(ev, payload ctx')])"
  by auto

termination keep_reading
  by (relation "measure (\<lambda>(ctx, s). length s)") (auto dest: read_frame_consumes)

declare keep_reading.simps [simp del]

section \<open>The sender\<close>

datatype opcode_kind = continuation | text_frame | binary | close | ping | pong

definition opcode_value :: "opcode_kind \<Rightarrow> u8" where
  "opcode_value k = (case k of continuation \<Rightarrow> 0x0 | text_frame \<Rightarrow> 0x1 | binary \<Rightarrow> 0x2
     | close \<Rightarrow> 0x8 | ping \<Rightarrow> 0x9 | pong \<Rightarrow> 0xA)"

record message_data =
  header_byte :: u8
  length_data :: bytes
  message_payload :: bytes

definition max_frame_size :: nat where
  "max_frame_size = 125"

definition set_opcode :: "u8 \<Rightarrow> message_data \<Rightarrow> message_data" where
  "set_opcode x d = d\<lparr>header_byte := x\<rparr>"

definition apply_fin_bit :: "message_data \<Rightarrow> message_data" where
  "apply_fin_bit d = d\<lparr>header_byte := header_byte d OR push_bit 7 1\<rparr>"

definition encoded_length_buffer :: "u64 \<Rightarrow> message_data \<Rightarrow> message_data \<times> bytes" where
  "encoded_length_buffer len d =
     (let bs = (if len < 126 then [ucast len]
                else if len < 65536 then [126, ucast (drop_bit 8 len), ucast len]
                else [127, ucast (drop_bit 56 len), ucast (drop_bit 48 len), ucast (drop_bit 40 len),
                  ucast (drop_bit 32 len), ucast (drop_bit 24 len), ucast (drop_bit 16 len),
                  ucast (drop_bit 8 len), ucast len])
      in (d\<lparr>length_data := into (length_data d) bs\<rparr>, bs))"

definition send_frame_impl :: "bytes \<Rightarrow> message_data \<Rightarrow> message_data \<times> bytes" where
  "send_frame_impl frame_payload_buffer d =
     (case encoded_length_buffer (of_nat (length frame_payload_buffer)) d of (d, len) \<Rightarrow>
        (d, header_byte d # len @ frame_payload_buffer))"

text \<open>
  \<open>ok n\<close> says whether the write of frame \<open>n\<close> succeeds; the result says whether the promise was
  resolved, and gives the state of the sender and the bytes of the frames that were written.
\<close>

definition fragment_end :: "message_data \<Rightarrow> nat \<Rightarrow> nat" where
  "fragment_end d begin_pos = (let end_pos = length (message_payload d); frag_end = begin_pos + max_frame_size in
     if frag_end > end_pos then end_pos else frag_end)"

definition mark_last :: "message_data \<Rightarrow> nat \<Rightarrow> message_data" where
  "mark_last d begin_pos = (if begin_pos + max_frame_size > length (message_payload d) then apply_fin_bit d else d)"

definition fragment :: "message_data \<Rightarrow> nat \<Rightarrow> message_data \<times> bytes" where
  "fragment d begin_pos = send_frame_impl (drop begin_pos (take (fragment_end d begin_pos) (message_payload d)))
     (mark_last d begin_pos)"

lemma fragment_payload: "message_payload (fst (fragment d b)) = message_payload d"
  by (simp add: fragment_def send_frame_impl_def encoded_length_buffer_def Let_def mark_last_def apply_fin_bit_def)

function send_message_impl :: "(nat \<Rightarrow> bool) \<Rightarrow> nat \<Rightarrow> message_data \<Rightarrow> nat \<Rightarrow> bool \<times> message_data \<times> bytes" where
  "send_message_impl ok n d begin_pos =
     (if \<not> ok n then (False, fst (fragment d begin_pos), [])
      else if fragment_end d begin_pos = length (message_payload d)
      then (True, fst (fragment d begin_pos), snd (fragment d begin_pos))
      else (case send_message_impl ok (n + 1)
          (set_opcode (opcode_value continuation) (fst (fragment d begin_pos))) (fragment_end d begin_pos) of
        (resolved, d', wire) \<Rightarrow> (resolved, d', snd (fragment d begin_pos) @ wire)))"
  by auto

termination send_message_impl
  by (relation "measure (\<lambda>(ok, n, d, b). length (message_payload d) - b)")
     (auto simp: fragment_end_def set_opcode_def fragment_payload max_frame_size_def Let_def split: if_splits)

declare send_message_impl.simps [simp del]

definition send_impl :: "opcode_kind \<Rightarrow> (nat \<Rightarrow> bool) \<Rightarrow> message_data \<Rightarrow> bool \<times> message_data \<times> bytes" where
  "send_impl k ok d = send_message_impl ok 0 (set_opcode (opcode_value k) d) 0"

text \<open>The messages of a queue, sent one after another through the same sender.\<close>

fun send_all :: "opcode_kind \<Rightarrow> message_data \<Rightarrow> bytes list \<Rightarrow> bytes" where
  "send_all k d [] = []"
| "send_all k d (m # ms) = (case send_impl k (\<lambda>_. True) (d\<lparr>message_payload := m\<rparr>) of
     (_, d', wire) \<Rightarrow> wire @ send_all k d' ms)"

section \<open>Frames\<close>

text \<open>The frame format of RFC 6455 for payloads of less than 65536 bytes.\<close>

definition masked :: "bytes \<Rightarrow> bytes \<Rightarrow> bytes" where
  "masked key p = map (\<lambda>i. p ! i XOR key ! (i mod 4)) [0..<length p]"

definition length_field :: "u8 \<Rightarrow> nat \<Rightarrow> bytes" where
  "length_field m n = (if n < 126 then [m OR of_nat n] else [m OR 126, of_nat (n div 256), of_nat n])"

definition frame :: "bool \<Rightarrow> u8 \<Rightarrow> bytes option \<Rightarrow> bytes \<Rightarrow> bytes" where
  "frame fin opcode mk p = ((if fin then 0x80 else 0) OR opcode)
     # (case mk of None \<Rightarrow> length_field 0 (length p) @ p
        | Some key \<Rightarrow> length_field 0x80 (length p) @ key @ masked key p)"

lemma length_masked [simp]: "length (masked key p) = length p"
  by (simp add: masked_def)

lemma masked_masked: "masked key (masked key p) = p"
  by (rule nth_equalityI) (simp_all add: masked_def xor.assoc)

lemma fold_update: "n \<le> length p \<Longrightarrow>
  fold (\<lambda>i p. p[i := f i (p ! i)]) [0..<n] p = map (\<lambda>i. if i < n then f i (p ! i) else p ! i) [0..<length p]"
proof (induction n)
  case 0
  then show ?case by (simp add: map_nth)
next
  case (Suc n)
  then show ?case by (auto intro!: nth_equalityI simp: nth_list_update)
qed

lemma unmask_masked:
  assumes "payload ctx = masked (mask_key ctx) p" "n = length p"
  shows "unmask ctx n = ctx\<lparr>payload := p\<rparr>"
proof -
  have "fold (\<lambda>i p. p[i := p ! i XOR mask_key ctx ! (i mod 4)]) [0..<n] (payload ctx) = masked (mask_key ctx) (payload ctx)"
    using fold_update [of n "payload ctx" "\<lambda>i x. x XOR mask_key ctx ! (i mod 4)"] assms
    by (auto simp: masked_def intro!: nth_equalityI)
  then show ?thesis using assms masked_masked by (simp add: unmask_def)
qed

lemma bytes16:
  assumes "(len::u64) < 65536"
  shows "scast (push_bit 0 (ucast (ucast len :: u8) :: i32)) OR scast (push_bit 8 (ucast (ucast (drop_bit 8 len) :: u8) :: i32)) = len"
proof -
  have t: "take_bit 16 len = len" using less_mask_eq [of len 16] assms by (simp add: take_bit_eq_mask)
  then have b: "n < 16" if "bit len n" for n using that by (metis bit_take_bit_iff)
  show ?thesis
    by (intro bit_word_eqI) (auto simp: bit_simps min_def less_diff_conv2 dest: b)
qed

definition frame_ready :: "frame_context_t \<Rightarrow> bool" where
  "frame_ready ctx \<longleftrightarrow> length (extended_length_buf ctx) = 8 \<and> length (mask_key ctx) = 4"

text \<open>Reading the header, the length and the key of a frame.\<close>

definition header_read :: "bool \<Rightarrow> u8 \<Rightarrow> bytes option \<Rightarrow> nat \<Rightarrow> frame_context_t \<Rightarrow> frame_context_t" where
  "header_read fin opcode mk n ctx = ctx\<lparr>
     buf_1 := [(if fin then 0x80 else 0) OR opcode,
       (if mk = None then 0 else 0x80) OR (if n < 126 then of_nat n else 126)],
     extended_length_buf := (if n < 126 then extended_length_buf ctx
       else into (extended_length_buf ctx) [of_nat (n div 256), of_nat n]),
     mask_key := (case mk of None \<Rightarrow> mask_key ctx | Some key \<Rightarrow> into (mask_key ctx) key)\<rparr>"

lemma small_bytes: "n < 128 \<Longrightarrow> (of_nat n :: u8) AND 0x7F = of_nat n" "n < 128 \<Longrightarrow> drop_bit 7 (of_nat n :: u8) = 0"
  "n < 128 \<Longrightarrow> (0x80 OR of_nat n :: u8) AND 0x7F = of_nat n" "n < 128 \<Longrightarrow> drop_bit 7 (0x80 OR of_nat n :: u8) = 1"
proof -
  assume "n < 128"
  then have "take_bit 7 n = n" by (simp add: take_bit_nat_eq_self_iff)
  then have b: "m < 7" if "bit n m" for m using that by (metis bit_take_bit_iff)
  have m: "bit (0x7F::u8) i \<longleftrightarrow> i < 7" "bit (0x80::u8) i \<longleftrightarrow> i = 7" "bit (1::u8) i \<longleftrightarrow> i = 0" for i
    using bit_mask_iff [where 'a = u8, of 7 i] bit_exp_iff [where 'a = u8, of 7 i]
    by (auto simp: mask_eq_exp_minus_1 bit_1_iff)
  note bit_iffs = bit_and_iff bit_or_iff bit_drop_bit_eq bit_of_nat_iff bit_1_iff m
  show "(of_nat n :: u8) AND 0x7F = of_nat n" "drop_bit 7 (of_nat n :: u8) = 0"
    "(0x80 OR of_nat n :: u8) AND 0x7F = of_nat n" "drop_bit 7 (0x80 OR of_nat n :: u8) = 1"
    by (rule bit_word_eqI; auto simp: bit_iffs simp del: bit_numeral_word_iff dest: b)+
qed

lemma length_code_read:
  assumes "n < 65536"
  shows "length_code (header_read fin opcode mk n ctx) = (if n < 126 then of_nat n else 126)"
    and "has_mask_key (header_read fin opcode mk n ctx) \<longleftrightarrow> mk \<noteq> None"
  using small_bytes [of n] small_bytes [of 126]
  by (auto simp: length_code_def has_mask_key_def header_read_def)

lemma length_field_read: "length_field (if mk = None then 0 else 0x80) n =
    ((if mk = None then 0 else 0x80) OR (if n < 126 then of_nat n else 126))
    # (if n < 126 then [] else [of_nat (n div 256), of_nat n])"
  by (simp add: length_field_def)

lemma into_take: "length bs = n \<Longrightarrow> take n (into buf bs) = bs"
  by (simp add: into_def)

lemma read_header_frame:
  assumes "n < 65536" "\<And>key. mk = Some key \<Longrightarrow> length key = 4"
  shows "do {
       st \<leftarrow> read_frame_header (ctx, ((if fin then 0x80 else 0) OR opcode) # length_field (if mk = None then 0 else 0x80) n
         @ (case mk of None \<Rightarrow> [] | Some key \<Rightarrow> key) @ rest);
       st \<leftarrow> read_extended_length st;
       read_masking_key st } = Some (header_read fin opcode mk n ctx, rest)"
proof -
  let ?b = "[(if fin then 0x80 else 0) OR opcode, (if mk = None then 0 else 0x80) OR (if n < 126 then of_nat n else 126)]"
  define c1 c2 where "c1 = ctx\<lparr>buf_1 := ?b\<rparr>" and "c2 = (if n < 126 then c1
       else c1\<lparr>extended_length_buf := into (extended_length_buf c1) [of_nat (n div 256), of_nat n]\<rparr>)"
  let ?key = "(case mk of None \<Rightarrow> [] | Some key \<Rightarrow> key) @ rest"
  have 1: "read_frame_header (ctx, ((if fin then 0x80 else 0) OR opcode) # length_field (if mk = None then 0 else 0x80) n
         @ ?key) = Some (c1, (if n < 126 then [] else [of_nat (n div 256), of_nat n]) @ ?key)"
    unfolding length_field_read
    by (simp add: read_frame_header_def async_read_def c1_def numeral_2_eq_2)
  have code: "length_code c1 = (if n < 126 then of_nat n else 126)" "has_mask_key c1 \<longleftrightarrow> mk \<noteq> None"
  proof -
    have "buf_1 c1 = buf_1 (header_read fin opcode mk n ctx)" by (simp add: header_read_def c1_def)
    then show "length_code c1 = (if n < 126 then of_nat n else 126)" "has_mask_key c1 \<longleftrightarrow> mk \<noteq> None"
      using length_code_read [OF assms(1), of fin opcode mk ctx] by (simp_all only: length_code_def has_mask_key_def)
  qed
  have small: "(of_nat n :: u8) \<noteq> 126" "(of_nat n :: u8) \<noteq> 127" if "n < 126"
  proof -
    have "unat (of_nat n :: u8) = n" using that by (simp add: unat_of_nat)
    then show "(of_nat n :: u8) \<noteq> 126" "(of_nat n :: u8) \<noteq> 127" using that by auto
  qed
  have 2: "read_extended_length (c1, (if n < 126 then [] else [of_nat (n div 256), of_nat n]) @ ?key) = Some (c2, ?key)"
    using small by (auto simp: read_extended_length_def code async_read_def c2_def numeral_2_eq_2)
  have "has_mask_key c2 \<longleftrightarrow> mk \<noteq> None" using code(2) by (simp add: has_mask_key_def c2_def)
  then have 3: "read_masking_key (c2, ?key) = Some (header_read fin opcode mk n ctx, rest)"
    using assms(2) by (cases mk) (auto simp: read_masking_key_def async_read_def header_read_def c2_def c1_def)
  show ?thesis by (simp only: 1 2 3 Option.bind_lunit)
qed

lemma payload_length_read:
  assumes "n < 65536"
  shows "get_payload_length (header_read fin opcode mk n ctx) = Inr (of_nat n)"
proof (cases "n < 126")
  case True
  then have "unat (of_nat n :: u8) = n" by (simp add: unat_of_nat)
  moreover have "(ucast (of_nat n :: u8) :: u64) = of_nat (unat (of_nat n :: u8))" by (simp only: of_nat_unat)
  ultimately have "(of_nat n :: u8) \<noteq> 126" "(of_nat n :: u8) \<noteq> 127" "(ucast (of_nat n :: u8) :: u64) = of_nat n"
    using True by auto
  then show ?thesis using True
    by (simp add: get_payload_length_def length_code_read(1) [OF assms])
next
  case False
  have "(of_nat n :: u64) < 65536" using assms by (simp add: word_less_nat_alt unat_of_nat)
  note b = bytes16 [OF this]
  have e: "(ucast (of_nat n :: u64) :: u8) = of_nat n" "(ucast (drop_bit 8 (of_nat n :: u64)) :: u8) = of_nat (n div 256)"
  proof -
    have d: "n div 256 = drop_bit 8 n" by (simp add: drop_bit_eq_div)
    show "(ucast (of_nat n :: u64) :: u8) = of_nat n" "(ucast (drop_bit 8 (of_nat n :: u64)) :: u8) = of_nat (n div 256)"
      unfolding d by (rule bit_word_eqI; auto simp: bit_simps)+
  qed
  have "extended_length_buf (header_read fin opcode mk n ctx) ! 0 = of_nat (n div 256)"
    "extended_length_buf (header_read fin opcode mk n ctx) ! 1 = of_nat n"
    using False by (simp_all add: header_read_def into_def)
  then show ?thesis using False b
    by (simp add: get_payload_length_def length_code_read(1) [OF assms] length_loop_def shifted_def e numeral_2_eq_2)
qed

text \<open>A data frame appends its payload; masked frames only if nothing was read before.\<close>

lemma read_data_frame:
  assumes "length p < 65536" "\<And>key. mk = Some key \<Longrightarrow> length key = 4 \<and> payload ctx = []"
    and "opcode \<in> {0, 1, 2}" "frame_ready ctx"
  shows "\<exists>ctx'. read_frame (ctx, frame fin opcode mk p @ rest) = Inr (message_t, ctx', rest)
    \<and> payload ctx' = payload ctx @ p \<and> has_fin_bit ctx' = fin \<and> frame_ready ctx'"
proof -
  define c where "c = header_read fin opcode mk (length p) ctx"
  define body where "body = (case mk of None \<Rightarrow> p | Some key \<Rightarrow> masked key p)"
  have f: "frame fin opcode mk p @ rest = ((if fin then 0x80 else 0) OR opcode)
      # length_field (if mk = None then 0 else 0x80) (length p) @ (case mk of None \<Rightarrow> [] | Some key \<Rightarrow> key) @ body @ rest"
    by (cases mk) (simp_all add: frame_def body_def)
  have read: "read_frame (ctx, frame fin opcode mk p @ rest) = opcode_dispatch (c, body @ rest)"
    unfolding read_frame_def f c_def using assms(1,2) by (subst read_header_frame) auto
  have hdr: "buf_1 c ! 0 AND 0x0F = opcode" "has_fin_bit c = fin"
    using assms(3) by (auto simp: c_def header_read_def has_fin_bit_def)
  have key: "has_mask_key c \<longleftrightarrow> mk \<noteq> None"
    unfolding c_def by (rule length_code_read) (rule assms(1))
  have len: "get_payload_length c = Inr (of_nat (length p))" "unat (of_nat (length p) :: u64) = length p"
    unfolding c_def by (rule payload_length_read, rule assms(1)) (use assms(1) in \<open>simp add: unat_of_nat\<close>)
  have ready: "frame_ready c" "payload c = payload ctx" and mask: "\<And>k. mk = Some k \<Longrightarrow> mask_key c = k"
    using assms(2,4) by (auto simp: c_def header_read_def frame_ready_def into_def split: option.splits)
  have lb: "length body = length p" by (auto simp: body_def split: option.splits)
  define c' where "c' = c\<lparr>payload := payload c @ body\<rparr>"
  have c': "has_mask_key c' \<longleftrightarrow> mk \<noteq> None" "mask_key c' = mask_key c" "payload c' = payload c @ body"
    using key by (simp_all add: c'_def has_mask_key_def)
  have un: "(if has_mask_key c' then unmask c' (length p) else c') = c\<lparr>payload := payload c @ p\<rparr>"
  proof (cases mk)
    case (Some k)
    then have "payload c' = masked (mask_key c') p"
      using assms(2) mask c' ready(2) by (simp add: body_def)
    then have "unmask c' (length p) = c'\<lparr>payload := p\<rparr>" by (rule unmask_masked) simp
    then show ?thesis using c'(1) Some assms(2) ready(2) by (simp add: c'_def)
  qed (use c'(1) in \<open>simp add: c'_def body_def\<close>)
  have "read_payload (c, body @ rest) = Inr (message_t, c\<lparr>payload := payload c @ p\<rparr>, rest)"
    unfolding read_payload_def prod.case len(1) andThen.simps len(2)
    using un lb by (cases "has_mask_key c'") (simp_all add: async_read_def Let_def c'_def [symmetric])
  then have "opcode_dispatch (c, body @ rest) = Inr (message_t, c\<lparr>payload := payload c @ p\<rparr>, rest)"
    using hdr(1) assms(3) by (auto simp: opcode_dispatch_def)
  moreover have "has_fin_bit (c\<lparr>payload := payload c @ p\<rparr>) = fin" "frame_ready (c\<lparr>payload := payload c @ p\<rparr>)"
    using hdr(2) ready(1) by (simp_all add: has_fin_bit_def frame_ready_def)
  ultimately show ?thesis using read ready(2) by auto
qed

section \<open>Sending and receiving\<close>

lemma fragment_bytes: "fragment_end d b - b \<le> max_frame_size" "fragment_end d b \<le> length (message_payload d)"
  by (auto simp: fragment_end_def Let_def)

lemma send_frame_bytes:
  assumes "length p \<le> 125"
  shows "snd (send_frame_impl p d) = header_byte d # length_field 0 (length p) @ p"
proof -
  let ?n = "length p"
  have "unat (of_nat ?n :: u64) = ?n" using assms by (simp add: unat_of_nat)
  then have "(of_nat ?n :: u64) < 126" using assms by (simp add: word_less_nat_alt)
  moreover have "(ucast (of_nat ?n :: u64) :: u8) = of_nat ?n" by (rule bit_word_eqI) (auto simp: bit_simps)
  ultimately show ?thesis
    using assms by (simp add: send_frame_impl_def encoded_length_buffer_def length_field_def Let_def)
qed

lemma fragment_frame:
  "snd (fragment d b) = frame (b + max_frame_size > length (message_payload d)) (header_byte d) None
     (drop b (take (fragment_end d b) (message_payload d)))"
proof -
  have "length (drop b (take (fragment_end d b) (message_payload d))) \<le> 125"
    using fragment_bytes [of d b] by (simp add: max_frame_size_def)
  then show ?thesis
    unfolding fragment_def by (subst send_frame_bytes) (simp_all add: frame_def mark_last_def apply_fin_bit_def or.commute)
qed

text \<open>Whether the last frame of the message from position \<open>b\<close> on has its FIN bit.\<close>

definition finishes :: "bytes \<Rightarrow> nat \<Rightarrow> bool" where
  "finishes m b \<longleftrightarrow> \<not> (b < length m \<and> max_frame_size dvd length m - b)"

definition deliver_message :: "bool \<Rightarrow> bytes \<Rightarrow> (read_event \<times> bytes) list result \<Rightarrow> (read_event \<times> bytes) list result" where
  "deliver_message fin m later = (if fin then andThen later (\<lambda>es. Inr ((message_t, m) # es)) else later)"

lemma keep_reading_data:
  assumes "length p < 65536" "\<And>key. mk = Some key \<Longrightarrow> length key = 4 \<and> payload ctx = []"
    and "opcode \<in> {0, 1, 2}" "frame_ready ctx"
  shows "\<exists>ctx'. keep_reading ctx (frame fin opcode mk p @ rest) = deliver_message fin (payload ctx @ p) (keep_reading ctx' rest)
    \<and> frame_ready ctx' \<and> payload ctx' = (if fin then [] else payload ctx @ p)"
proof -
  obtain c where c: "read_frame (ctx, frame fin opcode mk p @ rest) = Inr (message_t, c, rest)"
    "payload c = payload ctx @ p" "has_fin_bit c = fin" "frame_ready c"
    using read_data_frame [OF assms] by blast
  show ?thesis
  proof (rule exI [of _ "if fin then c\<lparr>payload := []\<rparr> else c"], intro conjI)
    show "keep_reading ctx (frame fin opcode mk p @ rest) =
        deliver_message fin (payload ctx @ p) (keep_reading (if fin then c\<lparr>payload := []\<rparr> else c) rest)"
      using c by (subst keep_reading.simps) (simp add: deliver_message_def)
  qed (use c in \<open>auto simp: frame_ready_def\<close>)
qed

lemma read_send:
  assumes "b \<le> length (message_payload d)" "header_byte d \<in> {0, 1, 2}" "frame_ready ctx"
    "send_message_impl (\<lambda>_. True) n d b = (r, d', wire)"
  shows "r \<and> (\<exists>ctx'. keep_reading ctx (wire @ rest) =
       deliver_message (finishes (message_payload d) b) (payload ctx @ drop b (message_payload d)) (keep_reading ctx' rest)
     \<and> frame_ready ctx' \<and> payload ctx' = (if finishes (message_payload d) b then [] else payload ctx @ drop b (message_payload d)))"
  using assms
proof (induction "length (message_payload d) - b" arbitrary: n d b r d' wire ctx rule: less_induct)
  case less
  let ?m = "message_payload d"
  let ?e = "fragment_end d b"
  let ?p = "drop b (take ?e ?m)"
  have len: "length ?p < 65536" using fragment_bytes(1) [of d b] by (simp add: max_frame_size_def)
  have frag: "snd (fragment d b) = frame (b + max_frame_size > length ?m) (header_byte d) None ?p"
    by (rule fragment_frame)
  show ?case
  proof (cases "?e = length ?m")
    case True
    then have w: "r" "wire = snd (fragment d b)" using less.prems(4) by (auto simp: send_message_impl.simps [of _ n])
    have "b + max_frame_size > length ?m \<or> b + max_frame_size = length ?m"
      using True by (auto simp: fragment_end_def Let_def split: if_splits)
    then have f: "finishes ?m b \<longleftrightarrow> b + max_frame_size > length ?m"
    proof
      assume "b + max_frame_size = length ?m"
      then have "length ?m - b = max_frame_size" "b < length ?m" by (auto simp: max_frame_size_def)
      then show ?thesis by (simp add: finishes_def)
    qed (auto simp: finishes_def max_frame_size_def dest: dvd_imp_le)
    show ?thesis
      using keep_reading_data [OF len _ less.prems(2,3), of None "finishes ?m b" rest] w True frag f by auto
  next
    case False
    then have e: "?e = b + max_frame_size" "?e < length ?m" by (auto simp: fragment_end_def Let_def)
    define d1 where "d1 = set_opcode (opcode_value continuation) (fst (fragment d b))"
    have d1: "message_payload d1 = ?m" "header_byte d1 \<in> {0, 1, 2}"
      by (simp_all add: d1_def set_opcode_def fragment_payload opcode_value_def)
    obtain r1 d2 wire1 where rec: "send_message_impl (\<lambda>_. True) (n + 1) d1 ?e = (r1, d2, wire1)"
      by (metis prod_cases3)
    have w: "r = r1" "wire = snd (fragment d b) @ wire1"
      using less.prems(4) False rec by (auto simp: send_message_impl.simps [of _ n] d1_def)
    obtain c where c: "keep_reading ctx (snd (fragment d b) @ wire1 @ rest) = keep_reading c (wire1 @ rest)"
      "frame_ready c" "payload c = payload ctx @ ?p"
      using keep_reading_data [OF len _ less.prems(2,3), of None False "wire1 @ rest"] frag e
      by (auto simp: deliver_message_def)
    have "length ?m - b = (length ?m - ?e) + max_frame_size" using e less.prems(1) by simp
    then have "max_frame_size dvd length ?m - b \<longleftrightarrow> max_frame_size dvd length ?m - ?e"
      by (simp only: dvd_add_triv_right_iff)
    then have f: "finishes ?m ?e \<longleftrightarrow> finishes ?m b"
      using e by (simp add: finishes_def)
    have q: "?p @ drop ?e ?m = drop b ?m"
      using e drop_append [of b "take ?e ?m" "drop ?e ?m"] by simp
    have "length (message_payload d1) - ?e < length ?m - b" using d1(1) e by (simp add: max_frame_size_def)
    note ih = less.hyps [OF this _ d1(2) c(2) rec]
    have "payload c @ drop ?e ?m = payload ctx @ drop b ?m" using c(3) q by simp
    note ih = ih [unfolded d1(1) f this]
    show ?thesis
      using ih c(1) e(2) unfolding w by (simp split del: if_split)
  qed
qed

fun deliver :: "bytes \<Rightarrow> bytes list \<Rightarrow> (read_event \<times> bytes) list" where
  "deliver acc [] = [(error_code_t, acc)]"
| "deliver acc (m # ms) = (if finishes m 0 then (message_t, acc @ m) # deliver [] ms else deliver (acc @ m) ms)"

lemma keep_reading_end: "keep_reading ctx [] = Inr [(error_code_t, payload ctx)]"
  by (subst keep_reading.simps) (simp add: read_frame_def read_frame_header_def async_read_def)

lemma read_send_all:
  assumes "frame_ready ctx" "k \<in> {continuation, text_frame, binary}"
  shows "keep_reading ctx (send_all k d ms) = Inr (deliver (payload ctx) ms)"
  using assms(1)
proof (induction ms arbitrary: ctx d)
  case Nil
  then show ?case by (simp add: keep_reading_end)
next
  case (Cons m ms)
  let ?d = "set_opcode (opcode_value k) (d\<lparr>message_payload := m\<rparr>)"
  obtain r d' wire where s: "send_message_impl (\<lambda>_. True) 0 ?d 0 = (r, d', wire)"
    by (metis prod_cases3)
  have d: "header_byte ?d \<in> {0, 1, 2}" "message_payload ?d = m"
    using assms(2) by (auto simp: set_opcode_def opcode_value_def)
  obtain c where c: "keep_reading ctx (wire @ send_all k d' ms) =
      deliver_message (finishes m 0) (payload ctx @ m) (keep_reading c (send_all k d' ms))"
    "frame_ready c" "payload c = (if finishes m 0 then [] else payload ctx @ m)"
    using read_send [OF _ d(1) Cons.prems s, of "send_all k d' ms"] d(2) by auto
  have "send_all k d (m # ms) = wire @ send_all k d' ms"
    using s by (simp add: send_impl_def)
  then show ?case using c Cons.IH [OF c(2), of d'] by (simp add: deliver_message_def)
qed

lemma deliver_finished: "\<forall>m \<in> set ms. finishes m 0 \<Longrightarrow> deliver [] ms = map (Pair message_t) ms @ [(error_code_t, [])]"
  by (induction ms) simp_all

text \<open>
  C16: A queue of messages that is sent as frames is received as the same messages in the same order,
  when no message fills its last frame.
\<close>

theorem send_receive:
  assumes "k \<in> {continuation, text_frame, binary}" "length e = 8" "length x = 4"
    and "\<And>m. m \<in> set ms \<Longrightarrow> m = [] \<or> \<not> max_frame_size dvd length m"
  shows "keep_reading (new_frame_context e x) (send_all k d ms)
    = Inr (map (Pair message_t) ms @ [(error_code_t, [])])"
proof -
  have "frame_ready (new_frame_context e x)" "payload (new_frame_context e x) = []"
    using assms(2,3) by (simp_all add: frame_ready_def new_frame_context_def)
  moreover have "\<forall>m \<in> set ms. finishes m 0" using assms(4) by (auto simp: finishes_def)
  ultimately show ?thesis using read_send_all [OF _ assms(1)] deliver_finished by metis
qed

theorem send_receive_witness:
  "keep_reading (new_frame_context (replicate 8 0) (replicate 4 0))
     (send_all binary \<lparr>header_byte = 0, length_data = replicate 9 0, message_payload = []\<rparr> [[1, 2], [], [3]])
   = Inr [(message_t, [1, 2]), (message_t, []), (message_t, [3]), (error_code_t, [])]"
  by (subst send_receive) (auto simp: max_frame_size_def dest: dvd_imp_le)

text \<open>
  C17: Messages that another endpoint sends as single masked frames of less than 65536 bytes are
  received unmasked, in order.
\<close>

theorem masked_receive:
  assumes "opcode \<in> {0, 1, 2}" "length e = 8" "length x = 4"
    and "\<And>key p. (key, p) \<in> set ms \<Longrightarrow> length key = 4 \<and> length p < 65536"
  shows "keep_reading (new_frame_context e x) (concat (map (\<lambda>(key, p). frame True opcode (Some key) p) ms))
    = Inr (map (\<lambda>(key, p). (message_t, p)) ms @ [(error_code_t, [])])"
proof -
  have "keep_reading ctx (concat (map (\<lambda>(key, p). frame True opcode (Some key) p) ms))
      = Inr (map (\<lambda>(key, p). (message_t, p)) ms @ [(error_code_t, [])])"
    if "frame_ready ctx" "payload ctx = []" for ctx
    using that assms(4)
  proof (induction ms arbitrary: ctx)
    case Nil
    then show ?case by (simp add: keep_reading_end)
  next
    case (Cons m ms)
    obtain key p where m: "m = (key, p)" by (cases m)
    have kp: "length key = 4" "length p < 65536" using Cons.prems(3) [of key p] m by auto
    let ?rest = "concat (map (\<lambda>(key, p). frame True opcode (Some key) p) ms)"
    obtain c where c: "keep_reading ctx (frame True opcode (Some key) p @ ?rest)
        = deliver_message True p (keep_reading c ?rest)" "frame_ready c" "payload c = []"
      using keep_reading_data [OF kp(2) _ assms(1) Cons.prems(1), of "Some key" True ?rest] kp(1) Cons.prems(2) by auto
    have "keep_reading c ?rest = Inr (map (\<lambda>(key, p). (message_t, p)) ms @ [(error_code_t, [])])"
      by (rule Cons.IH [OF c(2,3)]) (use Cons.prems(3) in auto)
    then show ?case using c(1) by (simp add: m deliver_message_def)
  qed
  then show ?thesis using assms(2,3) by (simp add: frame_ready_def new_frame_context_def)
qed

theorem masked_receive_witness:
  "keep_reading (new_frame_context (replicate 8 0) (replicate 4 0))
     (concat (map (\<lambda>(key, p). frame True 2 (Some key) p) [([1, 2, 3, 4], [7, 8, 9, 10, 11])]))
   = Inr [(message_t, [7, 8, 9, 10, 11]), (error_code_t, [])]"
  by (subst masked_receive) auto

lemma length_loop_2: "length_loop x 2 = Inr (scast (push_bit 0 (ucast (extended_length_buf x ! 1) :: i32))
    OR scast (push_bit 8 (ucast (extended_length_buf x ! 0) :: i32)))"
  by (simp add: length_loop_def shifted_def numeral_2_eq_2)

text \<open>Eight bytes of an extended length: the fifth byte from the end is shifted by 32.\<close>

lemma length_loop_8: "length_loop x 8 = Inl InvalidShift"
  by (simp add: length_loop_def shifted_def upt_rec numeral_eq_Suc)

text \<open>
  C18: The reader decodes exactly the lengths below 65536 that the sender encodes; for the lengths
  that are sent as 64 bits it shifts an \<open>int\<close> by its width.
\<close>

theorem payload_length_bounds:
  "get_payload_length (ctx\<lparr>buf_1 := [h, hd (snd (encoded_length_buffer n d))],
      extended_length_buf := into (extended_length_buf ctx) (tl (snd (encoded_length_buffer n d)))\<rparr>)
   = (if n < 65536 then Inr n else Inl InvalidShift)"
proof -
  consider "n < 126" | "126 \<le> n" "n < 65536" | "65536 \<le> n" by fastforce
  then show ?thesis
  proof cases
    case 1
    then have "n < 2 ^ 7" by (rule less_trans) simp
    then have "take_bit 7 n = n" using less_mask_eq [of n 7] by (simp only: take_bit_eq_mask)
    then have b: "i < 7" if "bit n i" for i using that by (metis bit_take_bit_iff)
    have m: "bit (0x7F::u8) i \<longleftrightarrow> i < 7" for i
      using bit_mask_iff [where 'a = u8, of 7 i] by (auto simp: mask_eq_exp_minus_1)
    have "(ucast n :: u8) AND 0x7F = ucast n" "(ucast (ucast n :: u8) :: u64) = n"
      by (rule bit_word_eqI; auto simp: bit_and_iff bit_ucast_iff m simp del: bit_numeral_word_iff dest: b)+
    moreover from this(2) have "(ucast n :: u8) \<noteq> 126" "(ucast n :: u8) \<noteq> 127" using 1 by auto
    moreover have "n < 65536" using 1 by (rule less_trans) simp
    ultimately show ?thesis using 1
      by (auto simp: get_payload_length_def length_code_def encoded_length_buffer_def Let_def into_def)
  next
    case 2
    then have "\<not> n < 126" by (simp only: not_less)
    then have e: "snd (encoded_length_buffer n d) = [126, ucast (drop_bit 8 n), ucast n]"
      using 2(2) by (simp add: encoded_length_buffer_def Let_def)
    show ?thesis
      unfolding e get_payload_length_def length_code_def length_loop_2
      using bytes16 [OF 2(2)] 2(2) by (simp only: into_def frame_context_t.simps) simp
  next
    case 3
    have "126 \<le> n" by (rule order_trans [OF _ 3]) simp
    then show ?thesis using 3
      by (auto simp: get_payload_length_def length_code_def encoded_length_buffer_def Let_def length_loop_8)
  qed
qed

section \<open>Deviations\<close>

text \<open>A message that fills its last frame never gets its FIN bit: the receiver joins it to the next one.\<close>

lemma full_frame_joins:
  assumes "length e = 8" "length x = 4" "length m = 125"
  shows "keep_reading (new_frame_context e x) (send_all binary d [m, [1]]) = Inr [(message_t, m @ [1]), (error_code_t, [])]"
proof -
  have "m \<noteq> []" using assms(3) by auto
  then have "\<not> finishes m 0" "finishes [1] 0"
    using assms(3) by (auto simp: finishes_def max_frame_size_def dest: dvd_imp_le)
  then show ?thesis using assms by (subst read_send_all) (auto simp: frame_ready_def new_frame_context_def)
qed

text \<open>The mask of a continuation frame is applied to the front of the message.\<close>

lemma masked_fragments_corrupted:
  "keep_reading (new_frame_context (replicate 8 0) (replicate 4 0))
    (frame False 2 (Some [1, 1, 1, 1]) [5] @ frame True 0 (Some [2, 2, 2, 2]) [6])
   = Inr [(message_t, [7, 4]), (error_code_t, [])]"
  by code_simp

text \<open>The payload of a ping is not read, so it is taken for the header of the next frame.\<close>

lemma ping_payload_not_read:
  "keep_reading (new_frame_context (replicate 8 0) (replicate 4 0))
    (frame True 9 None [0x88, 0x00] @ frame True 2 None [1])
   = Inr [(ping_t, []), (close_t, [])]"
  by code_simp

end
