(* ===== verification/Endpoint.thy ===== *)
theory Endpoint
  imports WsFrame Transition
begin

text \<open>
  The connection of a WebSocket endpoint (\<open>nbdl/include/nbdl/websocket/detail/endpoint_impl.hpp\<close>): the
  queue of messages to send, the loop that sends them one at a time and the closing handshake. The
  state has the members of \<open>endpoint_impl\<close>, the asynchronous operations that are under way, and what
  the outside can see: the writes that were started and the calls of the handler. Every call of
  the handler is the last action of a callback, so what the handler does is a step of its own.
\<close>

section \<open>State\<close>

datatype control_frame_kind = NONE | CLOSE | PONG

datatype phase = Idle | SendingMessage | SendingClose

datatype wire_message = Data bytes | Close_frame bytes

datatype error_code = eof | connection_reset | other_error

datatype handler_call = call_message bytes | call_close | call_bad_request | call_error error_code

record endpoint_impl =
  kind :: control_frame_kind
  control_payload :: bytes
  send_queue :: "bytes list"
  is_send_queue_running :: bool
  is_started :: bool
  is_stopped :: bool
  is_close_received :: bool
  is_reading :: bool
  phase :: phase
  wire :: "wire_message list"
  calls :: "handler_call list"

definition new_endpoint :: endpoint_impl where
  "new_endpoint = \<lparr>kind = NONE, control_payload = [], send_queue = [], is_send_queue_running = False,
     is_started = False, is_stopped = False, is_close_received = False, is_reading = False,
     phase = Idle, wire = [], calls = []\<rparr>"

section \<open>Operations\<close>

definition is_close :: "endpoint_impl \<Rightarrow> bool" where
  "is_close s \<longleftrightarrow> kind s = CLOSE"

definition to_close :: "bytes \<Rightarrow> endpoint_impl \<Rightarrow> endpoint_impl" where
  "to_close x s = s\<lparr>kind := CLOSE, control_payload := x\<rparr>"

definition to_pong :: "bytes \<Rightarrow> endpoint_impl \<Rightarrow> endpoint_impl" where
  "to_pong x s = (if kind s \<noteq> CLOSE then s\<lparr>kind := PONG, control_payload := x\<rparr> else s)"

definition is_sending_close :: "endpoint_impl \<Rightarrow> bool" where
  "is_sending_close s \<longleftrightarrow> is_close s"

definition call_handler :: "handler_call \<Rightarrow> endpoint_impl \<Rightarrow> endpoint_impl" where
  "call_handler c s = (if is_stopped s then s else s\<lparr>calls := calls s @ [c]\<rparr>)"

text \<open>
  A round of the loop of \<open>start_send_queue\<close>. The close frame ends the loop with the flag still set;
  an empty queue ends it and clears the flag.
\<close>

definition send_round :: "endpoint_impl \<Rightarrow> endpoint_impl" where
  "send_round s =
     (if is_sending_close s then s\<lparr>phase := SendingClose, wire := wire s @ [Close_frame (control_payload s)]\<rparr>
      else if length (send_queue s) > 0
        then s\<lparr>phase := SendingMessage, wire := wire s @ [Data (hd (send_queue s))]\<rparr>
      else s\<lparr>phase := Idle, is_send_queue_running := False\<rparr>)"

definition start_send_queue :: "endpoint_impl \<Rightarrow> endpoint_impl" where
  "start_send_queue s =
     (if is_send_queue_running s \<or> is_stopped s \<or> \<not> is_started s then s
      else send_round (s\<lparr>is_send_queue_running := True\<rparr>))"

definition send_message :: "bytes \<Rightarrow> endpoint_impl \<Rightarrow> endpoint_impl" where
  "send_message p s = start_send_queue (s\<lparr>send_queue := send_queue s @ [p]\<rparr>)"

definition send_close :: "endpoint_impl \<Rightarrow> endpoint_impl" where
  "send_close s = start_send_queue (to_close [] s)"

definition start_messaging :: "endpoint_impl \<Rightarrow> endpoint_impl" where
  "start_messaging s =
     (if \<not> is_started s \<and> \<not> is_stopped s then
        let s = s\<lparr>is_started := True, is_reading := True\<rparr> in
        if length (send_queue s) > 0 then start_send_queue s else s
      else s)"

definition stop :: "endpoint_impl \<Rightarrow> endpoint_impl" where
  "stop s = s\<lparr>is_stopped := True\<rparr>"

text \<open>Completion of a write: the message is popped and the loop goes round again.\<close>

definition message_sent :: "endpoint_impl \<Rightarrow> endpoint_impl" where
  "message_sent s = send_round (if length (send_queue s) > 0 then s\<lparr>send_queue := tl (send_queue s)\<rparr> else s)"

definition message_failed :: "error_code \<Rightarrow> endpoint_impl \<Rightarrow> endpoint_impl" where
  "message_failed error s =
     (let s = s\<lparr>phase := Idle, is_send_queue_running := False\<rparr> in
      if is_sending_close s \<and> (error = eof \<or> error = connection_reset) then call_handler call_close s
      else call_handler (call_error error) s)"

definition close_sent :: "endpoint_impl \<Rightarrow> endpoint_impl" where
  "close_sent s = (let s = s\<lparr>phase := Idle\<rparr> in if is_close_received s then call_handler call_close s else s)"

text \<open>The events of the reader; a rejected event ends its loop.\<close>

definition mark_is_close_received :: "endpoint_impl \<Rightarrow> endpoint_impl" where
  "mark_is_close_received s = s\<lparr>is_close_received := True\<rparr>"

definition on_message :: "bytes \<Rightarrow> endpoint_impl \<Rightarrow> endpoint_impl" where
  "on_message p s = call_handler (call_message p) s"

definition on_close :: "endpoint_impl \<Rightarrow> endpoint_impl" where
  "on_close s = (let s = mark_is_close_received (s\<lparr>is_reading := False\<rparr>) in
     if is_sending_close s then call_handler call_close s else send_close s)"

definition on_bad_input :: "endpoint_impl \<Rightarrow> endpoint_impl" where
  "on_bad_input s = call_handler call_bad_request (s\<lparr>is_reading := False\<rparr>)"

definition on_error :: "error_code \<Rightarrow> endpoint_impl \<Rightarrow> endpoint_impl" where
  "on_error error s = call_handler (call_error error) (s\<lparr>is_reading := False\<rparr>)"

section \<open>Steps\<close>

text \<open>
  A failed write of the close frame has no step: its callback uses the resolver of the send loop,
  which \<open>terminate\<close> has deleted.
\<close>

datatype event = Send bytes | SendClose | Start | Stop
  | MessageWritten | MessageFailed error_code | CloseWritten
  | ReadMessage bytes | ReadClose | ReadPing bytes | ReadPong | ReadBadInput | ReadError error_code

inductive endpoint_step :: "endpoint_impl \<Rightarrow> event \<Rightarrow> endpoint_impl \<Rightarrow> bool" where
  step_send: "endpoint_step s (Send p) (send_message p s)"
| step_send_close: "endpoint_step s SendClose (send_close s)"
| step_start: "endpoint_step s Start (start_messaging s)"
| step_stop: "endpoint_step s Stop (stop s)"
| step_written: "phase s = SendingMessage \<Longrightarrow> endpoint_step s MessageWritten (message_sent s)"
| step_failed: "phase s = SendingMessage \<Longrightarrow> endpoint_step s (MessageFailed e) (message_failed e s)"
| step_close_written: "phase s = SendingClose \<Longrightarrow> endpoint_step s CloseWritten (close_sent s)"
| step_message: "is_reading s \<Longrightarrow> endpoint_step s (ReadMessage p) (on_message p s)"
| step_close: "is_reading s \<Longrightarrow> endpoint_step s ReadClose (on_close s)"
| step_ping: "is_reading s \<Longrightarrow> endpoint_step s (ReadPing p) (to_pong p s)"
| step_pong: "is_reading s \<Longrightarrow> endpoint_step s ReadPong s"
| step_bad_input: "is_reading s \<Longrightarrow> endpoint_step s ReadBadInput (on_bad_input s)"
| step_error: "is_reading s \<Longrightarrow> endpoint_step s (ReadError e) (on_error e s)"

inductive_cases endpoint_stepE: "endpoint_step s e t"

fun endpoint_exec :: "endpoint_impl \<Rightarrow> event \<Rightarrow> endpoint_impl option" where
  "endpoint_exec s (Send p) = Some (send_message p s)"
| "endpoint_exec s SendClose = Some (send_close s)"
| "endpoint_exec s Start = Some (start_messaging s)"
| "endpoint_exec s Stop = Some (stop s)"
| "endpoint_exec s MessageWritten = (if phase s = SendingMessage then Some (message_sent s) else None)"
| "endpoint_exec s (MessageFailed e) = (if phase s = SendingMessage then Some (message_failed e s) else None)"
| "endpoint_exec s CloseWritten = (if phase s = SendingClose then Some (close_sent s) else None)"
| "endpoint_exec s (ReadMessage p) = (if is_reading s then Some (on_message p s) else None)"
| "endpoint_exec s ReadClose = (if is_reading s then Some (on_close s) else None)"
| "endpoint_exec s (ReadPing p) = (if is_reading s then Some (to_pong p s) else None)"
| "endpoint_exec s ReadPong = (if is_reading s then Some s else None)"
| "endpoint_exec s ReadBadInput = (if is_reading s then Some (on_bad_input s) else None)"
| "endpoint_exec s (ReadError e) = (if is_reading s then Some (on_error e s) else None)"

lemma endpoint_exec_step: "endpoint_exec s e = Some t \<Longrightarrow> endpoint_step s e t"
  by (cases e) (auto intro: endpoint_step.intros split: if_splits)

abbreviation endpoint_run :: "event list \<Rightarrow> endpoint_impl \<Rightarrow> bool" where
  "endpoint_run \<equiv> run endpoint_step new_endpoint"

lemma endpoint_runI: "execute endpoint_exec s es = Some t \<Longrightarrow> run endpoint_step s es t"
  by (rule execute_run [where f = endpoint_exec]) (rule endpoint_exec_step)

lemmas operations = send_message_def send_close_def start_messaging_def stop_def message_sent_def
  message_failed_def close_sent_def mark_is_close_received_def on_message_def on_close_def
  on_bad_input_def on_error_def to_close_def to_pong_def is_sending_close_def is_close_def
  call_handler_def start_send_queue_def send_round_def Let_def

section \<open>The send loop\<close>

text \<open>
  A write of a message belongs to the running loop and to the front of the queue; a close frame is the last
  thing that is written, and after it the flag of the loop stays set.
\<close>

definition loop_invariant :: "endpoint_impl \<Rightarrow> bool" where
  "loop_invariant s \<longleftrightarrow>
     (if \<exists>p. Close_frame p \<in> set (wire s)
      then is_send_queue_running s \<and> is_sending_close s \<and> phase s \<noteq> SendingMessage
        \<and> (\<forall>p. Close_frame p \<notin> set (butlast (wire s)))
      else phase s \<noteq> SendingClose \<and> is_send_queue_running s = (phase s = SendingMessage)
        \<and> (phase s = SendingMessage \<longrightarrow> send_queue s \<noteq> [] \<and> wire s \<noteq> [] \<and> last (wire s) = Data (hd (send_queue s))))"

lemma loop_invariant_step: "loop_invariant s \<Longrightarrow> endpoint_step s e t \<Longrightarrow> loop_invariant t"
  by (elim endpoint_stepE; auto simp: operations loop_invariant_def split: if_splits)

lemma loop_invariant_new: "loop_invariant new_endpoint"
  by (simp add: loop_invariant_def new_endpoint_def)

interpretation loop: trace_invariant endpoint_step new_endpoint "\<lambda>es s. loop_invariant s"
  by unfold_locales (rule loop_invariant_new, rule loop_invariant_step)

text \<open>
  C22: The close frame is written at most once and nothing is written after it.
\<close>

theorem endpoint_close_last:
  assumes "endpoint_run es s"
  shows "Close_frame p \<notin> set (butlast (wire s))"
proof (cases "\<exists>p. Close_frame p \<in> set (wire s)")
  case True
  then show ?thesis using loop.holds [OF assms] by (simp add: loop_invariant_def)
qed (auto dest: in_set_butlastD)

text \<open>A run in which a message is written, the endpoint closes and the peer answers.\<close>

definition example_events :: "event list" where
  "example_events = [Send [1], Start, Send [2], SendClose, MessageWritten, CloseWritten, ReadClose]"

lemma example_run: "\<exists>s. endpoint_run example_events s \<and> wire s = [Data [1], Close_frame []]
  \<and> send_queue s = [[2]] \<and> calls s = [call_close] \<and> is_close_received s \<and> \<not> is_stopped s \<and> phase s = Idle"
proof -
  have "execute endpoint_exec new_endpoint example_events = Some \<lparr>kind = CLOSE, control_payload = [],
    send_queue = [[2]], is_send_queue_running = True, is_started = True, is_stopped = False,
    is_close_received = True, is_reading = False, phase = Idle, wire = [Data [1], Close_frame []], calls = [call_close]\<rparr>"
    by code_simp
  from endpoint_runI [OF this] show ?thesis by fastforce
qed

theorem endpoint_close_last_witness:
  "\<exists>s. endpoint_run example_events s \<and> wire s \<noteq> [] \<and> Close_frame [] \<notin> set (butlast (wire s))"
  using example_run endpoint_close_last by fastforce

section \<open>Messages in order\<close>

text \<open>The specification of the endpoint as a channel: the messages that are not yet sent.\<close>

fun channel :: "bytes list \<Rightarrow> event \<Rightarrow> bytes list" where
  "channel q (Send p) = q @ [p]"
| "channel q MessageWritten = tl q"
| "channel q _ = q"

lemma channel_step:
  assumes "loop_invariant s" "endpoint_step s e t"
  shows "send_queue t = channel (send_queue s) e"
  using assms(2,1) by (elim endpoint_stepE) (auto simp: operations loop_invariant_def)

interpretation channel: trace_invariant endpoint_step new_endpoint
  "\<lambda>es s. loop_invariant s \<and> send_queue s = foldl channel [] es"
proof unfold_locales
  show "loop_invariant new_endpoint \<and> send_queue new_endpoint = foldl channel [] []"
    by (rule conjI [OF loop_invariant_new]) (simp add: new_endpoint_def)
qed (auto intro: loop_invariant_step dest: channel_step)



section \<open>The closing handshake\<close>

definition close_invariant :: "event list \<Rightarrow> endpoint_impl \<Rightarrow> bool" where
  "close_invariant es s \<longleftrightarrow> loop_invariant s \<and> (is_reading s \<longrightarrow> is_started s) \<and>
     (is_close_received s \<and> \<not> is_stopped s \<and> (\<forall>e. MessageFailed e \<notin> set es) \<longrightarrow>
        call_close \<in> set (calls s) \<or> phase s = SendingClose \<or> (phase s = SendingMessage \<and> is_sending_close s))"

lemma close_invariant_step:
  assumes "close_invariant es s" "endpoint_step s e t"
  shows "close_invariant (es @ [e]) t"
proof -
  have "loop_invariant t" by (rule loop_invariant_step [OF _ assms(2)]) (use assms(1) in \<open>simp add: close_invariant_def\<close>)
  moreover have "is_reading t \<longrightarrow> is_started t"
    using assms(2,1) by (elim endpoint_stepE) (auto simp: operations close_invariant_def)
  moreover have "is_close_received t \<and> \<not> is_stopped t \<and> (\<forall>e'. MessageFailed e' \<notin> set (es @ [e])) \<longrightarrow>
        call_close \<in> set (calls t) \<or> phase t = SendingClose \<or> (phase t = SendingMessage \<and> is_sending_close t)"
    using assms(2,1)
    by (elim endpoint_stepE; auto simp: operations close_invariant_def loop_invariant_def split: if_splits)
  ultimately show ?thesis by (simp add: close_invariant_def)
qed

interpretation closing: trace_invariant endpoint_step new_endpoint close_invariant
proof unfold_locales
  show "close_invariant [] new_endpoint"
    unfolding close_invariant_def using loop_invariant_new by (auto simp: new_endpoint_def)
qed (rule close_invariant_step)

text \<open>
  C23: When the close frame of the peer was received, no write is under way and none has failed, the
  handler has been told that the connection is closed.
\<close>

theorem endpoint_close_reported:
  assumes "endpoint_run es s" "is_close_received s" "\<not> is_stopped s" "phase s = Idle"
    and "\<And>e. MessageFailed e \<notin> set es"
  shows "call_close \<in> set (calls s)"
  using closing.holds [OF assms(1)] assms(2-) by (simp add: close_invariant_def)

theorem endpoint_close_reported_witness:
  "\<exists>s. endpoint_run example_events s \<and> call_close \<in> set (calls s)"
proof -
  obtain s where s: "endpoint_run example_events s" "is_close_received s" "\<not> is_stopped s" "phase s = Idle"
    using example_run by blast
  then have "call_close \<in> set (calls s)" by (rule endpoint_close_reported) (simp add: example_events_def)
  with s(1) show ?thesis by blast
qed

section \<open>Stopping\<close>

lemma stopped_step: "is_stopped s \<Longrightarrow> endpoint_step s e t \<Longrightarrow> calls t = calls s \<and> is_stopped t"
  by (elim endpoint_stepE) (auto simp: operations)



section \<open>Deviations\<close>

text \<open>
  When the peer's close frame arrives while the own one is being written, the handler is told twice.
\<close>

lemma close_reported_twice:
  "map_option calls (execute endpoint_exec new_endpoint [Start, SendClose, ReadClose, CloseWritten])
   = Some [call_close, call_close]"
  by code_simp

text \<open>A close before the endpoint is started is not sent when it starts.\<close>

lemma close_before_start:
  "map_option wire (execute endpoint_exec new_endpoint [SendClose, Start]) = Some []"
  by code_simp

end
