(* ===== verification/Base64.thy ===== *)
theory Base64
  imports Utf8 Result
begin

text \<open>
  Base64 (\<open>nbdl/include/nbdl/util/base64_encode.hpp\<close>, \<open>base64_decode.hpp\<close>). The output of both
  directions is a buffer of the final length that is filled through an iterator: the state of the
  loops is the buffer and the position of the iterator. Sizes are \<open>int\<close>s in the code; the model has
  them as naturals, for buffers below the 2 to the 29 bytes that the sizes can measure.
\<close>

section \<open>Encoding\<close>

definition lookup :: string where
  "lookup = ''ABCDEFGHIJKLMNOPQRSTUVWXYZabcdefghijklmnopqrstuvwxyz0123456789+/''"

definition offsets :: "nat list" where
  "offsets = [26, 20, 14, 8]"

type_synonym sink = "string \<times> nat"

definition put :: "char \<Rightarrow> sink \<Rightarrow> sink" where
  "put c st = ((fst st)[snd st := c], snd st + 1)"

definition sextet :: "u32 \<Rightarrow> nat \<Rightarrow> u32" where
  "sextet fragment i = drop_bit (offsets ! i) (fragment AND push_bit (offsets ! i) 0x3F)"

definition encode_fragment :: "u32 \<Rightarrow> nat \<Rightarrow> sink \<Rightarrow> sink" where
  "encode_fragment fragment byte_length st =
     (if byte_length = 0 then st
      else fold (\<lambda>i. put (lookup ! unat (sextet fragment i))) [0..<byte_length + 1] st)"

definition encoding_length_padded :: "nat \<Rightarrow> nat" where
  "encoding_length_padded n = 4 * n div 3 + (4 - 4 * n div 3 mod 4) mod 4"

text \<open>
  An element of the buffer in an \<open>int\<close> expression: zero extended for \<open>unsigned char\<close>, sign extended
  for a \<open>char\<close> that is signed.
\<close>

definition element :: "bool \<Rightarrow> char \<Rightarrow> u32" where
  "element is_signed c = (if is_signed then scast (of_char c :: u8) else byte c)"

definition block :: "bool \<Rightarrow> string \<Rightarrow> nat \<Rightarrow> u32" where
  "block sg buffer i = push_bit 24 (element sg (buffer ! i)) OR push_bit 16 (element sg (buffer ! (i + 1)))
     OR push_bit 8 (element sg (buffer ! (i + 2)))"

definition base64_encode :: "bool \<Rightarrow> string \<Rightarrow> string result" where
  "base64_encode sg buffer =
     (let buf = replicate (encoding_length_padded (length buffer)) (CHR ''='');
          extra_length = length buffer mod 3;
          round_length = length buffer - extra_length;
          padding_length = (3 - extra_length) mod 3;
          st = fold (\<lambda>k. encode_fragment (block sg buffer (3 * k)) 3) [0..<round_length div 3] (buf, 0);
          extras = fold (\<lambda>i e. e OR push_bit (8 * (3 - i)) (element sg (buffer ! (round_length + i))))
            [0..<extra_length] 0;
          st = encode_fragment extras extra_length st
      in check (snd st + padding_length = length (fst st)) (Inr (fst st)))"

section \<open>Decoding\<close>

definition PADDING :: nat where "PADDING = 65"
definition INVALID :: nat where "INVALID = 64"

definition reverse_lookup :: "nat list" where
  "reverse_lookup = [
     64,64,64,64,64,64,64,64,64,64,64,64,64,64,64,64,
     64,64,64,64,64,64,64,64,64,64,64,64,64,64,64,64,
     64,64,64,64,64,64,64,64,64,64,64,62,64,64,64,63,
     52,53,54,55,56,57,58,59,60,61,64,64,64,65,64,64,
     64, 0, 1, 2, 3, 4, 5, 6, 7, 8, 9,10,11,12,13,14,
     15,16,17,18,19,20,21,22,23,24,25,64,64,64,64,64,
     64,26,27,28,29,30,31,32,33,34,35,36,37,38,39,40,
     41,42,43,44,45,46,47,48,49,50,51,64,64,64,64,64] @ replicate 128 64"

definition reverse :: "char \<Rightarrow> nat" where
  "reverse c = reverse_lookup ! of_char c"

definition is_invalid :: "char \<Rightarrow> bool" where
  "is_invalid c \<longleftrightarrow> reverse c = INVALID"

definition is_not_padding :: "char \<Rightarrow> bool" where
  "is_not_padding c \<longleftrightarrow> reverse c \<noteq> PADDING"

definition validate :: "string \<Rightarrow> bool" where
  "validate b =
     (if length b mod 4 \<noteq> 0 then False
      else if list_ex is_invalid b then False
      else let pad = dropWhile (\<lambda>c. c \<noteq> CHR ''='') b in
        if 2 < length pad then False
        else if list_ex is_not_padding pad then False
        else True)"

definition source_length_unpadded :: "string \<Rightarrow> nat" where
  "source_length_unpadded b = length (filter is_not_padding b)"

definition target_decoded_length :: "string \<Rightarrow> nat" where
  "target_decoded_length b = 3 * source_length_unpadded b div 4"

definition gather :: "string \<Rightarrow> nat \<Rightarrow> nat \<Rightarrow> u32" where
  "gather input i n = fold (\<lambda>j fragment. fragment OR push_bit (offsets ! j) (of_nat (reverse (input ! (i + j)))))
     [0..<n] 0"

text \<open>The bytes \<open>k = 3, 2, ...\<close> down to but not including \<open>stop\<close>.\<close>

definition emit :: "u32 \<Rightarrow> nat \<Rightarrow> sink \<Rightarrow> sink" where
  "emit fragment stop st = fold (\<lambda>k. put (to_char (drop_bit (k * 8) fragment))) (rev [Suc stop..<4]) st"

definition length_map :: "nat list" where
  "length_map = [3, 2, 2, 1, 0]"

definition decode_base64 :: "string \<Rightarrow> string \<Rightarrow> string result" where
  "decode_base64 input buf =
     (let len = source_length_unpadded input;
          round_length = len - len mod 4;
          extra_length = len mod 4;
          st = fold (\<lambda>k. emit (gather input (4 * k) 4) 0) [0..<round_length div 4] (buf, 0);
          st = (if 0 < extra_length
                then emit (gather input round_length extra_length) (length_map ! extra_length) st else st)
      in check (snd st = length (fst st)) (Inr (fst st)))"

text \<open>The two overloads of \<open>base64_decode\<close>; \<open>?\<close> fills the vector at first.\<close>

definition base64_decode :: "string \<Rightarrow> string result" where
  "base64_decode input =
     (if length input = 0 then Inr []
      else if \<not> validate input then Inr []
      else decode_base64 input (replicate (target_decoded_length input) (CHR ''?'')))"

text \<open>
  \<open>prepare_output_buffer\<close>: a dynamic buffer is resized (new elements are zero), any other buffer must
  have the right size.
\<close>

definition prepare_output_buffer :: "bool \<Rightarrow> string \<Rightarrow> nat \<Rightarrow> bool \<times> string" where
  "prepare_output_buffer is_dynamic buffer n =
     (if is_dynamic then (True, take n buffer @ replicate (n - length buffer) (CHR 0x00))
      else (length buffer = n, buffer))"

definition base64_decode_into :: "bool \<Rightarrow> string \<Rightarrow> string \<Rightarrow> (bool \<times> string) result" where
  "base64_decode_into is_dynamic input buf =
     (case prepare_output_buffer is_dynamic buf (target_decoded_length input) of (ok, buf) \<Rightarrow>
        if \<not> ok then Inr (False, buf)
        else if length buf = 0 then Inr (True, buf)
        else if \<not> validate input then Inr (False, buf)
        else andThen (decode_base64 input buf) (\<lambda>buf. Inr (True, buf)))"

section \<open>Filling a buffer\<close>

text \<open>The buffer \<open>b\<close> with \<open>pre\<close> written to its front and the iterator behind it.\<close>

definition filled :: "string \<Rightarrow> string \<Rightarrow> sink" where
  "filled b pre = (pre @ drop (length pre) b, length pre)"

lemma filled_Nil: "filled b [] = (b, 0)"
  by (simp add: filled_def)

lemma put_filled: "length pre < length b \<Longrightarrow> put c (filled b pre) = filled b (pre @ [c])"
  by (simp add: put_def filled_def list_update_append Cons_nth_drop_Suc [symmetric])

lemma fold_put_filled:
  "length pre + length xs \<le> length b \<Longrightarrow>
   fold (\<lambda>i. put (f i)) xs (filled b pre) = filled b (pre @ map f xs)"
  by (induction xs arbitrary: pre) (simp_all add: put_filled)

lemma filled_full: "length pre \<le> length b \<Longrightarrow>
  filled b pre = (e, n) \<longleftrightarrow> e = pre @ drop (length pre) b \<and> n = length pre"
  by (auto simp: filled_def)

section \<open>The encoding as a bit stream\<close>

text \<open>
  The reference: the input as a stream of bits, most significant bit of each byte first and
  continued with zeros, is cut into groups of six bits; each group is one digit, and the digits
  are padded to a multiple of four.
\<close>

definition stream :: "string \<Rightarrow> nat \<Rightarrow> bool" where
  "stream s i \<longleftrightarrow> i < 8 * length s \<and> bit (byte (s ! (i div 8))) (7 - i mod 8)"

definition digit :: "string \<Rightarrow> nat \<Rightarrow> char" where
  "digit s n = lookup ! horner_sum of_bool 2 (rev (map (stream s) [6 * n..<6 * n + 6]))"

definition base64_reference :: "string \<Rightarrow> string" where
  "base64_reference s = map (digit s) [0..<(8 * length s + 5) div 6] @ replicate ((3 - length s mod 3) mod 3) (CHR ''='')"

text \<open>The block of three bytes with index \<open>k\<close>, zeros behind the end.\<close>

definition padded :: "string \<Rightarrow> nat \<Rightarrow> u32" where
  "padded s k = block False (s @ [CHR 0x00, CHR 0x00]) (3 * k)"

lemma byte_high: "8 \<le> n \<Longrightarrow> \<not> bit (byte c) n"
  using take_byte [of c] by (metis bit_take_bit_iff leD)

lemma byte_0 [simp]: "byte (CHR 0x00) = 0"
  by (simp add: byte_def)

lemma stream_zeros: "i < 8 * length (s @ [CHR 0x00, CHR 0x00]) \<Longrightarrow>
  stream s i \<longleftrightarrow> bit (byte ((s @ [CHR 0x00, CHR 0x00]) ! (i div 8))) (7 - i mod 8)"
proof (cases "i < 8 * length s")
  case True
  then have "i div 8 < length s" by linarith
  then show ?thesis using True by (simp add: stream_def nth_append)
next
  case False
  assume "i < 8 * length (s @ [CHR 0x00, CHR 0x00])"
  then have "i div 8 - length s < 2" "\<not> i div 8 < length s"
    using False by auto
  then have "i div 8 - length s = 0 \<or> i div 8 - length s = 1" "\<not> i div 8 < length s"
    by linarith+
  then have "byte ((s @ [CHR 0x00, CHR 0x00]) ! (i div 8)) = 0"
    by (auto simp: nth_append)
  then show ?thesis using False by (simp add: stream_def)
qed

lemma bit_padded:
  assumes "3 * k < length s" "q < 3" "r < 8"
  shows "bit (padded s k) (31 - (8 * q + r)) \<longleftrightarrow> stream s (24 * k + (8 * q + r))"
proof -
  let ?t = "s @ [CHR 0x00, CHR 0x00]"
  have e: "(24 * k + (8 * q + r)) div 8 = 3 * k + q" "(24 * k + (8 * q + r)) mod 8 = r"
  proof -
    have "24 * k + (8 * q + r) = r + 8 * (3 * k + q)" by simp
    then show "(24 * k + (8 * q + r)) div 8 = 3 * k + q" "(24 * k + (8 * q + r)) mod 8 = r"
      using assms(3) by (simp_all only: div_mult_self2 mod_mult_self2) simp_all
  qed
  have "stream s (24 * k + (8 * q + r)) \<longleftrightarrow> bit (byte (?t ! (3 * k + q))) (7 - r)"
    by (subst stream_zeros) (use assms in \<open>simp_all add: e\<close>)
  moreover have "bit (padded s k) (31 - (8 * q + r)) \<longleftrightarrow> bit (byte (?t ! (3 * k + q))) (7 - r)"
  proof -
    consider "q = 0" | "q = 1" | "q = 2" using assms(2) by linarith
    then show ?thesis
      using assms(3) by cases
        (simp_all add: padded_def block_def element_def bit_simps byte_high diff_diff_add add.commute [of r], auto)
  qed
  ultimately show ?thesis by simp
qed

lemma offsets_nth: "j < 4 \<Longrightarrow> offsets ! j = 26 - 6 * j"
  by (auto simp: offsets_def less_Suc_eq numeral_eq_Suc)

lemma unat_sextet:
  assumes "3 * k < length s" "j < 4"
  shows "unat (sextet (padded s k) j) = horner_sum of_bool 2 (rev (map (stream s) [6 * (4 * k + j)..<6 * (4 * k + j) + 6]))"
proof -
  let ?w = "sextet (padded s k) j"
  have b: "bit ?w m \<longleftrightarrow> m < 6 \<and> stream s (6 * (4 * k + j) + 5 - m)" for m
  proof (cases "m < 6")
    case True
    define p where "p = 26 - 6 * j + m"
    have p: "31 - (6 * j + 5 - m) = p" "24 * k + (6 * j + 5 - m) = 6 * (4 * k + j) + 5 - m"
      "26 - 6 * j \<le> p" "p < 32"
      using True assms by (auto simp: p_def)
    have "bit (padded s k) (31 - (6 * j + 5 - m)) \<longleftrightarrow> stream s (24 * k + (6 * j + 5 - m))"
      using bit_padded [OF assms(1), of "(6 * j + 5 - m) div 8" "(6 * j + 5 - m) mod 8"] assms(2) by auto
    then have "bit (padded s k) p \<longleftrightarrow> stream s (6 * (4 * k + j) + 5 - m)"
      by (simp only: p)
    moreover have "bit (0x3F::u32) m" using True
      by (simp add: numeral_eq_Suc less_Suc_eq) (elim disjE; simp add: bit_simps)
    moreover have "bit ?w m \<longleftrightarrow> bit (padded s k) p \<and> bit (0x3F::u32) m"
      using assms(2) p(3,4) by (auto simp: sextet_def offsets_nth bit_simps p_def add.commute [of m])
    ultimately show ?thesis using True by simp
  next
    case False
    then have "\<not> bit (0x3F::u32) m"
      using bit_less_32 by (auto simp: bit_simps bit_numeral_rec split: nat.splits)
    then show ?thesis using False assms(2)
      by (simp add: sextet_def offsets_nth bit_simps)
  qed
  have "take_bit 6 ?w = ?w" by (rule bit_word_eqI) (simp add: bit_simps b)
  then have "unat ?w = take_bit 6 (unat ?w)" by (metis unsigned_take_bit_eq)
  also have "\<dots> = horner_sum of_bool 2 (map (bit (unat ?w)) [0..<6])"
    by (simp only: horner_sum_bit_eq_take_bit)
  also have "map (bit (unat ?w)) [0..<6] = rev (map (stream s) [6 * (4 * k + j)..<6 * (4 * k + j) + 6])"
    by (rule nth_equalityI) (simp_all add: rev_nth bit_unsigned_iff b)
  finally show ?thesis .
qed

section \<open>Encoding follows the reference\<close>

lemma encode_fragment_filled:
  assumes "0 < m" "length pre + m + 1 \<le> length b"
  shows "encode_fragment w m (filled b pre) = filled b (pre @ map (\<lambda>i. lookup ! unat (sextet w i)) [0..<m + 1])"
  using assms by (simp only: encode_fragment_def) (subst fold_put_filled; simp)

lemma digits_of_block:
  assumes "3 * k < length s" "m < 4"
  shows "map (digit s) [4 * k..<4 * k + m + 1] = map (\<lambda>i. lookup ! unat (sextet (padded s k) i)) [0..<m + 1]"
  by (rule nth_equalityI) (use assms in \<open>simp_all add: digit_def unat_sextet del: upt_Suc upt.simps\<close>)

lemma block_padded: "3 * k + 2 < length s \<Longrightarrow> block False s (3 * k) = padded s k"
  by (simp add: padded_def block_def nth_append)

lemma encode_blocks:
  assumes "4 * k \<le> length b" "3 * k \<le> length s"
  shows "fold (\<lambda>k. encode_fragment (block False s (3 * k)) 3) [0..<k] (filled b []) = filled b (map (digit s) [0..<4 * k])"
proof (rule fold_upt_invar [where P = "\<lambda>k st. st = filled b (map (digit s) [0..<4 * k])"])
  fix i st
  assume i: "i < k" and st: "st = filled b (map (digit s) [0..<4 * i])"
  have "map (digit s) [0..<4 * Suc i] = map (digit s) [0..<4 * i] @ map (digit s) [4 * i..<4 * i + 3 + 1]"
    using upt_add_eq_append [of 0 "4 * i" 4] by (simp add: add.commute)
  moreover have "encode_fragment (padded s i) 3 st =
      filled b (map (digit s) [0..<4 * i] @ map (\<lambda>j. lookup ! unat (sextet (padded s i) j)) [0..<3 + 1])"
    unfolding st by (rule encode_fragment_filled) (use i assms in simp_all)
  ultimately show "encode_fragment (block False s (3 * i)) 3 st = filled b (map (digit s) [0..<4 * Suc i])"
    using digits_of_block [of i s 3] i assms by (simp add: block_padded del: upt_Suc upt.simps)
qed simp_all

lemma extras_padded:
  assumes "e = length s mod 3" "e \<noteq> 0"
  shows "fold (\<lambda>i x. x OR push_bit (8 * (3 - i)) (element False (s ! (length s - e + i)))) [0..<e] 0
    = padded s (length s div 3)"
proof -
  define q where "q = length s div 3"
  have len: "length s = 3 * q + e" using assms(1) by (simp add: q_def)
  have "e = 1 \<or> e = 2" using assms by linarith
  then show ?thesis unfolding q_def [symmetric] using len
    by (auto simp: padded_def block_def nth_append element_def or.assoc numeral_2_eq_2)
qed

lemma encoding_length:
  "encoding_length_padded n = (8 * n + 5) div 6 + (3 - n mod 3) mod 3" (is ?A)
  "(8 * n + 5) div 6 = 4 * (n div 3) + (if n mod 3 = 0 then 0 else n mod 3 + 1)" (is ?B)
proof -
  define q where "q = n div 3"
  have eqs: "4 * (3 * q) div 3 = 4 * q" "4 * (3 * q + 1) div 3 = 4 * q + 1" "4 * (3 * q + 2) div 3 = 4 * q + 2"
    by (rule div_nat_eqI; simp)+
  have eqs': "(8 * (3 * q) + 5) div 6 = 4 * q" "(8 * (3 * q + 1) + 5) div 6 = 4 * q + 2" "(8 * (3 * q + 2) + 5) div 6 = 4 * q + 3"
    by (rule div_nat_eqI; simp)+
  have eqs'': "4 * q mod 4 = 0" "(4 * q + 1) mod 4 = 1" "(4 * q + 2) mod 4 = 2"
    by (simp_all only: mod_mult_self4 mod_mult_self1_is_0) simp_all
  have "n = 3 * q \<or> n = 3 * q + 1 \<or> n = 3 * q + 2" unfolding q_def by linarith
  moreover have "3 * q mod 3 = 0" "(3 * q + 1) mod 3 = 1" "(3 * q + 2) mod 3 = 2"
    "3 * q div 3 = q" "(3 * q + 1) div 3 = q" "(3 * q + 2) div 3 = q"
    by (simp_all only: mod_mult_self4 mod_mult_self1_is_0) simp_all
  ultimately have "?A \<and> ?B" unfolding encoding_length_padded_def
    by (elim disjE) (simp_all only: eqs eqs' eqs'', simp_all)
  then show ?A ?B by simp_all
qed

lemma base64_encode_digits: "base64_encode False s =
  Inr (map (digit s) [0..<(8 * length s + 5) div 6] @ replicate ((3 - length s mod 3) mod 3) (CHR ''=''))"
proof -
  define e q b where "e = length s mod 3" and "q = length s div 3"
    and "b = replicate (encoding_length_padded (length s)) (CHR ''='')"
  have len: "length s = 3 * q + e" "e < 3" by (simp_all add: e_def q_def)
  have lb: "length b = 4 * q + (if e = 0 then 0 else e + 1) + (3 - e) mod 3"
    using encoding_length [of "length s"] by (simp add: b_def e_def q_def)
  have r: "(length s - e) div 3 = q" using len by simp
  have loop: "fold (\<lambda>k. encode_fragment (block False s (3 * k)) 3) [0..<(length s - e) div 3] (b, 0)
      = filled b (map (digit s) [0..<4 * q])"
    unfolding r using encode_blocks [of q b s] lb len by (simp add: filled_Nil)
  have rest: "encode_fragment (fold (\<lambda>i x. x OR push_bit (8 * (3 - i)) (element False (s ! (length s - e + i)))) [0..<e] 0)
      e (filled b (map (digit s) [0..<4 * q])) = filled b (map (digit s) [0..<(8 * length s + 5) div 6])"
  proof (cases "e = 0")
    case True
    then show ?thesis using encoding_length(2) [of "length s"]
      by (simp add: encode_fragment_def e_def q_def)
  next
    case False
    have "map (digit s) [4 * q..<4 * q + e + 1] = map (\<lambda>i. lookup ! unat (sextet (padded s q) i)) [0..<e + 1]"
      by (rule digits_of_block) (use len False in auto)
    moreover have "encode_fragment (padded s q) e (filled b (map (digit s) [0..<4 * q])) =
       filled b (map (digit s) [0..<4 * q] @ map (\<lambda>i. lookup ! unat (sextet (padded s q) i)) [0..<e + 1])"
      by (rule encode_fragment_filled) (use False lb in auto)
    moreover have "[0..<(8 * length s + 5) div 6] = [0..<4 * q] @ [4 * q..<4 * q + e + 1]"
      using encoding_length(2) [of "length s"] upt_add_eq_append [of 0 "4 * q" "e + 1"] False
      by (simp add: e_def q_def)
    ultimately show ?thesis
      using extras_padded [OF e_def False] by (simp add: q_def del: upt_Suc upt.simps)
  qed
  show ?thesis
    unfolding base64_encode_def Let_def e_def [symmetric] b_def [symmetric] loop rest
    using encoding_length [of "length s"]
    by (simp add: filled_def e_def b_def check_def)
qed


text \<open>Two bytes make three digits and a padding character.\<close>

lemma base64_encode_example: "base64_encode False ''hi'' = Inr ''aGk=''"
  by code_simp

section \<open>Decoding\<close>

lemma map_reverse_lookup: "map reverse lookup = [0..<64]"
proof -
  have "map reverse lookup = 0 # 1 # [2..<64]"
    by (simp add: lookup_def reverse_def reverse_lookup_def)
  then show ?thesis by (simp add: upt_conv_Cons numeral_2_eq_2)
qed

lemma lookup_reverse: "n < 64 \<Longrightarrow> reverse (lookup ! n) = n \<and> lookup ! n \<noteq> CHR ''=''"
proof -
  assume n: "n < 64"
  have l: "length lookup = 64" "CHR ''='' \<notin> set lookup" by (simp_all add: lookup_def)
  then have "lookup ! n \<noteq> CHR ''=''" using n nth_mem by metis
  moreover have "map reverse lookup ! n = [0..<64] ! n" by (simp only: map_reverse_lookup)
  ultimately show ?thesis using n l by simp
qed

lemma reverse_pad: "reverse (CHR ''='') = PADDING"
  by code_simp

lemma length_reverse_lookup: "length reverse_lookup = 256"
  by (simp add: reverse_lookup_def)

lemma horner_6: "horner_sum of_bool (2::nat) (rev (map P [m..<m + 6])) < 64"
proof -
  have "take_bit 6 (horner_sum of_bool (2::nat) (rev (map P [m..<m + 6]))) = horner_sum of_bool 2 (rev (map P [m..<m + 6]))"
    by (simp add: take_bit_horner_sum_bit_eq)
  then show ?thesis using take_bit_nat_less_exp [of 6 "horner_sum of_bool (2::nat) (rev (map P [m..<m + 6]))"] by (simp del: upt_Suc upt.simps)
qed

lemma reverse_digit: "reverse (digit s n) < 64" "digit s n \<noteq> CHR ''=''"
  "reverse (digit s n) = horner_sum of_bool 2 (rev (map (stream s) [6 * n..<6 * n + 6]))"
  using lookup_reverse [OF horner_6, of "stream s" "6 * n"] horner_6 [of "stream s" "6 * n"]
  by (simp_all add: digit_def)

lemma reverse_sextet:
  assumes "3 * k < length s" "j < 4"
  shows "of_nat (reverse (digit s (4 * k + j))) = sextet (padded s k) j"
  using assms by (simp only: reverse_digit unat_sextet [symmetric] of_nat_unat ucast_id)

lemma gather_digits:
  assumes "3 * k < length s" "m \<le> 4" "\<And>j. j < m \<Longrightarrow> input ! (4 * k + j) = digit s (4 * k + j)"
  shows "gather input (4 * k) m = fold (\<lambda>j fragment. fragment OR push_bit (offsets ! j) (sextet (padded s k) j)) [0..<m] 0"
  unfolding gather_def
  by (rule fold_cong) (use assms in \<open>simp_all add: reverse_sextet\<close>)

lemma block_byte:
  assumes "\<And>n. 8 \<le> n \<Longrightarrow> \<not> bit a n" "\<And>n. 8 \<le> n \<Longrightarrow> \<not> bit b n" "\<And>n. 8 \<le> n \<Longrightarrow> \<not> bit c n"
    and w: "w = push_bit 24 a OR push_bit 16 b OR push_bit 8 (c :: u32)"
  shows "take_bit 8 (drop_bit 24 (push_bit 26 (sextet w 0) OR push_bit 20 (sextet w 1))) = a"
    and "take_bit 8 (drop_bit 16 (push_bit 26 (sextet w 0) OR push_bit 20 (sextet w 1) OR push_bit 14 (sextet w 2))) = b"
    and "take_bit 8 (drop_bit 24 (push_bit 26 (sextet w 0) OR push_bit 20 (sextet w 1) OR push_bit 14 (sextet w 2))) = a"
    and "push_bit 26 (sextet w 0) OR push_bit 20 (sextet w 1) OR push_bit 14 (sextet w 2) OR push_bit 8 (sextet w 3) = w"
    and "take_bit 8 (drop_bit 24 w) = a" "take_bit 8 (drop_bit 16 w) = b" "take_bit 8 (drop_bit 8 w) = c"
  unfolding w using assms(1-3)
  by (simp_all add: sextet_def offsets_def u32_eq_iff idx32_def bit_simps,
    simp_all add: numeral_eq_Suc)

lemma gather_block:
  assumes "3 * k < length s" "\<And>j. j < m \<Longrightarrow> input ! (4 * k + j) = digit s (4 * k + j)"
  shows "m = 4 \<Longrightarrow> gather input (4 * k) m = padded s k"
    and "m = 3 \<Longrightarrow> gather input (4 * k) m = push_bit 26 (sextet (padded s k) 0)
      OR push_bit 20 (sextet (padded s k) 1) OR push_bit 14 (sextet (padded s k) 2)"
    and "m = 2 \<Longrightarrow> gather input (4 * k) m = push_bit 26 (sextet (padded s k) 0)
      OR push_bit 20 (sextet (padded s k) 1)"
proof -
  have four: "push_bit 26 (sextet (padded s k) 0) OR push_bit 20 (sextet (padded s k) 1)
      OR push_bit 14 (sextet (padded s k) 2) OR push_bit 8 (sextet (padded s k) 3) = padded s k"
    unfolding padded_def block_def element_def if_False
    by (rule block_byte(4) [OF _ _ _ refl]) (simp_all add: byte_high)
  have g: "gather input (4 * k) m = fold (\<lambda>j fragment. fragment OR push_bit (offsets ! j) (sextet (padded s k) j)) [0..<m] 0"
    if "m \<le> 4" using gather_digits [OF assms(1) that assms(2)] .
  have offs: "offsets ! 0 = 26" "offsets ! 1 = 20" "offsets ! 2 = 14" "offsets ! 3 = 8" by (simp_all add: offsets_def)
  have upts: "[0..<4] = [0, 1, 2, 3::nat]" "[0..<3] = [0, 1, 2::nat]" "[0..<2] = [0, 1::nat]"
    by (simp_all add: upt_rec)
  show "m = 4 \<Longrightarrow> gather input (4 * k) m = padded s k"
    using g four by (simp add: upts offs or.assoc del: One_nat_def)
  show "m = 3 \<Longrightarrow> gather input (4 * k) m = push_bit 26 (sextet (padded s k) 0)
      OR push_bit 20 (sextet (padded s k) 1) OR push_bit 14 (sextet (padded s k) 2)"
    using g by (simp add: upts offs or.assoc del: One_nat_def)
  show "m = 2 \<Longrightarrow> gather input (4 * k) m = push_bit 26 (sextet (padded s k) 0)
      OR push_bit 20 (sextet (padded s k) 1)"
    using g by (simp add: upts offs or.assoc del: One_nat_def)
qed

text \<open>Decoding the digits of the block \<open>k\<close> writes its bytes.\<close>

lemma emit_block:
  assumes "3 * k + q \<le> length s" "q \<in> {1, 2, 3}"
    and "\<And>j. j < q + 1 \<Longrightarrow> input ! (4 * k + j) = digit s (4 * k + j)"
    and "length pre + q \<le> length b"
  shows "emit (gather input (4 * k) (q + 1)) (3 - q) (filled b pre) = filled b (pre @ map ((!) s) [3 * k..<3 * k + q])"
proof -
  let ?t = "s @ [CHR 0x00, CHR 0x00]"
  have k: "3 * k < length s" using assms(1,2) by auto
  define a1 a2 a3 where a: "a1 = byte (?t ! (3 * k))" "a2 = byte (?t ! (3 * k + 1))" "a3 = byte (?t ! (3 * k + 2))"
  have w: "padded s k = push_bit 24 a1 OR push_bit 16 a2 OR push_bit 8 a3"
    by (simp add: a padded_def block_def element_def)
  note bytes = block_byte [OF _ _ _ w]
  have high: "8 \<le> n \<Longrightarrow> \<not> bit a1 n" "8 \<le> n \<Longrightarrow> \<not> bit a2 n" "8 \<le> n \<Longrightarrow> \<not> bit a3 n" for n
    by (simp_all add: a byte_high)
  define g where "g = gather input (4 * k) (q + 1)"
  consider "q = 1" | "q = 2" | "q = 3" using assms(2) by blast
  then show ?thesis
  proof cases
    case 1
    then have "to_char (drop_bit 24 g) = s ! (3 * k)"
      using gather_block(3) [OF k assms(3)] bytes(1) [OF high] k
      by (simp add: numeral_2_eq_2 g_def to_char_eq a nth_append)
    then show ?thesis unfolding g_def [symmetric] using 1 assms(4) by (simp add: emit_def put_filled)
  next
    case 2
    then have "to_char (drop_bit 24 g) = s ! (3 * k)" "to_char (drop_bit 16 g) = s ! (3 * k + 1)"
      using gather_block(2) [OF k assms(3)] bytes(2,3) [OF high] k assms(1)
      by (simp_all add: g_def to_char_eq a nth_append)
    then show ?thesis unfolding g_def [symmetric] using 2 assms(4) by (simp add: emit_def put_filled upt_rec)
  next
    case 3
    then have "to_char (drop_bit 24 g) = s ! (3 * k)" "to_char (drop_bit 16 g) = s ! (3 * k + 1)"
        "to_char (drop_bit 8 g) = s ! (3 * k + 2)"
      using gather_block(1) [OF k assms(3)] bytes(5-7) [OF high] k assms(1)
      by (simp_all add: g_def to_char_eq a nth_append)
    then show ?thesis unfolding g_def [symmetric] using 3 assms(4) by (simp add: emit_def put_filled upt_rec)
  qed
qed

lemma decode_blocks:
  assumes "3 * k \<le> length s" "3 * k \<le> length b" "\<And>i. i < 4 * k \<Longrightarrow> input ! i = digit s i"
  shows "fold (\<lambda>k. emit (gather input (4 * k) 4) 0) [0..<k] (filled b []) = filled b (take (3 * k) s)"
proof (rule fold_upt_invar [where P = "\<lambda>k st. st = filled b (take (3 * k) s)"])
  fix i st
  assume i: "i < k" and st: "st = filled b (take (3 * i) s)"
  have "take (3 * Suc i) s = take (3 * i) s @ map ((!) s) [3 * i..<3 * i + 3]"
    using i assms(1) by (simp add: take_nths upt_add_eq_append [symmetric] map_append [symmetric]
      add.commute [of 3] del: map_append upt_Suc upt.simps)
  then show "emit (gather input (4 * i) 4) 0 st = filled b (take (3 * Suc i) s)"
    unfolding st using emit_block [of i 3 s input "take (3 * i) s" b] i assms by simp
qed simp_all

section \<open>The round trip\<close>

lemma digit_not_padding: "is_not_padding (digit s n)" "\<not> is_invalid (digit s n)" "digit s n \<noteq> CHR ''=''"
  using reverse_digit [of s n] by (simp_all add: is_not_padding_def is_invalid_def PADDING_def INVALID_def)

lemma pad_is_padding: "\<not> is_not_padding (CHR ''='')" "\<not> is_invalid (CHR ''='')"
  by (simp_all add: is_not_padding_def is_invalid_def reverse_pad PADDING_def INVALID_def)

lemma digits_length: "3 * ((8 * n + 5) div 6) div 4 = n" for n :: nat
proof -
  define q where "q = n div 3"
  have "n = 3 * q \<or> n = 3 * q + 1 \<or> n = 3 * q + 2" unfolding q_def by linarith
  moreover have "3 * (4 * q) div 4 = 3 * q" "3 * (4 * q + 2) div 4 = 3 * q + 1" "3 * (4 * q + 3) div 4 = 3 * q + 2"
    by (rule div_nat_eqI; simp)+
  moreover have "(8 * (3 * q) + 5) div 6 = 4 * q" "(8 * (3 * q + 1) + 5) div 6 = 4 * q + 2" "(8 * (3 * q + 2) + 5) div 6 = 4 * q + 3"
    by (rule div_nat_eqI; simp)+
  ultimately show ?thesis by (elim disjE) (simp_all only:)
qed

lemma reference_valid: "validate (base64_reference s)"
proof -
  let ?n = "(3 - length s mod 3) mod 3"
  have "length (base64_reference s) = encoding_length_padded (length s)"
    using encoding_length(1) [of "length s"] by (simp add: base64_reference_def)
  moreover have "(m + (4 - m mod 4) mod 4) mod 4 = 0" for m :: nat
  proof -
    have "m mod 4 \<in> {0, 1, 2, 3}" by auto
    then have "(m mod 4 + (4 - m mod 4) mod 4) mod 4 = 0" by auto
    then show ?thesis by (simp only: mod_add_left_eq)
  qed
  ultimately have "length (base64_reference s) mod 4 = 0"
    by (simp only: encoding_length_padded_def)
  moreover have "\<not> list_ex is_invalid (base64_reference s)"
    by (auto simp: base64_reference_def list_ex_iff digit_not_padding pad_is_padding)
  moreover have "dropWhile (\<lambda>c. c \<noteq> CHR ''='') (base64_reference s) = replicate ?n (CHR ''='')"
    unfolding base64_reference_def
    by (subst dropWhile_append2) (auto simp: digit_not_padding dropWhile_eq_self_iff)
  moreover have "?n \<le> 2" by linarith
  ultimately show ?thesis
    by (auto simp: validate_def list_ex_iff pad_is_padding)
qed

lemma reference_unpadded: "source_length_unpadded (base64_reference s) = (8 * length s + 5) div 6"
proof -
  have "filter is_not_padding (map (digit s) xs) = map (digit s) xs" for xs
    by (simp add: filter_id_conv digit_not_padding)
  moreover have "filter is_not_padding (replicate n (CHR ''='')) = []" for n
    by (simp add: filter_empty_conv pad_is_padding)
  ultimately show ?thesis
    by (simp only: source_length_unpadded_def base64_reference_def filter_append) simp
qed

lemma reference_nth: "i < (8 * length s + 5) div 6 \<Longrightarrow> base64_reference s ! i = digit s i"
  by (simp add: base64_reference_def nth_append)

lemma decode_reference:
  assumes "length b = length s"
  shows "decode_base64 (base64_reference s) b = Inr s"
proof -
  define q e m where "q = length s div 3" and "e = length s mod 3" and "m = (8 * length s + 5) div 6"
  have len: "length s = 3 * q + e" "e < 3" by (simp_all add: q_def e_def)
  have m: "m = 4 * q + (if e = 0 then 0 else e + 1)"
    using encoding_length(2) [of "length s"] by (simp add: m_def q_def e_def)
  have unp: "source_length_unpadded (base64_reference s) = m"
    by (simp add: reference_unpadded m_def)
  have mm: "m mod 4 = m - 4 * q" "(m - (m - 4 * q)) div 4 = q" "m - (m - 4 * q) = 4 * q" "m - 4 * q = (if e = 0 then 0 else e + 1)"
    using len(2) by (simp_all add: m)
  have inp: "base64_reference s ! i = digit s i" if "i < m" for i
    using reference_nth that by (simp add: m_def)
  have loop: "fold (\<lambda>k. emit (gather (base64_reference s) (4 * k) 4) 0) [0..<q] (b, 0) = filled b (take (3 * q) s)"
    using decode_blocks [of q s b "base64_reference s"] inp assms len m by (simp add: filled_Nil)
  show ?thesis
  proof (cases "e = 0")
    case True
    then show ?thesis using loop assms len
      unfolding decode_base64_def unp Let_def mm(1-3) by (simp add: loop mm(4) filled_def)
  next
    case False
    then have e: "e \<in> {1, 2}" using len(2) by auto
    have lm: "length_map ! (e + 1) = 3 - e" using e by (auto simp: length_map_def)
    have "emit (gather (base64_reference s) (4 * q) (e + 1)) (3 - e) (filled b (take (3 * q) s))
        = filled b (take (3 * q) s @ map ((!) s) [3 * q..<3 * q + e])"
      by (rule emit_block) (use e len m inp assms in auto)
    also have "take (3 * q) s @ map ((!) s) [3 * q..<3 * q + e] = s"
      using len map_nth [of s] by (subst take_nths) (simp_all add: map_append [symmetric]
        upt_add_eq_append [symmetric] del: map_append upt_Suc upt.simps)
    finally show ?thesis using assms False lm
      unfolding decode_base64_def unp Let_def mm(1-3) by (simp add: loop mm(4) filled_def)
  qed
qed


section \<open>Inputs of the decoder\<close>

text \<open>The table has each digit value once, so the characters it maps to them are the digits.\<close>

lemma table_preimage:
  assumes "length (filter P reverse_lookup) = card C" "\<And>c. c \<in> C \<Longrightarrow> P (reverse c)" "finite C" "P (reverse c)"
  shows "c \<in> C"
proof -
  let ?I = "{i. i < length reverse_lookup \<and> P (reverse_lookup ! i)}"
  have i: "of_char d \<in> ?I" if "P (reverse d)" for d
    using that nat_of_char_less_256 [of d] by (simp add: reverse_def length_reverse_lookup)
  have "card ?I = card C" using assms(1) by (simp add: length_filter_conv_card)
  moreover have "card (of_char ` C :: nat set) = card C"
    by (rule card_image) (simp add: inj_on_def)
  moreover have "of_char ` C \<subseteq> ?I" using i assms(2) by auto
  ultimately have "of_char ` C = ?I" by (intro card_subset_eq) simp_all
  then have "of_char c \<in> (of_char ` C :: nat set)" using i [OF assms(4)] by simp
  then show ?thesis by auto
qed

lemma reverse_digit_iff: "reverse c < 64 \<longleftrightarrow> c \<in> set lookup"
proof
  assume "reverse c < 64"
  then show "c \<in> set lookup"
  proof (rule table_preimage [rotated 3])
    have "distinct lookup" by (simp add: lookup_def)
    then show "length (filter (\<lambda>v. v < 64) reverse_lookup) = card (set lookup)"
      by (simp only: distinct_card) (simp add: reverse_lookup_def lookup_def)
    show "reverse c < 64" if "c \<in> set lookup" for c
    proof -
      have "reverse c \<in> set (map reverse lookup)" using that by simp
      then show ?thesis by (simp only: map_reverse_lookup) simp
    qed
  qed simp
next
  assume "c \<in> set lookup"
  then have "reverse c \<in> set (map reverse lookup)" by simp
  then show "reverse c < 64" by (simp only: map_reverse_lookup) simp
qed

lemma reverse_padding_iff: "reverse c = PADDING \<longleftrightarrow> c = CHR ''=''"
proof
  assume "reverse c = PADDING"
  then have "c \<in> {CHR ''=''}"
  proof (rule table_preimage [rotated 3])
    show "length (filter (\<lambda>v. v = PADDING) reverse_lookup) = card {CHR ''=''}"
      by (simp add: reverse_lookup_def PADDING_def)
  qed (simp_all add: reverse_pad)
  then show "c = CHR ''=''" by simp
qed (simp add: reverse_pad)

lemma reverse_invalid_iff: "is_invalid c \<longleftrightarrow> c \<notin> set lookup \<and> c \<noteq> CHR ''=''"
proof -
  have "list_all (\<lambda>v. v < 64 \<or> v = 64 \<or> v = 65) reverse_lookup" by (simp add: reverse_lookup_def list_all_iff)
  then have "reverse c < 64 \<or> reverse c = 64 \<or> reverse c = 65"
    using nat_of_char_less_256 [of c]
    by (simp only: list_all_length length_reverse_lookup reverse_def)
  moreover have "is_invalid c \<longleftrightarrow> reverse c = 64" by (simp add: is_invalid_def INVALID_def)
  ultimately show ?thesis
    using reverse_digit_iff [of c] reverse_padding_iff [of c] by (auto simp: PADDING_def)
qed

lemma not_padding_iff: "is_not_padding c \<longleftrightarrow> c \<noteq> CHR ''=''"
  by (simp add: is_not_padding_def reverse_padding_iff)

text \<open>
  \<open>validate\<close> accepts exactly the sequences of digits that are continued by at most two padding
  characters to a multiple of four.
\<close>

lemma validate_conditions: "validate b \<longleftrightarrow> length b mod 4 = 0 \<and> \<not> list_ex is_invalid b
  \<and> length (dropWhile (\<lambda>c. c \<noteq> CHR ''='') b) \<le> 2 \<and> \<not> list_ex is_not_padding (dropWhile (\<lambda>c. c \<noteq> CHR ''='') b)"
  by (simp add: validate_def Let_def not_less)

lemma validate_iff: "validate b \<longleftrightarrow>
    (\<exists>ds p. b = ds @ replicate p (CHR ''='') \<and> set ds \<subseteq> set lookup \<and> p \<le> 2 \<and> (length ds + p) mod 4 = 0)"
    (is "_ \<longleftrightarrow> ?R")
proof
  assume v: "validate b"
  define ds pad where "ds = takeWhile (\<lambda>c. c \<noteq> CHR ''='') b" and "pad = dropWhile (\<lambda>c. c \<noteq> CHR ''='') b"
  have b: "b = ds @ pad" by (simp add: ds_def pad_def)
  have "\<not> list_ex is_not_padding pad" "length pad \<le> 2" "length b mod 4 = 0" "\<not> list_ex is_invalid b"
    using v by (simp_all add: validate_conditions pad_def)
  moreover from this(1) have "pad = replicate (length pad) (CHR ''='')"
    by (simp add: list_ex_iff not_padding_iff replicate_length_same)
  moreover have "set ds \<subseteq> set lookup"
  proof
    fix c assume "c \<in> set ds"
    then have "c \<noteq> CHR ''=''" "c \<in> set b" by (auto simp: ds_def dest: set_takeWhileD)
    then show "c \<in> set lookup"
      using \<open>\<not> list_ex is_invalid b\<close> by (auto simp: list_ex_iff reverse_invalid_iff)
  qed
  ultimately show ?R using b by (metis length_append)
next
  assume ?R
  then obtain ds p where b: "b = ds @ replicate p (CHR ''='')" and ds: "set ds \<subseteq> set lookup"
    and p: "p \<le> 2" "(length ds + p) mod 4 = 0" by (elim exE conjE)
  have "CHR ''='' \<notin> set lookup" by (simp add: lookup_def)
  then have "dropWhile (\<lambda>c. c \<noteq> CHR ''='') b = replicate p (CHR ''='')"
    unfolding b using ds by (subst dropWhile_append2) (auto simp: dropWhile_eq_self_iff)
  moreover have "\<not> list_ex is_invalid b"
    using ds by (auto simp: b list_ex_iff reverse_invalid_iff)
  ultimately show "validate b"
    using p by (auto simp: validate_def b list_ex_iff not_padding_iff)
qed

lemma emit_filled:
  assumes "length pre + (3 - stop) \<le> length b"
  shows "\<exists>xs. emit g stop (filled b pre) = filled b (pre @ xs) \<and> length xs = 3 - stop"
  unfolding emit_def using assms by (subst fold_put_filled) auto

lemma emit_loop:
  assumes "3 * k \<le> length b"
  shows "\<exists>pre. fold (\<lambda>k. emit (g k) 0) [0..<k] (b, 0) = filled b pre \<and> length pre = 3 * k"
proof (rule fold_upt_invar [where P = "\<lambda>k st. \<exists>pre. st = filled b pre \<and> length pre = 3 * k"])
  fix i st
  assume "i < k" and "\<exists>pre. st = filled b pre \<and> length pre = 3 * i"
  then obtain pre where "st = filled b pre" "length pre = 3 * i" "3 * i + 3 \<le> length b" using assms by auto
  then show "\<exists>pre. emit (g i) 0 st = filled b pre \<and> length pre = 3 * Suc i"
    using emit_filled [of pre 0 b "g i"] by auto
qed (auto simp: filled_Nil [symmetric])

lemma decode_fills:
  assumes "length b = 3 * source_length_unpadded s div 4" "source_length_unpadded s mod 4 \<noteq> 1"
  shows "\<exists>out. decode_base64 s b = Inr out \<and> length out = length b"
proof -
  define n q where "n = source_length_unpadded s" and "q = n div 4"
  have n: "n = 4 * q + n mod 4" by (simp add: q_def)
  have r: "n mod 4 = 0 \<or> n mod 4 = 2 \<or> n mod 4 = 3" using assms(2) unfolding n_def by linarith
  have lb: "length b = 3 * q + (n mod 4 - 1)" using r n assms(1) unfolding n_def by auto
  have q: "(n - n mod 4) div 4 = q" using n by linarith
  obtain pre where pre: "fold (\<lambda>k. emit (gather s (4 * k) 4) 0) [0..<q] (b, 0) = filled b pre" "length pre = 3 * q"
    using emit_loop [of q b "\<lambda>k. gather s (4 * k) 4"] lb by auto
  show ?thesis
  proof (cases "n mod 4 = 0")
    case True
    then show ?thesis using pre lb
      by (simp add: decode_base64_def n_def [symmetric] Let_def q_def [symmetric] filled_def)
  next
    case False
    then have "length_map ! (n mod 4) = 4 - n mod 4" using r by (auto simp: length_map_def)
    moreover have "length pre + (3 - (4 - n mod 4)) \<le> length b" using r lb pre(2) False by auto
    ultimately obtain xs where xs: "emit (gather s (n - n mod 4) (n mod 4)) (length_map ! (n mod 4)) (filled b pre)
        = filled b (pre @ xs)" "length xs = n mod 4 - 1"
      using emit_filled [of pre "4 - n mod 4" b "gather s (n - n mod 4) (n mod 4)"] r False by auto
    show ?thesis using pre lb False xs
      unfolding decode_base64_def n_def [symmetric] Let_def q by (simp add: filled_def)
  qed
qed


section \<open>Deviations\<close>

text \<open>A container of signed characters: the sign bits of a byte overwrite the bytes before it.\<close>

lemma signed_elements_corrupt:
  "base64_encode True [CHR ''a'', CHR 0x80, CHR ''b''] = Inr ''/4Bi''"
  "base64_encode False [CHR ''a'', CHR 0x80, CHR ''b''] = Inr ''YYBi''"
  by code_simp+

text \<open>The overload with an output buffer reports success for invalid inputs without a decoded byte.\<close>

lemma decode_into_accepts_invalid:
  "base64_decode_into True ''===='' [] = Inr (True, [])" "\<not> validate ''====''"
  "base64_decode_into True ''A'' [] = Inr (True, [])" "\<not> validate ''A''"
  by code_simp+

end
