(* ===== verification/Handshake.thy ===== *)
theory Handshake
  imports Base64
begin

text \<open>
  The opening handshake of a WebSocket connection (\<open>nbdl/include/nbdl/websocket/detail/\<close>:
  \<open>parse_handshake_request.hpp\<close>, \<open>expect_equal.hpp\<close>, \<open>get_auth_token.hpp\<close>,
  \<open>send_handshake_request.hpp\<close>, \<open>send_handshake_response.hpp\<close>, \<open>parse_handshake_response.hpp\<close>).
  A socket is the text it will deliver. \<open>SHA-1\<close> is code of another project and a parameter.
\<close>

section \<open>Steps\<close>

text \<open>A promise resolves, rejects with an error code, or rejects the request.\<close>

datatype 'a promise = Resolve 'a | RejectError | BadRequest

definition expect_equal :: "string \<Rightarrow> string \<Rightarrow> string promise" where
  "expect_equal str socket =
     (if length socket < length str then RejectError
      else if take (length str) socket = str then Resolve (drop (length str) socket)
      else BadRequest)"

section \<open>The request, at the server\<close>

record handshake_info_t =
  websocket_key :: string
  cookies :: string

definition tolower :: "char \<Rightarrow> char" where
  "tolower c = (if of_char c \<in> {65..90::nat} then char_of (of_char c + 32 :: nat) else c)"

text \<open>
  \<open>std::find(b, e, c)\<close> is the length of the prefix without \<open>c\<close>. \<open>std::next(token_pos)\<close> of a header
  without a colon is outside the string.
\<close>

definition header_value :: "string \<Rightarrow> nat \<Rightarrow> string result" where
  "header_value header token_pos =
     (if token_pos = length header then Inl BufferOverread
      else Inr (dropWhile (\<lambda>c. c = CHR '' '') (drop (token_pos + 1) header)))"

definition parse_header :: "handshake_info_t \<Rightarrow> string \<Rightarrow> handshake_info_t result" where
  "parse_header handshake_info header =
     (let token_pos = length (takeWhile (\<lambda>c. c \<noteq> CHR '':'') header);
          name = map tolower (take token_pos header);
          header = name @ drop token_pos header
      in if name = ''sec-websocket-key'' then
           andThen (header_value header token_pos) (\<lambda>v. Inr (handshake_info\<lparr>websocket_key := v\<rparr>))
         else if name = ''cookies'' then
           andThen (header_value header token_pos) (\<lambda>v. Inr (handshake_info\<lparr>cookies := v\<rparr>))
         else Inr handshake_info)"

definition CRLF :: string where
  "CRLF = [CHR 0x0D, CHR 0x0A]"

text \<open>
  \<open>asio::async_read_until(socket, buffer, "\r\n")\<close>: the number of bytes up to and including the first
  delimiter, of everything that arrives; the read fails when there is no delimiter or when the
  buffer reaches its maximum size of 256 bytes before it.
\<close>

fun read_until :: "string \<Rightarrow> nat option" where
  "read_until (c # d # cs) = (if [c, d] = CRLF then Some 2 else map_option Suc (read_until (d # cs)))"
| "read_until _ = None"

definition max_header :: nat where
  "max_header = 256"

declare andThen_cong [fundef_cong]

lemma read_until_le: "read_until s = Some n \<Longrightarrow> n \<le> length s \<and> 2 \<le> n"
  by (induction s arbitrary: n rule: read_until.induct) (auto split: if_splits)

function read_headers :: "handshake_info_t \<Rightarrow> string \<Rightarrow> (string \<times> handshake_info_t) promise result" where
  "read_headers handshake_info buffer = (case read_until buffer of
     None \<Rightarrow> Inr RejectError
   | Some sz \<Rightarrow>
       if max_header < sz then Inr RejectError
       else if 2 < sz then
         andThen (parse_header handshake_info (take (sz - 2) buffer)) (\<lambda>info. read_headers info (drop sz buffer))
       else Inr (Resolve (drop sz buffer, handshake_info)))"
  by auto

termination read_headers
  by (relation "measure (\<lambda>(i, b). length b)") (auto dest!: read_until_le)

declare read_headers.simps [simp del]

definition handshake_info_new :: handshake_info_t where
  "handshake_info_new = \<lparr>websocket_key = [], cookies = []\<rparr>"

definition parse_handshake_request :: "string \<Rightarrow> (string \<times> handshake_info_t) promise result" where
  "parse_handshake_request socket = (case expect_equal (''GET / HTTP/1.1'' @ CRLF) socket of
     Resolve socket \<Rightarrow> read_headers handshake_info_new socket
   | RejectError \<Rightarrow> Inr RejectError
   | BadRequest \<Rightarrow> Inr BadRequest)"

section \<open>The cookie\<close>

definition find_semicolon :: "string \<Rightarrow> string" where
  "find_semicolon s = dropWhile (\<lambda>c. c \<noteq> CHR '';'') s"

text \<open>Iterators into the cookies are the text from them to the end.\<close>

definition check_auth_cookie :: "string \<Rightarrow> string" where
  "check_auth_cookie s =
     (let nbdl_auth_sv = ''nbdl_auth='' in
      if length nbdl_auth_sv \<le> length s \<and> take (length nbdl_auth_sv) s = nbdl_auth_sv
      then drop (length nbdl_auth_sv) s
      else find_semicolon s)"

definition take_cookie_value :: "string \<Rightarrow> string" where
  "take_cookie_value s = takeWhile (\<lambda>c. c \<noteq> CHR '';'') s"

lemma check_auth_cookie_le: "length (check_auth_cookie s) \<le> length s"
  by (auto simp: check_auth_cookie_def find_semicolon_def length_dropWhile_le Let_def)

text \<open>\<open>*current\<close> at the end of a string is its terminating NUL.\<close>

function get_auth_token :: "string \<Rightarrow> string" where
  "get_auth_token current =
     (if current = [] then []
      else if check_auth_cookie current \<noteq> [] \<and> hd (check_auth_cookie current) = CHR '';'' then
        if 2 < length (check_auth_cookie current)
        then get_auth_token (drop 2 (check_auth_cookie current))
        else []
      else take_cookie_value (check_auth_cookie current))"
  by auto

termination get_auth_token
proof (relation "measure length", simp, goal_cases)
  case (1 current)
  then show ?case using check_auth_cookie_le [of current] by auto
qed

declare get_auth_token.simps [simp del]

section \<open>The messages\<close>

definition send_handshake_request :: "string \<Rightarrow> string \<Rightarrow> string" where
  "send_handshake_request origin auth_token =
     ''GET / HTTP/1.1'' @ CRLF @ ''Host: nbdl'' @ CRLF @ ''Origin:'' @ origin @ CRLF
     @ ''Upgrade: websocket'' @ CRLF @ ''Connection: Upgrade'' @ CRLF
     @ ''Sec-WebSocket-Key: dGhlIHNhbXBsZSBub25jZQ=='' @ CRLF @ ''Sec-WebSocket-Version: 13'' @ CRLF
     @ ''Cookies: nbdl_auth='' @ auth_token @ '';'' @ CRLF @ CRLF"

text \<open>\<open>sha1\<close> maps a text to its digest.\<close>

definition generate_accept_token :: "(string \<Rightarrow> string) \<Rightarrow> string \<Rightarrow> string result" where
  "generate_accept_token sha1 key =
     base64_encode False (sha1 (key @ ''258EAFA5-E914-47DA-95CA-C5AB0DC85B11''))"

definition response_start :: string where
  "response_start = ''HTTP/1.1 101 Switching Protocols'' @ CRLF @ ''Upgrade: websocket'' @ CRLF
     @ ''Connection: Upgrade'' @ CRLF @ ''Sec-WebSocket-Accept: ''"

definition response_end :: string where
  "response_end = CRLF @ CRLF"

text \<open>The response and the authentication token that is passed on.\<close>

definition send_handshake_response :: "(string \<Rightarrow> string) \<Rightarrow> handshake_info_t \<Rightarrow> (string \<times> string) result" where
  "send_handshake_response sha1 info = andThen (generate_accept_token sha1 (websocket_key info)) (\<lambda>accept_token.
     Inr (response_start @ accept_token @ response_end, get_auth_token (cookies info)))"

definition parse_handshake_response :: "string \<Rightarrow> string promise" where
  "parse_handshake_response socket = expect_equal (''HTTP/1.1 101 Switching Protocols'' @ CRLF
     @ ''Upgrade: websocket'' @ CRLF @ ''Connection: Upgrade'' @ CRLF
     @ ''Sec-WebSocket-Accept: s3pPLMBiTxaQ9kYGzzhZRbK+xOo='' @ CRLF @ CRLF) socket"

text \<open>
  \<open>server_endpoint_init\<close>: the handler is called ready with the token, or with a bad request or an error;
  a write of the response does not fail here.
\<close>

datatype opened = Ready string | Bad_Request | Error_Code

definition server_endpoint_init :: "(string \<Rightarrow> string) \<Rightarrow> string \<Rightarrow> (opened \<times> string) result" where
  "server_endpoint_init sha1 socket = andThen (parse_handshake_request socket) (\<lambda>r. case r of
     Resolve (rest, info) \<Rightarrow> andThen (send_handshake_response sha1 info) (\<lambda>(response, auth_token).
       Inr (Ready auth_token, response))
   | RejectError \<Rightarrow> Inr (Error_Code, [])
   | BadRequest \<Rightarrow> Inr (Bad_Request, []))"

definition client_endpoint_init :: "string \<Rightarrow> opened" where
  "client_endpoint_init socket = (case parse_handshake_response socket of
     Resolve rest \<Rightarrow> Ready [] | RejectError \<Rightarrow> Error_Code | BadRequest \<Rightarrow> Bad_Request)"

section \<open>Reading headers\<close>

lemma length_CRLF: "length CRLF = 2"
  by (simp add: CRLF_def)

lemma read_until_line: "CHR 0x0D \<notin> set line \<Longrightarrow> read_until (line @ CRLF @ rest) = Some (length line + 2)"
proof (induction line)
  case Nil
  then show ?case by (simp add: CRLF_def)
next
  case (Cons c line)
  obtain d ds where d: "line @ CRLF @ rest = d # ds" by (cases line) (auto simp: CRLF_def)
  have "read_until (c # line @ CRLF @ rest) = map_option Suc (read_until (line @ CRLF @ rest))"
    unfolding d using Cons.prems by (auto simp: CRLF_def)
  then show ?case using Cons by simp
qed

lemma read_header_line:
  assumes "CHR 0x0D \<notin> set line" "line \<noteq> []" "length line \<le> 254"
  shows "read_headers info (line @ CRLF @ rest) = andThen (parse_header info line) (\<lambda>info. read_headers info rest)"
  using assms by (subst read_headers.simps) (simp add: read_until_line max_header_def length_CRLF)

lemma read_headers_end: "read_headers info (CRLF @ rest) = Inr (Resolve (rest, info))"
  by (subst read_headers.simps) (use read_until_line [of "[]" rest] in \<open>simp add: max_header_def CRLF_def\<close>)

lemma parse_header_named:
  assumes "CHR '':'' \<notin> set name" "map tolower name = key"
  shows "parse_header info (name @ CHR '':'' # v) =
    (if key = ''sec-websocket-key'' then Inr (info\<lparr>websocket_key := dropWhile (\<lambda>c. c = CHR '' '') v\<rparr>)
     else if key = ''cookies'' then Inr (info\<lparr>cookies := dropWhile (\<lambda>c. c = CHR '' '') v\<rparr>)
     else Inr info)"
proof -
  have "takeWhile (\<lambda>c. c \<noteq> CHR '':'') (name @ CHR '':'' # v) = name"
    using assms(1) by (subst takeWhile_append2) auto
  then have pos: "length (takeWhile (\<lambda>c. c \<noteq> CHR '':'') (name @ CHR '':'' # v)) = length name" by simp
  have "length key = length name" using assms(2) by auto
  then have "header_value (key @ drop (length name) (name @ CHR '':'' # v)) (length name)
      = Inr (dropWhile (\<lambda>c. c = CHR '' '') v)"
    by (simp add: header_value_def)
  moreover have "map tolower (take (length name) (name @ CHR '':'' # v)) = key" using assms(2) by simp
  ultimately show ?thesis
    unfolding parse_header_def Let_def pos by (simp only: andThen.simps)
qed

section \<open>The cookie of the token\<close>

lemma find_semicolon_at: "CHR '';'' \<notin> set c \<Longrightarrow> find_semicolon (c @ CHR '';'' # rest) = CHR '';'' # rest"
  unfolding find_semicolon_def by (subst dropWhile_append2) auto

lemma check_auth_cookie_take: "check_auth_cookie s =
  (if take 10 s = ''nbdl_auth='' then drop 10 s else find_semicolon s)"
proof -
  have l: "length ''nbdl_auth='' = 10" by simp
  have "10 \<le> length s" if "take 10 s = ''nbdl_auth=''"
    using arg_cong [OF that, of length] by (simp only: l length_take)
  then have c: "10 \<le> length s \<and> take 10 s = ''nbdl_auth='' \<longleftrightarrow> take 10 s = ''nbdl_auth=''" by blast
  show ?thesis unfolding check_auth_cookie_def Let_def l c by (rule refl)
qed

lemma auth_cookie: "check_auth_cookie (''nbdl_auth='' @ rest) = rest"
  by (simp add: check_auth_cookie_def)

definition auth_cookie_name :: "string \<Rightarrow> bool" where
  "auth_cookie_name c \<longleftrightarrow> take 10 c = ''nbdl_auth=''"

lemma other_cookie:
  assumes "\<not> auth_cookie_name c" "CHR '';'' \<notin> set c"
  shows "check_auth_cookie (c @ CHR '';'' # rest) = CHR '';'' # rest"
proof -
  have "take 10 (c @ CHR '';'' # rest) \<noteq> ''nbdl_auth=''"
  proof (cases "10 \<le> length c")
    case True
    then show ?thesis using assms(1) by (simp add: auth_cookie_name_def)
  next
    case False
    then have "CHR '';'' \<in> set (take 10 (c @ CHR '';'' # rest))"
      by (cases "10 - length c") auto
    moreover have "CHR '';'' \<notin> set ''nbdl_auth=''" by simp
    ultimately show ?thesis by metis
  qed
  then show ?thesis using find_semicolon_at [OF assms(2)] by (simp add: check_auth_cookie_take)
qed

lemma take_cookie: "CHR '';'' \<notin> set v \<Longrightarrow> rest = [] \<or> hd rest = CHR '';'' \<Longrightarrow> take_cookie_value (v @ rest) = v"
  unfolding take_cookie_value_def by (cases rest) (auto simp: takeWhile_tail takeWhile_eq_all_conv)



section \<open>The whole handshake\<close>

definition sample_key :: string where
  "sample_key = ''dGhlIHNhbXBsZSBub25jZQ==''"

definition sample_digest :: string where
  "sample_digest = map char_of [0xb3, 0x7a, 0x4f, 0x2c, 0xc0, 0x62, 0x4f, 0x16, 0x90, 0xf6, 0x46, 0x06,
     0xcf, 0x38, 0x59, 0x45, 0xb2, 0xbe, 0xc4, 0xea :: nat]"

lemma sample_accept: "base64_encode False sample_digest = Inr ''s3pPLMBiTxaQ9kYGzzhZRbK+xOo=''"
  by code_simp

lemma request_read:
  assumes "CHR 0x0D \<notin> set origin" "length origin \<le> 247" "CHR 0x0D \<notin> set token" "length token \<le> 234"
  shows "parse_handshake_request (send_handshake_request origin token @ rest) = Inr (Resolve (rest,
     \<lparr>websocket_key = sample_key, cookies = ''nbdl_auth='' @ token @ '';''\<rparr>))"
proof -
  have line: "read_headers info ((name @ CHR '':'' # v) @ CRLF @ rest) =
      read_headers (if key = ''sec-websocket-key'' then info\<lparr>websocket_key := dropWhile (\<lambda>c. c = CHR '' '') v\<rparr>
       else if key = ''cookies'' then info\<lparr>cookies := dropWhile (\<lambda>c. c = CHR '' '') v\<rparr> else info) rest"
    if "CHR '':'' \<notin> set name" "CHR 0x0D \<notin> set name" "CHR 0x0D \<notin> set v" "length name + length v \<le> 253"
      "map tolower name = key" for info name v key rest
    using that by (subst read_header_line) (simp_all add: parse_header_named)
  have low: "map tolower ''Host'' = ''host''" "map tolower ''Origin'' = ''origin''" "map tolower ''Upgrade'' = ''upgrade''"
    "map tolower ''Connection'' = ''connection''" "map tolower ''Sec-WebSocket-Key'' = ''sec-websocket-key''"
    "map tolower ''Sec-WebSocket-Version'' = ''sec-websocket-version''" "map tolower ''Cookies'' = ''cookies''"
    by code_simp+
  have e: "expect_equal (''GET / HTTP/1.1'' @ CRLF) (''GET / HTTP/1.1'' @ CRLF @ r) = Resolve r" for r
    by (simp add: expect_equal_def length_CRLF)
  have lines: "send_handshake_request origin token @ rest = ''GET / HTTP/1.1'' @ CRLF @ (''Host'' @ CHR '':'' # '' nbdl'') @ CRLF
     @ (''Origin'' @ CHR '':'' # origin) @ CRLF @ (''Upgrade'' @ CHR '':'' # '' websocket'') @ CRLF
     @ (''Connection'' @ CHR '':'' # '' Upgrade'') @ CRLF @ (''Sec-WebSocket-Key'' @ CHR '':'' # CHR '' '' # sample_key) @ CRLF
     @ (''Sec-WebSocket-Version'' @ CHR '':'' # '' 13'') @ CRLF
     @ (''Cookies'' @ CHR '':'' # '' nbdl_auth='' @ token @ '';'') @ CRLF @ CRLF @ rest"
    by (simp add: send_handshake_request_def sample_key_def)
  show ?thesis
    unfolding parse_handshake_request_def lines e promise.case
    apply (subst line [OF _ _ _ _ low(1)], simp, simp, simp, simp)
    apply (subst line [OF _ _ _ _ low(2)], simp, simp, simp add: assms, simp add: assms)
    apply (subst line [OF _ _ _ _ low(3)], simp, simp, simp, simp)
    apply (subst line [OF _ _ _ _ low(4)], simp, simp, simp, simp)
    apply (subst line [OF _ _ _ _ low(5)], simp, simp, simp add: sample_key_def, simp add: sample_key_def)
    apply (subst line [OF _ _ _ _ low(6)], simp, simp, simp, simp)
    apply (subst line [OF _ _ _ _ low(7)], simp, simp, simp add: assms, simp add: assms)
    apply (simp add: read_headers_end handshake_info_new_def sample_key_def)
    done
qed

lemma own_token: "CHR '';'' \<notin> set token \<Longrightarrow> get_auth_token (''nbdl_auth='' @ token @ '';'') = token"
proof -
  assume t: "CHR '';'' \<notin> set token"
  have "take_cookie_value (token @ '';'') = token" using t by (rule take_cookie) simp
  moreover have "hd (token @ '';'') \<noteq> CHR '';''" if "token \<noteq> []" using t that by (cases token) auto
  ultimately show ?thesis
    using auth_cookie [of "token @ '';''"] by (cases "token = []") (subst get_auth_token.simps, simp)+
qed



section \<open>Deviations\<close>

text \<open>A header that consists of one of the two names without a colon is read past its end.\<close>

lemma header_without_colon:
  "server_endpoint_init sha1 (''GET / HTTP/1.1'' @ CRLF @ ''Cookies'' @ CRLF @ CRLF) = Inl BufferOverread"
proof -
  have "parse_header handshake_info_new ''Cookies'' = Inl BufferOverread"
    by code_simp
  then show ?thesis
    using read_header_line [of "''Cookies''" handshake_info_new CRLF]
    by (simp add: server_endpoint_init_def parse_handshake_request_def expect_equal_def length_CRLF)
qed

text \<open>An empty token hides: the next cookie is taken for the rest of the list.\<close>

lemma empty_token_skipped: "get_auth_token ''nbdl_auth=; nbdl_auth=other'' = ''other''"
  by code_simp

end
