(* ===== verification/Spec2Isabelle.thy ===== *)
theory Spec2Isabelle
  imports GeoInfer ReadWrite SourceManager Windings ImportSets Builtins LexerText Utf8 ParserTotal MangleText Endpoint Handshake
begin

text \<open>
  Verification library for the schir-project repository: the Scheme implementation \<open>src/schir\<close>, the
  geometric algebra dialect \<open>src/geomalg\<close> and the websocket part of \<open>src/nbdl\<close>. Every definition
  that models code says in the text before it, or in its name, which function it is; the functions
  keep the names of the source. Results that can leave the defined behaviour of C++ (a read outside
  of a buffer, a failing \<open>assert\<close>, \<open>llvm_unreachable\<close>, an invalid shift, and the fuel of the model)
  are values of \<open>'a result\<close> (\<open>Result\<close>), so that every theorem about a value is also a theorem about
  its absence of faults.

  \<^bold>\<open>The parts and how they interact.\<close>

  \<^item> Reading. \<open>SourceManager\<close> gives every file a range of the 32-bit locations; \<open>Lexer\<close> (over the
    attribute table of \<open>CharInfo\<close>) turns the buffer of a file into tokens that carry such locations;
    \<open>Parser\<close> (with \<open>ParserLiterals\<close> for numbers, characters and strings, and \<open>SchemeValue\<close> for the
    values) builds values from the tokens; \<open>Writer\<close> writes a value as text again. \<open>Utf8\<close> holds the
    character codes that both directions use, \<open>Mangle\<close> the names of compiled modules.

  \<^item> Running. \<open>Windings\<close> is the machine of continuations, escape procedures and \<open>dynamic-wind\<close> that
    the interpreter of Scheme and its builtins run on; \<open>Builtins\<close> are its procedures on numbers,
    strings, lists and vectors; \<open>ImportSets\<close> decides which names a program sees.

  \<^item> Geometric algebra. \<open>BladeTag\<close> is the bit set that names a blade, \<open>GeoType\<close> the types of the
    dialect over it, \<open>Narrowing\<close> the order of the types, \<open>GeoInfer\<close> the result types of the operations
    and their verifiers.

  \<^item> Websockets. \<open>Base64\<close> and \<open>Handshake\<close> open a connection, \<open>WsFrame\<close> reads and sends messages as
    frames, \<open>Endpoint\<close> is the state machine of an open connection.

  \<^bold>\<open>Theories and the code they model.\<close>

  \<^item> \<open>Prelude\<close>, \<open>PrefixCode\<close>, \<open>Transition\<close>, \<open>Result\<close>: shared lemmas on lists and words; the interface
    of a code whose words are read one after the other (locale \<open>prefix_code\<close>); runs of a component
    under events of its environment and their invariants (locale \<open>trace_invariant\<close>); faults.

  \<^item> \<open>CharInfo\<close>: \<open>schir/lib/CharInfo.cpp\<close>. \<open>Lexer\<close>: \<open>schir/lib/Lexer.cpp\<close>, \<open>Lexer.h\<close>; a pointer is an
    index of the buffer and every read is checked. \<open>LexerSafety\<close> shows that a buffer that ends in a
    newline and NUL (and two more readable bytes, which one comparison of five bytes needs) is never
    left and that the stream of tokens is finite; \<open>LexerText\<close> that a text of lexemes is lexed back.

  \<^item> \<open>Parser\<close>, \<open>ParserLiterals\<close>, \<open>SchemeValue\<close>: \<open>schir/lib/Parser.cpp\<close>, \<open>Parser.h\<close>, the values of
    \<open>Value.h\<close> that the reader builds and \<open>equal\<close> on them. The members of the class call each other
    through one fuelled function \<open>parse\<close> on a datatype of calls; seven calls for each byte of the
    source and twelve more are enough fuel for every source (\<open>ParserTotal\<close>), so a result other than
    \<open>OutOfFuel\<close> is the result for every larger fuel as well. \<open>APFloat\<close> is a parameter.

  \<^item> \<open>Writer\<close>, \<open>WriterLex\<close>, \<open>WriterAtoms\<close>, \<open>ReadWrite\<close>: class \<open>Writer\<close> of \<open>schir/lib/Context.cpp\<close>; what
    the lexer sees at each written atom; what the parser makes of it; and the round trip. The
    Unicode classes of LLVM and the digits of \<open>APFloat\<close> are parameters, floats are not read back.

  \<^item> \<open>Utf8\<close>: the code points and hexadecimal codes of \<open>schir/lib/Builtins.cpp\<close> (\<open>schir::detail\<close>).
    \<open>Mangle\<close>, \<open>MangleText\<close>: \<open>schir/lib/Mangle.cpp\<close> and the round trip of module paths.

  \<^item> \<open>SourceManager\<close>: \<open>SourceManager.cpp\<close>, \<open>SourceManager.h\<close>, \<open>Source.h\<close>; below, the composition
    with the lexer: a token is diagnosed where it is.

  \<^item> \<open>Windings\<close>: \<open>schir/include/schir/ContinuationStack.h\<close>. A winding is known by the address of its
    vector; the invariant of all reachable states is that equal addresses are equal windings and
    that a depth is the length of the chain of parents. Escapes are compared with a specification
    by lists: leave to the first common winding, then enter.

  \<^item> \<open>ImportSets\<close>: \<open>Module\<close>, \<open>ImportSet\<close> and \<open>Environment\<close> of \<open>Value.h\<close> and \<open>Context.cpp\<close> and the import of
    \<open>OpGen.cpp\<close>, against the meaning that R7RS gives import sets. \<open>Builtins\<close>: procedures of
    \<open>Builtins.cpp\<close> over an explicit heap of shared objects, with the ways in which they can end.
    The loop of \<open>length_helper\<close> gets one turn for each object of the heap and one more, which the
    theorem on it shows to be enough; doubles are a parameter.

  \<^item> \<open>BladeTag\<close>, \<open>GeoType\<close>, \<open>Narrowing\<close>, \<open>GeoInfer\<close>: \<open>BladeTag.h\<close>, \<open>Type.cpp\<close>, \<open>Type.h\<close> and \<open>Dialect.cpp\<close>
    of \<open>geomalg\<close>. Tags are 32-bit words; values of a type are multivectors as functions of blades.

  \<^item> \<open>Base64\<close>: \<open>base64_encode.hpp\<close>, \<open>base64_decode.hpp\<close>, with an encoding over the bit stream as the
    reference. \<open>WsFrame\<close>: \<open>message_reader.hpp\<close>, \<open>message_sender.hpp\<close>; a socket is the sequence of its
    bytes, and the loops stop when it is used up. \<open>Handshake\<close>: the parsers and writers of both sides
    of the opening handshake; SHA-1 is a parameter. \<open>Endpoint\<close>: \<open>endpoint_impl.hpp\<close> as a step relation
    on the events of the socket and the application.

  \<^bold>\<open>Groups of lemmas.\<close> For each component: an invariant or a well-formedness condition and its
  preservation (\<open>lexer_ok\<close>, \<open>good\<close>, \<open>layout\<close>, \<open>machine_ok\<close>, the invariants of \<open>Endpoint\<close>); totality of
  its loops; its functional behaviour against a reference (\<open>lines_of\<close>, \<open>windings_spec\<close>, the bit stream,
  multivectors, bindings of R7RS); round trips through its inverse; and the composition with its neighbours.

  \<^bold>\<open>Not modelled.\<close> The evaluator and the objects of its heap (the rest of \<open>Context.cpp\<close>,
  \<open>Builtins.cpp\<close> and \<open>Value.h\<close>, \<open>OpEval.cpp\<close>, \<open>Heap.cpp\<close>): they work on a garbage collected object
  graph with MLIR operations inside. The syntax of the compiler (\<open>OpGen.cpp\<close>, \<open>Expander\<close>,
  \<open>Quasiquote.cpp\<close>), the lowering passes and the translations to C++ of \<open>geomalg\<close> and of the \<open>nbdl\<close>
  plugin (\<open>Passes.cpp\<close>, \<open>Lower.cpp\<close>, \<open>TranslateCpp.cpp\<close>): rewriting of MLIR modules through the
  interfaces of a library that is not part of the repository. The stores, containers, bindings and
  user interface code of \<open>nbdl\<close>: templates without a behaviour of their own before they are
  instantiated, databases and graphics. The bytes of the continuation stack and their exhaustion,
  opening of files, and the vendored SHA-1.
\<close>

section \<open>Diagnostics for tokens\<close>

lemma Lex_token_location:
  assumes "lexer_ok n L" and "Lex L = Some (L', t)" and "LitBegin t = Some b"
  shows "Buffer L' = Buffer L" and "Loc t = getSourceLocation L b" and "LiteralData t = text_range (Buffer L) b (BufferPtr L')"
proof -
  obtain L1 p e K where s: "lex_skip L (BufferPtr L) = Some (L1, p)" and f: "(L', t) = FormTokenWithChars L1 e K"
    using assms(2) by (rule Lex_form)
  have "same_source L L1"
    using lex_skip_safe [of "BufferPtr L" n L] assms(1) s by (fastforce simp: lexer_ok_def)
  then show "Buffer L' = Buffer L" "Loc t = getSourceLocation L b" "LiteralData t = text_range (Buffer L) b (BufferPtr L')"
    using f assms(3) by (auto simp: FormTokenWithChars_def same_source_def getSourceLocation_def)
qed


definition example_file :: SourceFile where
  "example_file = \<lparr>FileBuffer = ''ab'' @ [CHR 0x0A] @ '' xyz'' @ [CHR 0x0A], BehindEnd = Some NUL, FileName = ''t.scm'',
     StartLoc = SourceLocation 1, ExternalRawEncoding = 0\<rparr>"

definition example_position :: lexer where
  "example_position = \<lparr>FileLoc = SourceLocation 1, Buffer = FileBuffer example_file @ [NUL, NUL, NUL],
     BufferPtr = 2, IsBlockComment = False\<rparr>"


end
